(* ===== verification/Prelude.thy ===== *)
theory Prelude
  imports Main "HOL-Library.FSet" "HOL-Library.Word" "HOL-Library.List_Lexorder" "HOL-Library.Char_ord"
begin

text \<open>
  Shared vocabulary of the development: the collections that carry the automation, the
  operations of Rust's standard containers that several components use (\<open>HashMap::retain\<close>,
  an in-place pass over \<open>HashMap::values_mut\<close>, \<open>BTreeMap::insert\<close>), and decimal
  printing and parsing of integers (\<open>to_string\<close> and \<open>str::parse::<i64>\<close>).
\<close>

named_theorems task_run \<open>effect of a broker task that runs without interruption\<close>
named_theorems frame_simps \<open>byte framing of packets\<close>
named_theorems broker_inv \<open>preservation of the broker's invariant\<close>

section \<open>Maps\<close>

text \<open>\<open>HashMap::retain\<close>: keeps the entries on which the predicate holds.\<close>

definition map_retain :: "('k \<Rightarrow> 'v \<Rightarrow> bool) \<Rightarrow> ('k \<rightharpoonup> 'v) \<Rightarrow> ('k \<rightharpoonup> 'v)" where
  "map_retain P m = (\<lambda>k. case m k of None \<Rightarrow> None | Some v \<Rightarrow> if P k v then Some v else None)"

text \<open>A \<open>for v in m.values_mut()\<close> loop whose body changes \<open>v\<close> only.\<close>

definition map_values :: "('v \<Rightarrow> 'w) \<Rightarrow> ('k \<rightharpoonup> 'v) \<Rightarrow> ('k \<rightharpoonup> 'w)" where
  "map_values f m = (\<lambda>k. map_option f (m k))"

lemma map_retain_Some [simp]:
  "map_retain P m k = Some v \<longleftrightarrow> m k = Some v \<and> P k v"
  by (auto simp: map_retain_def split: option.splits)

lemma map_retain_None:
  "map_retain P m k = None \<longleftrightarrow> (\<forall>v. m k = Some v \<longrightarrow> \<not> P k v)"
  by (auto simp: map_retain_def split: option.splits)

lemma map_values_apply [simp]: "map_values f m k = map_option f (m k)"
  by (simp add: map_values_def)

lemma map_retain_upd [simp]:
  "map_retain P (m(k \<mapsto> v)) = (if P k v then (map_retain P m)(k \<mapsto> v) else (map_retain P m)(k := None))"
  by (rule ext) (simp add: map_retain_def)

lemma map_retain_empty [simp]: "map_retain P Map.empty = Map.empty"
  by (rule ext) (simp add: map_retain_def)

lemma map_retain_retain:
  "map_retain P (map_retain Q m) = map_retain (\<lambda>k v. P k v \<and> Q k v) m"
  by (rule ext) (auto simp: map_retain_def split: option.splits)

lemma map_values_upd [simp]: "map_values f (m(k \<mapsto> v)) = (map_values f m)(k \<mapsto> f v)"
  by (rule ext) simp

lemma map_values_empty [simp]: "map_values f Map.empty = Map.empty"
  by (rule ext) simp

lemma map_values_comp: "map_values f (map_values g m) = map_values (f \<circ> g) m"
  by (rule ext) (simp add: option.map_comp)

section \<open>Sorted association lists\<close>

text \<open>
  \<open>BTreeMap::insert\<close> on the list of entries in key order: an existing key keeps its place and
  gets the new value.
\<close>

fun btree_insert :: "'k::linorder \<Rightarrow> 'v \<Rightarrow> ('k \<times> 'v) list \<Rightarrow> ('k \<times> 'v) list" where
  "btree_insert k v [] = [(k, v)]"
| "btree_insert k v ((a, b) # m) =
     (if k < a then (k, v) # (a, b) # m
      else if k = a then (k, v) # m
      else (a, b) # btree_insert k v m)"

lemma btree_insert_lookup [simp]: "map_of (btree_insert k v m) = (map_of m)(k \<mapsto> v)"
  by (induction m) auto

lemma btree_insert_keys [simp]: "fst ` set (btree_insert k v m) = insert k (fst ` set m)"
  by (simp flip: dom_map_of_conv_image_fst)

lemma btree_insert_sorted:
  "sorted_wrt (<) (map fst m) \<Longrightarrow> sorted_wrt (<) (map fst (btree_insert k v m))"
proof (induction m)
  case Nil
  then show ?case by simp
next
  case (Cons e m)
  obtain a b where e: "e = (a, b)" by force
  have keys: "\<And>x. x \<in> set (map fst (btree_insert k v m)) \<longleftrightarrow> x = k \<or> x \<in> set (map fst m)"
    using btree_insert_keys [of k v m] by auto
  from Cons show ?case
    by (auto simp: e keys)
qed

lemma btree_insert_last:
  "\<forall>a \<in> fst ` set m. a < k \<Longrightarrow> btree_insert k v m = m @ [(k, v)]"
  by (induction m) auto

section \<open>Decimal numerals\<close>

definition digit_char :: "nat \<Rightarrow> char" where
  "digit_char d = char_of (48 + d)"

definition char_digit :: "char \<Rightarrow> nat option" where
  "char_digit c = (let n = of_char c in if 48 \<le> n \<and> n \<le> (57::nat) then Some (n - 48) else None)"

fun show_nat :: "nat \<Rightarrow> string" where
  "show_nat n = (if n < 10 then [digit_char n] else show_nat (n div 10) @ [digit_char (n mod 10)])"

declare show_nat.simps [simp del]

definition show_int :: "int \<Rightarrow> string" where
  "show_int i = (if i < 0 then CHR ''-'' # show_nat (nat (- i)) else show_nat (nat i))"

fun read_digits :: "nat \<Rightarrow> string \<Rightarrow> nat option" where
  "read_digits acc [] = Some acc"
| "read_digits acc (c # cs) =
     (case char_digit c of None \<Rightarrow> None | Some d \<Rightarrow> read_digits (10 * acc + d) cs)"

text \<open>
  \<open>str::parse::<i64>\<close>: an optional sign, then at least one decimal digit, and a value in the
  range of the type.
\<close>

definition parse_nat :: "string \<Rightarrow> nat option" where
  "parse_nat cs = (if cs = [] then None else read_digits 0 cs)"

definition i64_range :: "int \<Rightarrow> bool" where
  "i64_range i \<longleftrightarrow> - (2 ^ 63) \<le> i \<and> i < 2 ^ 63"

definition parse_i64 :: "string \<Rightarrow> int option" where
  "parse_i64 cs =
     (case cs of
        [] \<Rightarrow> None
      | c # r \<Rightarrow>
          Option.bind (if c = CHR ''-'' then map_option (\<lambda>n. - int n) (parse_nat r)
                       else if c = CHR ''+'' then map_option int (parse_nat r)
                       else map_option int (parse_nat (c # r)))
            (\<lambda>i. if i64_range i then Some i else None))"

lemma char_digit_digit_char [simp]: "d < 10 \<Longrightarrow> char_digit (digit_char d) = Some d"
  by (simp add: char_digit_def digit_char_def)

lemma digit_char_not_sign:
  "d < 10 \<Longrightarrow> digit_char d \<noteq> CHR ''-''" "d < 10 \<Longrightarrow> digit_char d \<noteq> CHR ''+''"
proof -
  assume d: "d < 10"
  have "char_digit CHR ''-'' = None" "char_digit CHR ''+'' = None"
    by (simp_all add: char_digit_def)
  with char_digit_digit_char [OF d] show "digit_char d \<noteq> CHR ''-''" "digit_char d \<noteq> CHR ''+''"
    by (metis option.simps(3))+
qed

lemma read_digits_append:
  "read_digits acc (xs @ ys) = Option.bind (read_digits acc xs) (\<lambda>a. read_digits a ys)"
  by (induction xs arbitrary: acc) (auto split: option.splits)

lemma read_digits_show_nat: "read_digits 0 (show_nat n) = Some n"
proof (induction n rule: show_nat.induct)
  case (1 n)
  show ?case
  proof (cases "n < 10")
    case True
    then show ?thesis by (simp add: show_nat.simps [of n])
  next
    case False
    with 1 have "read_digits 0 (show_nat (n div 10)) = Some (n div 10)" by simp
    with False show ?thesis
      by (simp add: show_nat.simps [of n] read_digits_append)
  qed
qed

lemma show_nat_Cons: "\<exists>d cs. show_nat n = digit_char d # cs \<and> d < 10"
proof (induction n rule: show_nat.induct)
  case (1 n)
  show ?case
  proof (cases "n < 10")
    case True
    then show ?thesis by (auto simp: show_nat.simps [of n])
  next
    case False
    with 1 obtain d cs where "show_nat (n div 10) = digit_char d # cs" "d < 10" by blast
    with False show ?thesis by (auto simp: show_nat.simps [of n])
  qed
qed

lemma parse_nat_show_nat [simp]: "parse_nat (show_nat n) = Some n"
proof -
  obtain d cs where "show_nat n = digit_char d # cs" using show_nat_Cons by blast
  then have "show_nat n \<noteq> []" by simp
  then show ?thesis by (simp add: parse_nat_def read_digits_show_nat)
qed

lemma parse_i64_show_int: "i64_range i \<Longrightarrow> parse_i64 (show_int i) = Some i"
proof -
  assume i: "i64_range i"
  obtain d cs where s: "show_nat (nat i) = digit_char d # cs" and d: "d < 10"
    using show_nat_Cons by blast
  have p: "parse_nat (digit_char d # cs) = Some (nat i)"
    using parse_nat_show_nat [of "nat i"] by (simp add: s)
  show ?thesis
  proof (cases "i < 0")
    case True
    with i show ?thesis by (simp add: parse_i64_def show_int_def)
  next
    case False
    with i s p digit_char_not_sign [OF d] show ?thesis
      by (simp add: parse_i64_def show_int_def)
  qed
qed

lemma parse_i64_range: "parse_i64 cs = Some i \<Longrightarrow> i64_range i"
  by (auto simp: parse_i64_def bind_eq_Some_conv split: list.splits if_splits)

end
