(* ===== verification/Rpc.thy ===== *)
theory Rpc
  imports Prelude
begin

text \<open>
  The protocol types of \<^verbatim>\<open>src/src/rpc.rs\<close>: identifiers, requests, responses and the packet
  limit. JSON values are those of \<^verbatim>\<open>serde_json::Value\<close>: an object is the list of its entries in
  key order, because the crate is built without the \<^verbatim>\<open>preserve_order\<close> feature
  (\<^verbatim>\<open>src/Cargo.lock\<close> shows no \<^verbatim>\<open>indexmap\<close> under \<^verbatim>\<open>serde_json\<close>), so its \<^verbatim>\<open>Map\<close> is a
  \<^verbatim>\<open>BTreeMap\<close>; an integer number is an \<^typ>\<open>int\<close>, any other number the bit pattern of an \<^verbatim>\<open>f64\<close>.

  The encoder and decoder of \<^verbatim>\<open>serde_json\<close> are not part of the repository. They are a parameter, a
  record \<open>codec\<close> that every definition which serialises or parses takes as an argument.
\<close>

type_synonym bytes = "8 word list"

datatype json_number = NInt int | NFloat "64 word"

datatype json =
    JNull
  | JBool bool
  | JNumber json_number
  | JString string
  | JArray "json list"
  | JObject "(string \<times> json) list"

section \<open>Identifiers and limits\<close>

datatype ClientId = ClientId (client_id_str: string)
datatype CallId = CallId (call_id_str: string)

text \<open>\<open>(u16::MAX as usize) + 1\<close>.\<close>

definition BUF_SIZE :: nat where
  "BUF_SIZE = (2 ^ 16 - 1) + 1"

definition TCP_ADDR :: string where
  "TCP_ADDR = ''0.0.0.0:5123''"

definition UNIX_PATH :: string where
  "UNIX_PATH = ''/tmp/ipc_broker.sock''"

text \<open>The derived order and \<open>Display\<close> of a client id are those of its string.\<close>

instantiation ClientId :: linorder
begin

definition less_eq_ClientId :: "ClientId \<Rightarrow> ClientId \<Rightarrow> bool" where
  "less_eq_ClientId a b \<longleftrightarrow> client_id_str a \<le> client_id_str b"

definition less_ClientId :: "ClientId \<Rightarrow> ClientId \<Rightarrow> bool" where
  "less_ClientId a b \<longleftrightarrow> client_id_str a < client_id_str b"

instance
  by standard
    (auto simp: less_eq_ClientId_def less_ClientId_def intro: ClientId.expand)

end

section \<open>Messages\<close>

datatype RpcRequest =
    RegisterObject string
  | RegisterService string string
  | Call CallId string string json
  | Subscribe string string
  | Publish string string json
  | HasObject string

datatype RpcResponse =
    Registered string
  | Result CallId string json
  | Error "CallId option" string string
  | Event string string json
  | Subscribed string string
  | HasObjectResult string bool

text \<open>
  \<open>serde_json::to_vec\<close> and \<open>serde_json::from_slice\<close> at the two message types. \<open>None\<close> is
  the error result.
\<close>

record codec =
  req_to_vec :: "RpcRequest \<Rightarrow> bytes option"
  resp_to_vec :: "RpcResponse \<Rightarrow> bytes option"
  req_from_slice :: "bytes \<Rightarrow> RpcRequest option"
  resp_from_slice :: "bytes \<Rightarrow> RpcResponse option"

text \<open>
  Documented behaviour of the derived (externally tagged) encodings, message by message: a value
  is written and read back, and a response, whose tag is no request's tag, does not parse as a
  request.
\<close>

definition codec_req :: "codec \<Rightarrow> RpcRequest \<Rightarrow> bool" where
  "codec_req cd r \<longleftrightarrow> (\<exists>b. req_to_vec cd r = Some b \<and> req_from_slice cd b = Some r)"

definition codec_resp :: "codec \<Rightarrow> RpcResponse \<Rightarrow> bool" where
  "codec_resp cd r \<longleftrightarrow>
     (\<exists>b. resp_to_vec cd r = Some b \<and> req_from_slice cd b = None \<and> resp_from_slice cd b = Some r)"

text \<open>How a reader loop classifies a packet: a request first, else a response, else garbage.\<close>

datatype incoming = InRequest RpcRequest | InResponse RpcResponse | InInvalid

definition decode_packet :: "codec \<Rightarrow> bytes \<Rightarrow> incoming" where
  "decode_packet cd buf =
     (case req_from_slice cd buf of
        Some req \<Rightarrow> InRequest req
      | None \<Rightarrow> (case resp_from_slice cd buf of Some resp \<Rightarrow> InResponse resp | None \<Rightarrow> InInvalid))"

lemma decode_packet_request:
  "codec_req cd r \<Longrightarrow> req_to_vec cd r = Some b \<Longrightarrow> decode_packet cd b = InRequest r"
  by (auto simp: codec_req_def decode_packet_def)

lemma decode_packet_response:
  "codec_resp cd r \<Longrightarrow> resp_to_vec cd r = Some b \<Longrightarrow> decode_packet cd b = InResponse r"
  by (auto simp: codec_resp_def decode_packet_def)

end
