(* ===== verification/Activate.thy ===== *)
theory Activate
  imports Rpc
begin

text \<open>
  Service activation, \<^verbatim>\<open>src/src/activate.rs\<close>: the state of a service that the broker can start,
  the loader of the activation files and the command that starts a unit. The file system, the
  home directory and the JSON parser are the environment, a record \<open>activation_env\<close> of the answers
  they give.
\<close>

section \<open>Data\<close>

datatype ServiceState = Stopped | Starting | Running ClientId

record ServiceEntry =
  state :: ServiceState
  service_name :: string
  pending_calls :: "RpcRequest list"
  owner :: "ClientId option"

type_synonym Services = "string \<rightharpoonup> ServiceEntry"

record ServiceActivationFile =
  sa_kind :: string
  sa_object_name :: string
  sa_service_name :: string

record activation_env =
  home_dir :: "string option"
  read_dir :: "string \<Rightarrow> string option list option"  \<comment> \<open>outer \<open>None\<close>: the directory cannot be read; inner \<open>None\<close>: one entry cannot\<close>
  read_to_string :: "string \<Rightarrow> string option"
  activations_from_str :: "string \<Rightarrow> ServiceActivationFile list option"

definition BASE_DIR :: string where
  "BASE_DIR = ''service-activation''"

section \<open>Paths\<close>

text \<open>\<open>Path::join\<close> with a relative name, \<open>Path::file_name\<close> and \<open>Path::extension\<close>.\<close>

definition path_join :: "string \<Rightarrow> string \<Rightarrow> string" where
  "path_join h p = (if h = [] \<or> last h = CHR ''/'' then h @ p else h @ CHR ''/'' # p)"

definition file_name :: "string \<Rightarrow> string" where
  "file_name p = rev (takeWhile (\<lambda>c. c \<noteq> CHR ''/'') (rev p))"

definition extension :: "string \<Rightarrow> string option" where
  "extension p =
     (let f = file_name p;
          ext = rev (takeWhile (\<lambda>c. c \<noteq> CHR ''.'') (rev f));
          stem = rev (drop 1 (dropWhile (\<lambda>c. c \<noteq> CHR ''.'') (rev f)))
      in if f = ''..'' \<or> CHR ''.'' \<notin> set f \<or> stem = [] then None else Some ext)"

section \<open>Loading\<close>

definition stopped_entry :: "string \<Rightarrow> ServiceEntry" where
  "stopped_entry name = \<lparr>state = Stopped, service_name = name, pending_calls = [], owner = None\<rparr>"

text \<open>The items of one file, then the directory entries in the order the system lists them.\<close>

fun load_items :: "ServiceActivationFile list \<Rightarrow> Services \<Rightarrow> Services" where
  "load_items [] services = services"
| "load_items (item # items) services =
     (if sa_kind item \<noteq> ''RegisterService'' then load_items items services
      else load_items items
             (services(sa_object_name item \<mapsto> stopped_entry (sa_service_name item))))"

fun load_entries :: "activation_env \<Rightarrow> string option list \<Rightarrow> Services \<Rightarrow> Services" where
  "load_entries env [] services = services"
| "load_entries env (None # entries) services = load_entries env entries services"
| "load_entries env (Some path # entries) services =
     (if extension path \<noteq> Some ''json'' then load_entries env entries services
      else (case read_to_string env path of
              None \<Rightarrow> load_entries env entries services
            | Some content \<Rightarrow>
                (case activations_from_str env content of
                   None \<Rightarrow> load_entries env entries services
                 | Some parsed \<Rightarrow> load_entries env entries (load_items parsed services))))"

definition load_service_activations :: "activation_env \<Rightarrow> Services \<Rightarrow> Services" where
  "load_service_activations env services =
     (case home_dir env of
        None \<Rightarrow> services
      | Some h \<Rightarrow>
          (case read_dir env (path_join h BASE_DIR) of
             None \<Rightarrow> services
           | Some entries \<Rightarrow> load_entries env entries services))"

section \<open>Starting a unit\<close>

text \<open>
  \<open>spawn_service\<close> runs a command off the runtime and only logs what comes of it: the model keeps
  the command line. The unit is one argument of its own, it passes through no shell.
\<close>

definition spawn_service :: "string \<Rightarrow> string \<times> string list" where
  "spawn_service unit = (''/usr/bin/sudo'', [''/usr/bin/systemctl'', ''restart'', unit])"

section \<open>The loader as a specification\<close>

text \<open>The items of the activation files that the loader can read, in order.\<close>

fun file_items :: "activation_env \<Rightarrow> string option \<Rightarrow> ServiceActivationFile list" where
  "file_items env None = []"
| "file_items env (Some path) =
     (if extension path = Some ''json''
      then (case Option.bind (read_to_string env path) (activations_from_str env) of
              None \<Rightarrow> [] | Some items \<Rightarrow> items)
      else [])"

definition register_items :: "ServiceActivationFile list \<Rightarrow> (string \<times> ServiceEntry) list" where
  "register_items items =
     map (\<lambda>i. (sa_object_name i, stopped_entry (sa_service_name i)))
       (filter (\<lambda>i. sa_kind i = ''RegisterService'') items)"

lemma load_items_spec: "load_items items m = m ++ map_of (rev (register_items items))"
  by (induction items arbitrary: m) (simp_all add: register_items_def map_add_def fun_eq_iff split: option.split)

lemma load_entries_spec:
  "load_entries env entries m =
     m ++ map_of (rev (register_items (concat (map (file_items env) entries))))"
proof (induction entries arbitrary: m)
  case Nil
  then show ?case by (simp add: register_items_def)
next
  case (Cons entry entries)
  have items: "register_items (xs @ ys) = register_items xs @ register_items ys" for xs ys
    by (simp add: register_items_def)
  show ?case
  proof (cases entry)
    case None
    with Cons show ?thesis by simp
  next
    case (Some path)
    show ?thesis
    proof (cases "extension path = Some ''json''")
      case json: True
      show ?thesis
      proof (cases "Option.bind (read_to_string env path) (activations_from_str env)")
        case None
        with Cons Some json show ?thesis by (cases "read_to_string env path") simp_all
      next
        case (Some parsed)
        with Cons \<open>entry = Some path\<close> json show ?thesis
          by (cases "read_to_string env path") (simp_all add: load_items_spec items)
      qed
    qed (use Cons Some in simp)
  qed
qed

text \<open>C38: The loader enters exactly the \<open>RegisterService\<close> items of the readable, parsable \<open>.json\<close>
  files, each stopped, unowned and with an empty queue; the last item for a name wins, and a file
  that cannot be read or parsed changes nothing about the others.\<close>

theorem load_service_activations_spec:
  assumes "home_dir env = Some h" "read_dir env (path_join h BASE_DIR) = Some entries"
  shows "load_service_activations env m n =
     (case find (\<lambda>i. sa_kind i = ''RegisterService'' \<and> sa_object_name i = n)
             (rev (concat (map (file_items env) entries))) of
        None \<Rightarrow> m n
      | Some i \<Rightarrow> Some \<lparr>state = Stopped, service_name = sa_service_name i, pending_calls = [], owner = None\<rparr>)"
proof -
  have key: "map_of (rev (register_items items)) n =
      map_option (\<lambda>i. stopped_entry (sa_service_name i))
        (find (\<lambda>i. sa_kind i = ''RegisterService'' \<and> sa_object_name i = n) (rev items))" for items
  proof (induction items rule: rev_induct)
    case (snoc i items)
    then show ?case by (simp add: register_items_def)
  qed (simp add: register_items_def)
  show ?thesis
    using assms by (simp add: load_service_activations_def load_entries_spec key map_add_def stopped_entry_def
        split: option.splits)
qed

definition demo_activation_env :: activation_env where
  "demo_activation_env =
     \<lparr>home_dir = Some ''/root'',
      read_dir = (\<lambda>d. if d = ''/root/service-activation'' then Some [Some ''/root/service-activation/a.json'', None, Some ''/root/service-activation/readme''] else None),
      read_to_string = (\<lambda>p. Some p),
      activations_from_str = (\<lambda>c. Some
        [\<lparr>sa_kind = ''RegisterService'', sa_object_name = ''math'', sa_service_name = ''old.service''\<rparr>,
         \<lparr>sa_kind = ''Other'', sa_object_name = ''x'', sa_service_name = ''x.service''\<rparr>,
         \<lparr>sa_kind = ''RegisterService'', sa_object_name = ''math'', sa_service_name = ''math.service''\<rparr>])\<rparr>"

theorem load_service_activations_spec_witness:
  "load_service_activations demo_activation_env Map.empty ''math'' =
     Some \<lparr>state = Stopped, service_name = ''math.service'', pending_calls = [], owner = None\<rparr>"
  by (subst load_service_activations_spec
        [where h = "''/root''" and entries = "[Some ''/root/service-activation/a.json'', None, Some ''/root/service-activation/readme'']"])
    (simp_all add: demo_activation_env_def path_join_def BASE_DIR_def extension_def file_name_def)

end
