(* ===== verification/Channel.thy ===== *)
theory Channel
  imports Prelude
begin

text \<open>
  The bounded channel \<^verbatim>\<open>tokio::sync::mpsc::channel(n)\<close>, by its documented contract: a queue of at
  most \<open>n\<close> messages; \<open>send\<close> waits while the queue is full and fails once the receiver is gone;
  \<open>try_send\<close> answers at once; \<open>recv\<close> takes the oldest message. The broker gives one of 64 places to
  each connection, the client library one of 64 to its actor and one of 16 to each subscription.
\<close>

record 'm channel =
  places :: nat
  queue :: "'m list"
  rx_open :: bool

datatype send_result = SendOk | SendFull | SendClosed

definition new_channel :: "nat \<Rightarrow> 'm channel" where
  "new_channel n = \<lparr>places = n, queue = [], rx_open = True\<rparr>"

definition try_send :: "'m \<Rightarrow> 'm channel \<Rightarrow> send_result \<times> 'm channel" where
  "try_send m c =
     (if \<not> rx_open c then (SendClosed, c)
      else if places c \<le> length (queue c) then (SendFull, c)
      else (SendOk, c\<lparr>queue := queue c @ [m]\<rparr>))"

definition recv :: "'m channel \<Rightarrow> ('m \<times> 'm channel) option" where
  "recv c = (case queue c of [] \<Rightarrow> None | m # ms \<Rightarrow> Some (m, c\<lparr>queue := ms\<rparr>))"

definition close_rx :: "'m channel \<Rightarrow> 'm channel" where
  "close_rx c = c\<lparr>queue := [], rx_open := False\<rparr>"

section \<open>The contract\<close>

text \<open>
  Messages leave a channel in the order in which they were accepted, none is lost or duplicated
  while the receiver lives, and the queue never holds more than the channel has places.
\<close>

locale bounded_fifo =
  fixes push :: "'m \<Rightarrow> 'c \<Rightarrow> send_result \<times> 'c" and pop :: "'c \<Rightarrow> ('m \<times> 'c) option"
    and contents :: "'c \<Rightarrow> 'm list" and bound :: "'c \<Rightarrow> nat"
  assumes push_ok: "push m c = (SendOk, c') \<Longrightarrow>
        contents c' = contents c @ [m] \<and> length (contents c) < bound c \<and> bound c' = bound c"
    and push_refused: "push m c = (r, c') \<Longrightarrow> r \<noteq> SendOk \<Longrightarrow> c' = c"
    and pop_some: "pop c = Some (m, c') \<Longrightarrow> contents c = m # contents c' \<and> bound c' = bound c"
    and pop_none: "pop c = None \<Longrightarrow> contents c = []"
begin

text \<open>A run of the channel: what the senders pushed successfully, what the receiver took.\<close>

inductive history :: "'c \<Rightarrow> 'm list \<Rightarrow> 'm list \<Rightarrow> 'c \<Rightarrow> bool" where
  none: "history c [] [] c"
| pushed: "history c ins outs c1 \<Longrightarrow> push m c1 = (SendOk, c2) \<Longrightarrow> history c (ins @ [m]) outs c2"
| refused: "history c ins outs c1 \<Longrightarrow> push m c1 = (r, c2) \<Longrightarrow> r \<noteq> SendOk \<Longrightarrow> history c ins outs c2"
| popped: "history c ins outs c1 \<Longrightarrow> pop c1 = Some (m, c2) \<Longrightarrow> history c ins (outs @ [m]) c2"

lemma history_fifo: "history c ins outs c' \<Longrightarrow> contents c @ ins = outs @ contents c'"
proof (induction rule: history.induct)
  case (pushed c ins outs c1 m c2)
  with push_ok show ?case by fastforce
next
  case (refused c ins outs c1 m r c2)
  with push_refused show ?case by blast
next
  case (popped c ins outs c1 m c2)
  with pop_some show ?case by fastforce
qed simp

lemma history_bound: "history c ins outs c' \<Longrightarrow> bound c' = bound c"
  by (induction rule: history.induct) (auto dest: push_ok pop_some push_refused)

lemma history_length:
  "history c ins outs c' \<Longrightarrow> length (contents c) \<le> bound c \<Longrightarrow> length (contents c') \<le> bound c'"
proof (induction rule: history.induct)
  case (pushed c ins outs c1 m c2)
  with push_ok [OF pushed.hyps(2)] show ?case by simp
next
  case (refused c ins outs c1 m r c2)
  with push_refused [OF refused.hyps(2,3)] show ?case by simp
next
  case (popped c ins outs c1 m c2)
  with pop_some [OF popped.hyps(2)] show ?case by simp
qed simp

end

interpretation mpsc: bounded_fifo try_send recv queue places
  by unfold_locales (auto simp: try_send_def recv_def split: if_splits list.splits)

lemma try_send_places [simp]: "places (snd (try_send m c)) = places c"
  by (simp add: try_send_def)

lemma recv_places: "recv c = Some (m, c') \<Longrightarrow> places c' = places c \<and> rx_open c' = rx_open c"
  by (auto simp: recv_def split: list.splits)

end
