(* ===== verification/Tasks.thy ===== *)
theory Tasks
  imports Activate Channel
begin

text \<open>
  The broker's shared state and the shape of its asynchronous code. A handler of
  \<^verbatim>\<open>src/src/broker.rs\<close> is a task: pieces of code that run without interruption, cut at the points
  where the code awaits, that is where it takes one of the five mutexes or sends on a channel.
  \<open>Sync\<close> is one such piece, a function of the shared state that returns the new state and what
  remains to be done. \<open>run_task\<close> runs a task with nothing else running; the theory
  \<^verbatim>\<open>Locking\<close> reads the same tasks for the order of their locks.
\<close>

section \<open>Shared state\<close>

datatype ClientMsg = Outgoing bytes | ShutdownMsg

text \<open>
  A \<open>ClientSender\<close> is a handle of a channel: clones of a sender stored in several maps name the same
  channel.
\<close>

type_synonym ClientSender = nat

record ServerState =
  objects :: "string \<rightharpoonup> ClientId"
  clients :: "ClientId \<rightharpoonup> ClientSender"
  subscriptions :: "string \<rightharpoonup> string \<rightharpoonup> ClientId fset"
  calls :: "CallId \<rightharpoonup> ClientId \<times> ClientSender"
  services :: Services

definition empty_state :: "Services \<Rightarrow> ServerState" where
  "empty_state svcs =
     \<lparr>objects = Map.empty, clients = Map.empty, subscriptions = Map.empty, calls = Map.empty, services = svcs\<rparr>"

section \<open>Tasks\<close>

datatype mutex = Clients | Objects | Subscriptions | Calls | ServicesM

text \<open>The place of each mutex in the lock order that the code documents.\<close>

fun lock_rank :: "mutex \<Rightarrow> nat" where
  "lock_rank Clients = 1"
| "lock_rank Objects = 2"
| "lock_rank Subscriptions = 3"
| "lock_rank Calls = 4"
| "lock_rank ServicesM = 5"

lemma lock_rank_inject: "lock_rank a = lock_rank b \<Longrightarrow> a = b"
  by (cases a; cases b) simp_all

instantiation mutex :: linorder
begin

definition less_eq_mutex :: "mutex \<Rightarrow> mutex \<Rightarrow> bool" where
  "less_eq_mutex a b \<longleftrightarrow> lock_rank a \<le> lock_rank b"

definition less_mutex :: "mutex \<Rightarrow> mutex \<Rightarrow> bool" where
  "less_mutex a b \<longleftrightarrow> lock_rank a < lock_rank b"

instance
  by standard (auto simp: less_eq_mutex_def less_mutex_def dest: lock_rank_inject)

end

datatype task =
    Done
  | Lock mutex task        \<comment> \<open>\<open>m.lock().await\<close>\<close>
  | Unlock mutex task      \<comment> \<open>the guard is dropped\<close>
  | Sync "ServerState \<Rightarrow> ServerState \<times> task"  \<comment> \<open>code between two awaits\<close>
  | Send ClientSender ClientMsg task   \<comment> \<open>\<open>tx.send(msg).await\<close>; a failure is only logged\<close>
  | Spawn "string \<times> string list" task  \<comment> \<open>a spawned command that nothing waits for\<close>

datatype effect = Sent ClientSender ClientMsg | Spawned "string \<times> string list"

text \<open>Sequential composition: the second task starts when the first is done.\<close>

primrec seq :: "task \<Rightarrow> task \<Rightarrow> task" where
  "seq Done k = k"
| "seq (Lock m t) k = Lock m (seq t k)"
| "seq (Unlock m t) k = Unlock m (seq t k)"
| "seq (Sync f) k = Sync (map_prod id (\<lambda>t. seq t k) \<circ> f)"
| "seq (Send tx m t) k = Send tx m (seq t k)"
| "seq (Spawn c t) k = Spawn c (seq t k)"

text \<open>A \<open>for\<close> loop whose body awaits.\<close>

fun for_each :: "('a \<Rightarrow> task) \<Rightarrow> 'a list \<Rightarrow> task" where
  "for_each body [] = Done"
| "for_each body (x # xs) = seq (body x) (for_each body xs)"

text \<open>A block that takes one mutex, touches the state and drops the guard before it awaits again.\<close>

definition with_lock :: "mutex \<Rightarrow> (ServerState \<Rightarrow> ServerState \<times> task) \<Rightarrow> task" where
  "with_lock m f = Lock m (Sync (\<lambda>s. case f s of (s', t) \<Rightarrow> (s', Unlock m t)))"

lemma task_induct [case_names Done Lock Unlock Sync Send Spawn]:
  assumes "P Done" "\<And>m t. P t \<Longrightarrow> P (Lock m t)" "\<And>m t. P t \<Longrightarrow> P (Unlock m t)"
    and "\<And>f. (\<And>s. P (snd (f s))) \<Longrightarrow> P (Sync f)"
    and "\<And>tx m t. P t \<Longrightarrow> P (Send tx m t)" "\<And>c t. P t \<Longrightarrow> P (Spawn c t)"
  shows "P t"
proof (induction t)
  case (Sync f)
  have "P (snd (f s))" for s
    by (rule Sync) (auto simp: snds.simps)
  then show ?case by (rule assms(4))
qed (fact assms | rule assms)+

section \<open>Running a task alone\<close>

primrec run_task :: "task \<Rightarrow> ServerState \<Rightarrow> ServerState \<times> effect list" where
  "run_task Done = (\<lambda>s. (s, []))"
| "run_task (Lock m t) = run_task t"
| "run_task (Unlock m t) = run_task t"
| "run_task (Sync f) = (\<lambda>s. case (map_prod id run_task \<circ> f) s of (s', r) \<Rightarrow> r s')"
| "run_task (Send tx m t) = (\<lambda>s. case run_task t s of (s', es) \<Rightarrow> (s', Sent tx m # es))"
| "run_task (Spawn c t) = (\<lambda>s. case run_task t s of (s', es) \<Rightarrow> (s', Spawned c # es))"

lemma seq_Sync [simp]: "seq (Sync f) k = Sync (\<lambda>s. (fst (f s), seq (snd (f s)) k))"
  by (simp add: fun_eq_iff map_prod_def split_beta)

lemma run_task_Sync [simp]: "run_task (Sync f) s = run_task (snd (f s)) (fst (f s))"
  by (simp add: split_beta)

lemma seq_with_lock: "seq (with_lock m f) k = with_lock m (\<lambda>s. (fst (f s), seq (snd (f s)) k))"
  by (simp add: with_lock_def split_beta fun_eq_iff)

declare seq.simps(4) [simp del] run_task.simps(4) [simp del]

lemma run_with_lock [task_run]: "run_task (with_lock m f) s = run_task (snd (f s)) (fst (f s))"
  by (simp add: with_lock_def split_beta)

lemma run_seq [task_run]:
  "run_task (seq t k) s =
     (let (s1, es1) = run_task t s; (s2, es2) = run_task k s1 in (s2, es1 @ es2))"
  by (induction t arbitrary: s rule: task_induct) (simp_all add: split_beta Let_def)

lemma seq_Done [simp]: "seq t Done = t"
  by (induction t rule: task_induct) simp_all

lemma seq_assoc: "seq (seq a b) c = seq a (seq b c)"
  by (induction a rule: task_induct) simp_all

lemma for_each_append: "for_each body (xs @ ys) = seq (for_each body xs) (for_each body ys)"
  by (induction xs) (simp_all add: seq_assoc)

lemma run_for_each_stateless:
  assumes "\<And>x s. x \<in> set xs \<Longrightarrow> fst (run_task (body x) s) = s"
  shows "run_task (for_each body xs) s = (s, concat (map (\<lambda>x. snd (run_task (body x) s)) xs))"
  using assms by (induction xs) (simp_all add: run_seq split_beta Let_def)

end
