(* ===== verification/Server.thy ===== *)
theory Server
  imports Tasks
begin

text \<open>
  The request and response handlers, \<open>impl ServerState\<close> of \<^verbatim>\<open>src/src/broker.rs\<close>, on Unix. One
  definition per handler, in the order of the code, each a task (theory \<^verbatim>\<open>Tasks\<close>); then, for each
  handler, the state it leaves and the messages it sends when it runs without interruption.

  Parameters: the codec, and the order \<open>it\<close> in which a \<open>HashSet\<close> is iterated, which the standard
  library leaves open.
\<close>

section \<open>Sending\<close>

text \<open>\<open>send_to_client\<close>; the message comes as the result of its serialisation.\<close>

definition send_to_client :: "ClientId \<Rightarrow> bytes option \<Rightarrow> task" where
  "send_to_client cid ser =
     (case ser of
        None \<Rightarrow> Done
      | Some bytes \<Rightarrow>
          with_lock Clients (\<lambda>s. (s,
            case clients s cid of None \<Rightarrow> Done | Some tx \<Rightarrow> Send tx (Outgoing bytes) Done)))"

section \<open>Handlers\<close>

definition handle_register_object :: "codec \<Rightarrow> string \<Rightarrow> ClientId \<Rightarrow> task" where
  "handle_register_object cd object_name cid =
     seq (with_lock Objects (\<lambda>s. (s\<lparr>objects := (objects s)(object_name \<mapsto> cid)\<rparr>, Done)))
     (with_lock ServicesM (\<lambda>s.
        let finish = (\<lambda>pending.
              seq (for_each (\<lambda>req. send_to_client cid (req_to_vec cd req)) pending)
                (send_to_client cid (resp_to_vec cd (Registered object_name))))
        in case services s object_name of
             Some svc \<Rightarrow>
               (s\<lparr>services := (services s)(object_name \<mapsto>
                    svc\<lparr>state := Running cid, owner := Some cid, pending_calls := []\<rparr>)\<rparr>,
                finish (pending_calls svc))
           | None \<Rightarrow> (s, finish [])))"

definition handle_register_service :: "string \<Rightarrow> string \<Rightarrow> ClientId \<Rightarrow> task" where
  "handle_register_service object_name name cid =
     with_lock ServicesM (\<lambda>s.
       (s\<lparr>services := (services s)(object_name \<mapsto>
            (case services s object_name of
               Some svc \<Rightarrow>
                 (if state svc \<noteq> Running cid then svc\<lparr>service_name := name, state := Stopped\<rparr>
                  else svc\<lparr>service_name := name\<rparr>)
             | None \<Rightarrow> \<lparr>state = Stopped, service_name = name, pending_calls = [], owner = None\<rparr>))\<rparr>,
        Done))"

definition no_such_object :: "CallId \<Rightarrow> string \<Rightarrow> RpcResponse" where
  "no_such_object call_id object_name =
     Error (Some call_id) object_name (''No such object '' @ [CHR 0x27] @ object_name @ [CHR 0x27])"

text \<open>
  The part of \<open>handle_call\<close> for a call whose object has no reachable owner. In the branch for an
  unknown service the services guard lives until the end of the block, past the send.
\<close>

definition call_activate :: "codec \<Rightarrow> CallId \<Rightarrow> string \<Rightarrow> string \<Rightarrow> json \<Rightarrow> ClientId \<Rightarrow> task" where
  "call_activate cd call_id object_name method args cid =
     Lock ServicesM (Sync (\<lambda>s.
       case services s object_name of
         Some svc \<Rightarrow>
           (case state svc of
              Stopped \<Rightarrow>
                (s\<lparr>services := (services s)(object_name \<mapsto>
                     svc\<lparr>state := Starting,
                         pending_calls := pending_calls svc @ [Call call_id object_name method args]\<rparr>)\<rparr>,
                 Unlock ServicesM (Spawn (spawn_service (service_name svc)) Done))
            | Starting \<Rightarrow>
                (s\<lparr>services := (services s)(object_name \<mapsto>
                     svc\<lparr>pending_calls := pending_calls svc @ [Call call_id object_name method args]\<rparr>)\<rparr>,
                 Unlock ServicesM Done)
            | Running _ \<Rightarrow> (s, Unlock ServicesM Done))
       | None \<Rightarrow>
           (s, seq (send_to_client cid (resp_to_vec cd (no_such_object call_id object_name)))
                 (Unlock ServicesM Done))))"

definition handle_call :: "codec \<Rightarrow> CallId \<Rightarrow> string \<Rightarrow> string \<Rightarrow> json \<Rightarrow> ClientId \<Rightarrow> task" where
  "handle_call cd call_id object_name method args cid =
     Lock Clients (Lock Objects (Sync (\<lambda>s.
       let worker_id_opt = objects s object_name;
           worker_tx_opt = Option.bind worker_id_opt (clients s);
           caller_tx_opt = clients s cid
       in (s, Unlock Objects (Unlock Clients
         (case caller_tx_opt of
            None \<Rightarrow>
              send_to_client cid
                (resp_to_vec cd (Error (Some call_id) object_name ''Caller disconnected''))
          | Some caller_tx \<Rightarrow>
              seq (with_lock Calls (\<lambda>s. (s\<lparr>calls := (calls s)(call_id \<mapsto> (cid, caller_tx))\<rparr>, Done)))
                (case (worker_id_opt, worker_tx_opt) of
                   (Some _, Some worker_tx) \<Rightarrow>
                     (case req_to_vec cd (Call call_id object_name method args) of
                        None \<Rightarrow> Done
                      | Some bytes \<Rightarrow> Send worker_tx (Outgoing bytes) Done)
                 | _ \<Rightarrow> call_activate cd call_id object_name method args cid)))))))"

definition handle_subscribe :: "codec \<Rightarrow> string \<Rightarrow> string \<Rightarrow> ClientId \<Rightarrow> task" where
  "handle_subscribe cd object_name topic cid =
     seq (with_lock Subscriptions (\<lambda>s.
            let topics = (case subscriptions s object_name of None \<Rightarrow> Map.empty | Some m \<Rightarrow> m);
                subs = (case topics topic of None \<Rightarrow> {||} | Some c \<Rightarrow> c)
            in (s\<lparr>subscriptions := (subscriptions s)(object_name \<mapsto> topics(topic \<mapsto> finsert cid subs))\<rparr>, Done)))
       (send_to_client cid (resp_to_vec cd (Subscribed object_name topic)))"

definition handle_publish ::
    "codec \<Rightarrow> (ClientId fset \<Rightarrow> ClientId list) \<Rightarrow> string \<Rightarrow> string \<Rightarrow> json \<Rightarrow> task" where
  "handle_publish cd it object_name topic args =
     with_lock Subscriptions (\<lambda>s.
       let subs_list = (case Option.bind (subscriptions s object_name) (\<lambda>m. m topic) of
                          None \<Rightarrow> [] | Some c \<Rightarrow> it c)
       in (s, if subs_list = [] then Done
              else (case resp_to_vec cd (Event object_name topic args) of
                      None \<Rightarrow> Done
                    | Some bytes \<Rightarrow>
                        with_lock Clients (\<lambda>s. (s,
                          for_each (\<lambda>tx. Send tx (Outgoing bytes) Done)
                            (List.map_filter (clients s) subs_list))))))"

definition handle_has_object :: "codec \<Rightarrow> string \<Rightarrow> ClientId \<Rightarrow> task" where
  "handle_has_object cd object_name cid =
     with_lock Objects (\<lambda>s. (s,
       send_to_client cid (resp_to_vec cd (HasObjectResult object_name (objects s object_name \<noteq> None)))))"

fun handle_request ::
    "codec \<Rightarrow> (ClientId fset \<Rightarrow> ClientId list) \<Rightarrow> RpcRequest \<Rightarrow> ClientId \<Rightarrow> task" where
  "handle_request cd it (RegisterObject object_name) cid = handle_register_object cd object_name cid"
| "handle_request cd it (RegisterService object_name name) cid = handle_register_service object_name name cid"
| "handle_request cd it (Call call_id object_name method args) cid =
     handle_call cd call_id object_name method args cid"
| "handle_request cd it (Subscribe object_name topic) cid = handle_subscribe cd object_name topic cid"
| "handle_request cd it (Publish object_name topic args) cid = handle_publish cd it object_name topic args"
| "handle_request cd it (HasObject object_name) cid = handle_has_object cd object_name cid"

text \<open>The forwarding branch of \<open>handle_response\<close>; any other response is only logged.\<close>

definition forward_response :: "codec \<Rightarrow> CallId \<Rightarrow> RpcResponse \<Rightarrow> task" where
  "forward_response cd call_id resp =
     with_lock Calls (\<lambda>s. (s\<lparr>calls := (calls s)(call_id := None)\<rparr>,
       case calls s call_id of
         None \<Rightarrow> Done
       | Some (_, caller_tx) \<Rightarrow>
           (case resp_to_vec cd resp of
              None \<Rightarrow> Done
            | Some bytes \<Rightarrow> Send caller_tx (Outgoing bytes) Done)))"

fun response_call_id :: "RpcResponse \<Rightarrow> CallId option" where
  "response_call_id (Result call_id _ _) = Some call_id"
| "response_call_id (Error (Some call_id) _ _) = Some call_id"
| "response_call_id _ = None"

definition handle_response :: "codec \<Rightarrow> RpcResponse \<Rightarrow> ClientId \<Rightarrow> task" where
  "handle_response cd resp from =
     (case response_call_id resp of
        Some call_id \<Rightarrow> forward_response cd call_id resp
      | None \<Rightarrow> Done)"

section \<open>What a handler does when nothing interrupts it\<close>

text \<open>The messages that \<open>send_to_client\<close> puts on a channel: one, or none without a connection.\<close>

definition to_client :: "ServerState \<Rightarrow> ClientId \<Rightarrow> bytes option \<Rightarrow> effect list" where
  "to_client s cid ser =
     (case (ser, clients s cid) of (Some b, Some tx) \<Rightarrow> [Sent tx (Outgoing b)] | _ \<Rightarrow> [])"

lemma to_client_simps [simp]:
  "clients s cid = Some tx \<Longrightarrow> to_client s cid (Some b) = [Sent tx (Outgoing b)]"
  "clients s cid = None \<Longrightarrow> to_client s cid ser = []"
  "to_client s cid None = []"
  by (simp_all add: to_client_def split: option.split)

lemma to_client_cong: "clients s' = clients s \<Longrightarrow> to_client s' cid ser = to_client s cid ser"
  by (simp add: to_client_def)

lemma run_send_to_client [task_run]:
  "run_task (send_to_client cid ser) s = (s, to_client s cid ser)"
  by (simp add: send_to_client_def to_client_def run_with_lock split: option.split)

lemma run_send_each [task_run]:
  "run_task (for_each (\<lambda>x. send_to_client cid (f x)) xs) s =
     (s, concat (map (\<lambda>x. to_client s cid (f x)) xs))"
  by (subst run_for_each_stateless) (simp_all add: run_send_to_client)

lemma run_broadcast [task_run]:
  "run_task (for_each (\<lambda>tx. Send tx m Done) txs) s = (s, map (\<lambda>tx. Sent tx m) txs)"
  by (subst run_for_each_stateless) (simp_all add: concat_map_singleton)

lemma run_register_object [task_run]:
  "run_task (handle_register_object cd n cid) s =
     (s\<lparr>objects := (objects s)(n \<mapsto> cid),
        services := (case services s n of
            None \<Rightarrow> services s
          | Some svc \<Rightarrow> (services s)(n \<mapsto> svc\<lparr>state := Running cid, owner := Some cid, pending_calls := []\<rparr>))\<rparr>,
      concat (map (\<lambda>req. to_client s cid (req_to_vec cd req))
        (case services s n of None \<Rightarrow> [] | Some svc \<Rightarrow> pending_calls svc))
      @ to_client s cid (resp_to_vec cd (Registered n)))"
  by (simp add: handle_register_object_def task_run Let_def to_client_def split: option.split)

lemma run_register_service [task_run]:
  "run_task (handle_register_service n name cid) s =
     (s\<lparr>services := (services s)(n \<mapsto>
        (case services s n of
           Some svc \<Rightarrow> svc\<lparr>service_name := name,
                           state := (if state svc = Running cid then state svc else Stopped)\<rparr>
         | None \<Rightarrow> stopped_entry name))\<rparr>, [])"
proof (cases "services s n")
  case (Some svc)
  then show ?thesis by (cases svc) (simp add: handle_register_service_def run_with_lock)
qed (simp add: handle_register_service_def run_with_lock stopped_entry_def)

lemma run_call_activate [task_run]:
  "run_task (call_activate cd call_id n method args cid) s =
     (case services s n of
        None \<Rightarrow> (s, to_client s cid (resp_to_vec cd (no_such_object call_id n)))
      | Some svc \<Rightarrow>
          (case state svc of
             Running _ \<Rightarrow> (s, [])
           | st \<Rightarrow> (s\<lparr>services := (services s)(n \<mapsto>
                     svc\<lparr>state := Starting, pending_calls := pending_calls svc @ [Call call_id n method args]\<rparr>)\<rparr>,
                   if st = Stopped then [Spawned (spawn_service (service_name svc))] else [])))"
proof (cases "services s n")
  case (Some svc)
  then show ?thesis by (cases svc) (simp add: call_activate_def split: ServiceState.split)
qed (simp add: call_activate_def run_seq run_send_to_client)

lemma run_handle_call [task_run]:
  "run_task (handle_call cd call_id n method args cid) s =
     (case clients s cid of
        None \<Rightarrow> (s, [])
      | Some caller_tx \<Rightarrow>
          (let s1 = s\<lparr>calls := (calls s)(call_id \<mapsto> (cid, caller_tx))\<rparr>
           in case Option.bind (objects s n) (clients s) of
                Some worker_tx \<Rightarrow>
                  (s1, case req_to_vec cd (Call call_id n method args) of
                         None \<Rightarrow> [] | Some b \<Rightarrow> [Sent worker_tx (Outgoing b)])
              | None \<Rightarrow> run_task (call_activate cd call_id n method args cid) s1))"
  by (auto simp: handle_call_def run_with_lock run_send_to_client run_seq Let_def split_beta split: option.split)

lemma run_subscribe [task_run]:
  "run_task (handle_subscribe cd n topic cid) s =
     (s\<lparr>subscriptions := (subscriptions s)(n \<mapsto>
        (let topics = (case subscriptions s n of None \<Rightarrow> Map.empty | Some m \<Rightarrow> m)
         in topics(topic \<mapsto> finsert cid (case topics topic of None \<Rightarrow> {||} | Some c \<Rightarrow> c))))\<rparr>,
      to_client s cid (resp_to_vec cd (Subscribed n topic)))"
  by (simp add: handle_subscribe_def task_run Let_def to_client_def split: option.split)

definition subscriber_list :: "(ClientId fset \<Rightarrow> ClientId list) \<Rightarrow> ServerState \<Rightarrow> string \<Rightarrow> string \<Rightarrow> ClientId list" where
  "subscriber_list it s n topic =
     (case Option.bind (subscriptions s n) (\<lambda>m. m topic) of None \<Rightarrow> [] | Some c \<Rightarrow> it c)"

lemma run_publish [task_run]:
  "run_task (handle_publish cd it n topic args) s =
     (s, case resp_to_vec cd (Event n topic args) of
           None \<Rightarrow> []
         | Some b \<Rightarrow> map (\<lambda>tx. Sent tx (Outgoing b)) (List.map_filter (clients s) (subscriber_list it s n topic)))"
  by (simp add: handle_publish_def task_run Let_def subscriber_list_def map_filter_simps
      split: option.split)

lemma run_has_object [task_run]:
  "run_task (handle_has_object cd n cid) s =
     (s, to_client s cid (resp_to_vec cd (HasObjectResult n (objects s n \<noteq> None))))"
  by (simp add: handle_has_object_def task_run)

lemma run_response [task_run]:
  "run_task (handle_response cd resp from) s =
     (case response_call_id resp of
        None \<Rightarrow> (s, [])
      | Some call_id \<Rightarrow>
          (s\<lparr>calls := (calls s)(call_id := None)\<rparr>,
           case (calls s call_id, resp_to_vec cd resp) of
             (Some (_, tx), Some b) \<Rightarrow> [Sent tx (Outgoing b)] | _ \<Rightarrow> []))"
  by (auto simp: handle_response_def forward_response_def task_run split: option.split)

end
