(* ===== verification/Framing.thy ===== *)
theory Framing
  imports Rpc
begin

unbundle bit_operations_syntax

text \<open>
  Packet framing, \<open>read_packet\<close> and \<open>write_packet\<close> of \<^verbatim>\<open>src/src/broker.rs\<close>: a packet is a
  32-bit big-endian length followed by that many bytes, and both sides refuse more than
  \<^const>\<open>BUF_SIZE\<close>. A reader is the bytes that the peer sends until the stream ends and the way
  it ends; a writer is the bytes the peer has accepted, how many more it accepts before the
  connection breaks, and what \<open>flush\<close> answers.
\<close>

section \<open>I/O errors and streams\<close>

datatype error_kind =
    InvalidData | UnexpectedEof | BrokenPipe | ConnectionAborted | InvalidInput | Other

datatype io_error = IoError (kind: error_kind) (message: string)

record reader =
  avail :: bytes           \<comment> \<open>what the peer sends before the stream ends\<close>
  ends :: "io_error option"  \<comment> \<open>\<open>None\<close>: end of file; \<open>Some e\<close>: the transport fails with \<open>e\<close>\<close>

record writer =
  sent :: bytes
  room :: "(nat \<times> io_error) option"  \<comment> \<open>\<open>None\<close>: never fails; else the bytes left and the error\<close>
  flush_err :: "io_error option"

text \<open>A new connection that accepts what is written.\<close>

definition open_writer :: writer where
  "open_writer = \<lparr>sent = [], room = None, flush_err = None\<rparr>"

lemma open_writer_fields [simp]: "room open_writer = None" "flush_err open_writer = None" "sent open_writer = []"
  by (simp_all add: open_writer_def)

text \<open>
  The error of a stream that ends early; its kind is documented, its message, which the runtime words
  differently for a length and for a payload, is only logged.
\<close>

definition eof_error :: io_error where
  "eof_error = IoError UnexpectedEof ''unexpected end of file''"

text \<open>
  \<open>AsyncReadExt::read_exact\<close>: the first \<open>n\<close> bytes, or the error of the stream's end once the
  bytes before it are used up.
\<close>

definition read_exact :: "nat \<Rightarrow> reader \<Rightarrow> (io_error + bytes) \<times> reader" where
  "read_exact n r =
     (if n \<le> length (avail r) then (Inr (take n (avail r)), r\<lparr>avail := drop n (avail r)\<rparr>)
      else (Inl (case ends r of None \<Rightarrow> eof_error | Some e \<Rightarrow> e), r\<lparr>avail := []\<rparr>))"

text \<open>\<open>AsyncWriteExt::write_all\<close>: the peer takes a prefix when the connection breaks on the way.\<close>

definition write_all :: "bytes \<Rightarrow> writer \<Rightarrow> io_error option \<times> writer" where
  "write_all d w =
     (case room w of
        None \<Rightarrow> (None, w\<lparr>sent := sent w @ d\<rparr>)
      | Some (n, e) \<Rightarrow>
          (if length d \<le> n then (None, w\<lparr>sent := sent w @ d, room := Some (n - length d, e)\<rparr>)
           else (Some e, w\<lparr>sent := sent w @ take n d, room := Some (0, e)\<rparr>)))"

section \<open>The length prefix\<close>

text \<open>\<open>write_u32\<close> and \<open>read_u32\<close> are big-endian.\<close>

definition u32_to_be :: "32 word \<Rightarrow> bytes" where
  "u32_to_be w = map (\<lambda>i. ucast (drop_bit (8 * i) w)) [3, 2, 1, 0]"

definition u32_of_be :: "bytes \<Rightarrow> 32 word" where
  "u32_of_be bs = foldl (\<lambda>acc b. (push_bit 8 acc) OR (ucast b)) 0 bs"

definition read_u32 :: "reader \<Rightarrow> (io_error + 32 word) \<times> reader" where
  "read_u32 r = (case read_exact 4 r of (Inl e, r') \<Rightarrow> (Inl e, r') | (Inr b, r') \<Rightarrow> (Inr (u32_of_be b), r'))"

lemma length_u32_to_be [simp]: "length (u32_to_be w) = 4"
  by (simp add: u32_to_be_def)

lemma u32_of_be_to_be [frame_simps]: "u32_of_be (u32_to_be w) = w"
proof (rule bit_word_eqI)
  fix n assume "n < LENGTH(32)"
  then consider "n < 8" | "8 \<le> n" "n < 16" | "16 \<le> n" "n < 24" | "24 \<le> n" "n < 32"
    by force
  then show "bit (u32_of_be (u32_to_be w)) n \<longleftrightarrow> bit w n"
    by cases (auto simp: u32_of_be_def u32_to_be_def bit_simps)
qed

lemma u32_to_be_of_be:
  assumes "length bs = 4"
  shows "u32_to_be (u32_of_be bs) = bs"
proof -
  obtain a b c d where bs: "bs = [a, b, c, d]"
    using assms by (auto simp: length_Suc_conv numeral_eq_Suc)
  have out: "\<not> bit x k" if "8 \<le> k" for x :: "8 word" and k
    using that bit_imp_le_length [of x k] by auto
  show ?thesis
    by (auto simp: bs u32_of_be_def u32_to_be_def bit_simps out intro!: bit_word_eqI)
qed

section \<open>Packets\<close>

definition oversize_read :: "32 word \<Rightarrow> io_error" where
  "oversize_read len =
     IoError InvalidData (''packet size '' @ show_nat (unat len) @ '' exceeds max allowed '' @ show_nat BUF_SIZE)"

definition oversize_write :: "bytes \<Rightarrow> io_error" where
  "oversize_write d =
     IoError InvalidData (''attempt to write packet of size '' @ show_nat (length d) @ '' which exceeds max '' @ show_nat BUF_SIZE)"

definition read_packet :: "reader \<Rightarrow> (io_error + bytes) \<times> reader" where
  "read_packet r =
     (case read_u32 r of
        (Inl e, r') \<Rightarrow> (Inl e, r')
      | (Inr len, r') \<Rightarrow>
          (if unat len > BUF_SIZE then (Inl (oversize_read len), r')
           else read_exact (unat len) r'))"

definition write_packet :: "writer \<Rightarrow> bytes \<Rightarrow> io_error option \<times> writer" where
  "write_packet w d =
     (if length d > BUF_SIZE then (Some (oversize_write d), w)
      else (case write_all (u32_to_be (of_nat (length d))) w of
              (Some e, w') \<Rightarrow> (Some e, w')
            | (None, w') \<Rightarrow>
                (case write_all d w' of
                   (Some e, w'') \<Rightarrow> (Some e, w'')
                 | (None, w'') \<Rightarrow> (flush_err w'', w''))))"

text \<open>The bytes of one packet on the wire.\<close>

definition frame :: "bytes \<Rightarrow> bytes" where
  "frame d = u32_to_be (of_nat (length d)) @ d"

section \<open>Single packets\<close>

lemma BUF_SIZE_eq [frame_simps]: "BUF_SIZE = 65536"
  by (simp add: BUF_SIZE_def)

text \<open>The cast \<open>data.len() as u32\<close> loses nothing below the limit.\<close>

lemma unat_of_length [frame_simps]:
  "length d \<le> BUF_SIZE \<Longrightarrow> unat (of_nat (length d) :: 32 word) = length d"
  by (simp add: BUF_SIZE_eq unat_of_nat)

lemma length_frame [simp]: "length (frame d) = 4 + length d"
  by (simp add: frame_def)

lemma read_u32_prefix [frame_simps]:
  "read_u32 (r\<lparr>avail := u32_to_be w @ rest\<rparr>) = (Inr w, r\<lparr>avail := rest\<rparr>)"
  by (simp add: read_u32_def read_exact_def u32_of_be_to_be)

lemma read_packet_frame:
  "length d \<le> BUF_SIZE \<Longrightarrow>
   read_packet (r\<lparr>avail := frame d @ rest\<rparr>) = (Inr d, r\<lparr>avail := rest\<rparr>)"
  by (simp add: read_packet_def frame_def read_u32_prefix unat_of_length read_exact_def)

lemma write_packet_unlimited:
  "length d \<le> BUF_SIZE \<Longrightarrow> room w = None \<Longrightarrow>
   write_packet w d = (flush_err w, w\<lparr>sent := sent w @ frame d\<rparr>)"
  by (simp add: write_packet_def write_all_def frame_def)

lemma read_u32_cases:
  obtains (short) e where "length (avail r) < 4" "read_u32 r = (Inl e, r\<lparr>avail := []\<rparr>)"
      "e = (case ends r of None \<Rightarrow> eof_error | Some e \<Rightarrow> e)"
  | (header) "4 \<le> length (avail r)"
      "read_u32 r = (Inr (u32_of_be (take 4 (avail r))), r\<lparr>avail := drop 4 (avail r)\<rparr>)"
  by (cases "4 \<le> length (avail r)") (simp_all add: read_u32_def read_exact_def)

lemma read_packet_ok:
  assumes "read_packet r = (Inr d, r')"
  shows "length d \<le> BUF_SIZE" and "length (avail r) = 4 + length d + length (avail r')"
    and "d = take (length d) (drop 4 (avail r))" and "r' = r\<lparr>avail := drop (4 + length d) (avail r)\<rparr>"
    and "unat (u32_of_be (take 4 (avail r))) = length d"
proof -
  from assms have "4 \<le> length (avail r)"
    by (cases r rule: read_u32_cases) (auto simp: read_packet_def)
  moreover from assms this have "length (avail r) \<ge> 4 + unat (u32_of_be (take 4 (avail r)))"
    "unat (u32_of_be (take 4 (avail r))) \<le> BUF_SIZE"
    "d = take (unat (u32_of_be (take 4 (avail r)))) (drop 4 (avail r))"
    "r' = r\<lparr>avail := drop (4 + unat (u32_of_be (take 4 (avail r)))) (avail r)\<rparr>"
    by (auto simp: read_packet_def read_u32_def read_exact_def add.commute split: if_splits)
  ultimately show "length d \<le> BUF_SIZE" "length (avail r) = 4 + length d + length (avail r')"
    "d = take (length d) (drop 4 (avail r))" "r' = r\<lparr>avail := drop (4 + length d) (avail r)\<rparr>"
    "unat (u32_of_be (take 4 (avail r))) = length d"
    by auto
qed

section \<open>The contract of a packet transport\<close>

text \<open>
  What the reader loops of the broker, the client and the worker rely on: a packet written is the
  packet read, a decoded packet is exactly the encoded bytes in front of the stream, and a packet
  occupies at least one byte. From it: packets are cut from a byte stream in one way only.
\<close>

locale packet_transport =
  fixes encode :: "'p \<Rightarrow> 'b list" and decode :: "'b list \<Rightarrow> ('p \<times> 'b list) option" and valid :: "'p \<Rightarrow> bool"
  assumes decode_encode: "valid d \<Longrightarrow> decode (encode d @ r) = Some (d, r)"
    and decode_exact: "decode b = Some (d, r) \<Longrightarrow> b = encode d @ r \<and> valid d"
    and encode_nonempty: "encode d \<noteq> []"
begin

inductive splits :: "'b list \<Rightarrow> 'p list \<Rightarrow> 'b list \<Rightarrow> bool" where
  stop: "decode b = None \<Longrightarrow> splits b [] b"
| packet: "decode b = Some (d, b') \<Longrightarrow> splits b' ds r \<Longrightarrow> splits b (d # ds) r"

lemma encode_inject: "valid d \<Longrightarrow> valid e \<Longrightarrow> encode d @ r = encode e @ r' \<Longrightarrow> d = e \<and> r = r'"
  by (metis decode_encode option.inject prod.inject)

lemma splits_concat:
  "list_all valid ds \<Longrightarrow> decode r = None \<Longrightarrow> splits (concat (map encode ds) @ r) ds r"
proof (induction ds)
  case Nil
  then show ?case by (simp add: splits.stop)
next
  case (Cons d ds)
  then have "decode (encode d @ (concat (map encode ds) @ r)) = Some (d, concat (map encode ds) @ r)"
    by (intro decode_encode) simp
  from splits.packet [OF this] Cons show ?case by simp
qed

lemma splits_exact: "splits b ds r \<Longrightarrow> b = concat (map encode ds) @ r \<and> list_all valid ds \<and> decode r = None"
  by (induction rule: splits.induct) (auto dest!: decode_exact)

lemma splits_unique: "splits b ds r \<Longrightarrow> splits b ds' r' \<Longrightarrow> ds = ds' \<and> r = r'"
proof (induction arbitrary: ds' r' rule: splits.induct)
  case (stop b)
  from stop(2,1) show ?case by (cases rule: splits.cases) auto
next
  case (packet b d b' ds r)
  from packet.prems packet.hyps(1) obtain es where "ds' = d # es" "splits b' es r'"
    by (auto elim: splits.cases)
  with packet.IH show ?case by blast
qed

lemma concat_inject:
  assumes "list_all valid ds" "list_all valid es" "decode [] = None"
    and "concat (map encode ds) = concat (map encode es)"
  shows "ds = es"
proof -
  have "splits (concat (map encode ds)) ds []" "splits (concat (map encode ds)) es []"
    using splits_concat [OF assms(1,3)] splits_concat [OF assms(2,3)] by (simp_all add: assms(4))
  from splits_unique [OF this] show ?thesis by simp
qed

lemma splits_length: "splits b ds r \<Longrightarrow> length ds + length r \<le> length b"
proof (induction rule: splits.induct)
  case (packet b d b' ds r)
  from decode_exact [OF packet.hyps(1)] have "length b = length (encode d) + length b'" by auto
  with packet.IH encode_nonempty [of d] show ?case by (cases "encode d") auto
qed simp

end

text \<open>The next packet of a byte stream that ends without a transport error.\<close>

definition next_packet :: "bytes \<Rightarrow> (bytes \<times> bytes) option" where
  "next_packet b =
     (case read_packet \<lparr>avail = b, ends = None\<rparr> of
        (Inl e, _) \<Rightarrow> None | (Inr d, r') \<Rightarrow> Some (d, avail r'))"

definition packet_fits :: "bytes \<Rightarrow> bool" where
  "packet_fits d \<longleftrightarrow> length d \<le> BUF_SIZE"

lemma next_packet_frame: "packet_fits d \<Longrightarrow> next_packet (frame d @ r) = Some (d, r)"
  using read_packet_frame [of d r "\<lparr>avail = frame d @ r, ends = None\<rparr>"]
  by (simp add: next_packet_def packet_fits_def)

lemma read_packet_exact:
  assumes "read_packet r = (Inr d, r')"
  shows "avail r = frame d @ avail r'"
proof -
  note ok = read_packet_ok [OF assms]
  have "u32_to_be (of_nat (length d)) = take 4 (avail r)"
  proof -
    from ok(5) have "u32_of_be (take 4 (avail r)) = of_nat (length d)"
      by (metis word_unat_eq_iff ok(1) unat_of_length)
    with ok(2) u32_to_be_of_be [of "take 4 (avail r)"] show ?thesis by simp
  qed
  moreover have "avail r = take 4 (avail r) @ take (length d) (drop 4 (avail r)) @ drop (4 + length d) (avail r)"
    by (metis append_take_drop_id drop_drop add.commute)
  ultimately show ?thesis
    using ok(3,4) by (simp add: frame_def)
qed

lemma next_packet_exact: "next_packet b = Some (d, r) \<Longrightarrow> b = frame d @ r \<and> packet_fits d"
  using read_packet_exact read_packet_ok(1)
  by (fastforce simp: next_packet_def packet_fits_def split: prod.splits sum.splits)

interpretation wire: packet_transport frame next_packet packet_fits
proof unfold_locales
  show "frame d \<noteq> []" for d
    using length_frame [of d] by force
qed (fact next_packet_frame, fact next_packet_exact)

lemma read_packet_shrinks: "read_packet r = (Inr d, r') \<Longrightarrow> length (avail r') < length (avail r)"
  using read_packet_ok(2) by fastforce

text \<open>
  The packets that a \<open>loop { match read_packet(..) { Ok(d) => .., Err(e) => break } }\<close> sees, and
  the error that ends it.
\<close>

function read_all :: "reader \<Rightarrow> bytes list \<times> io_error" where
  "read_all r =
     (case read_packet r of
        (Inl e, _) \<Rightarrow> ([], e)
      | (Inr d, r') \<Rightarrow> (let (ds, e) = read_all r' in (d # ds, e)))"
  by pat_completeness auto
termination
  by (relation "measure (\<lambda>r. length (avail r))") (auto intro: read_packet_shrinks [OF sym])

declare read_all.simps [simp del]

section \<open>Streams of packets\<close>

definition end_error :: "io_error option \<Rightarrow> io_error" where
  "end_error e = (case e of None \<Rightarrow> eof_error | Some e' \<Rightarrow> e')"

fun write_packets :: "writer \<Rightarrow> bytes list \<Rightarrow> writer" where
  "write_packets w [] = w"
| "write_packets w (d # ds) = write_packets (snd (write_packet w d)) ds"

lemma read_all_Ok:
  "read_packet r = (Inr d, r') \<Longrightarrow> read_all r = (d # fst (read_all r'), snd (read_all r'))"
  by (simp add: read_all.simps [of r] split_beta)

lemma read_all_Err: "read_packet r = (Inl e, r') \<Longrightarrow> read_all r = ([], e)"
  by (simp add: read_all.simps [of r])

lemma read_all_concat:
  "list_all packet_fits ds \<Longrightarrow>
   read_all \<lparr>avail = concat (map frame ds) @ rest, ends = e\<rparr> =
     (ds @ fst (read_all \<lparr>avail = rest, ends = e\<rparr>), snd (read_all \<lparr>avail = rest, ends = e\<rparr>))"
proof (induction ds)
  case (Cons d ds)
  let ?tail = "concat (map frame ds) @ rest"
  have "read_packet \<lparr>avail = frame d @ ?tail, ends = e\<rparr> = (Inr d, \<lparr>avail = ?tail, ends = e\<rparr>)"
    using Cons.prems read_packet_frame [of d ?tail "\<lparr>avail = [], ends = e\<rparr>"]
    by (simp add: packet_fits_def)
  from read_all_Ok [OF this] Cons show ?case by simp
qed simp

lemma read_all_short:
  assumes "k < length (frame d)" "packet_fits d"
  shows "read_all \<lparr>avail = take k (frame d), ends = e\<rparr> = ([], end_error e)"
proof (cases "k < 4")
  case True
  then show ?thesis
    by (intro read_all_Err)
      (auto simp: read_packet_def read_u32_def read_exact_def end_error_def)
next
  case False
  with assms have "take k (frame d) = u32_to_be (of_nat (length d)) @ take (k - 4) d"
    by (simp add: frame_def)
  moreover have "read_packet \<lparr>avail = u32_to_be (of_nat (length d)) @ take (k - 4) d, ends = e\<rparr> =
      (Inl (end_error e), \<lparr>avail = [], ends = e\<rparr>)"
    using assms False read_u32_prefix [of "of_nat (length d)" "take (k - 4) d" "\<lparr>avail = [], ends = e\<rparr>"]
    by (simp add: read_packet_def packet_fits_def unat_of_length read_exact_def end_error_def)
  ultimately show ?thesis using read_all_Err by simp
qed

lemma read_all_empty: "read_all \<lparr>avail = [], ends = e\<rparr> = ([], end_error e)"
  using read_all_short [of 0 "[]" e] by (simp add: packet_fits_def)

lemma write_packets_healthy:
  "list_all packet_fits ds \<Longrightarrow> room w = None \<Longrightarrow>
   write_packets w ds = w\<lparr>sent := sent w @ concat (map frame ds)\<rparr>"
  by (induction ds arbitrary: w) (simp_all add: write_packet_unlimited packet_fits_def)

text \<open>The packets of which all bytes are among the first \<open>k\<close> of the stream.\<close>

fun whole :: "nat \<Rightarrow> bytes list \<Rightarrow> bytes list" where
  "whole k [] = []"
| "whole k (d # ds) = (if k < length (frame d) then [] else d # whole (k - length (frame d)) ds)"

lemma whole_all [simp]: "length (concat (map frame ds)) \<le> k \<Longrightarrow> whole k ds = ds"
  by (induction ds arbitrary: k) auto

lemma take_concat_frames:
  "list_all packet_fits ds \<Longrightarrow>
   read_all \<lparr>avail = take k (concat (map frame ds)), ends = e\<rparr> = (whole k ds, end_error e)"
proof (induction ds arbitrary: k)
  case Nil
  then show ?case by (simp add: read_all_empty)
next
  case (Cons d ds)
  show ?case
  proof (cases "k < length (frame d)")
    case True
    with Cons.prems have "read_all \<lparr>avail = take k (frame d), ends = e\<rparr> = ([], end_error e)"
      by (intro read_all_short) simp_all
    with True show ?thesis by simp
  next
    case False
    let ?rest = "take (k - length (frame d)) (concat (map frame ds))"
    from Cons have "read_all \<lparr>avail = ?rest, ends = e\<rparr> = (whole (k - length (frame d)) ds, end_error e)"
      by simp
    with False Cons.prems read_all_concat [of "[d]" ?rest e] show ?thesis by simp
  qed
qed

lemma failed_write_prefix:
  assumes "write_packet w d = (Some e, w')" "flush_err w = None"
  shows "\<exists>k < length (frame d). sent w' = sent w @ take k (frame d)"
proof (cases "packet_fits d")
  case False
  with assms show ?thesis
    by (auto simp: write_packet_def packet_fits_def intro!: exI [of _ 0])
next
  case True
  with assms obtain n e' where room: "room w = Some (n, e')"
    by (auto simp: write_packet_unlimited packet_fits_def split: option.splits)
      (cases "room w"; auto simp: write_packet_unlimited)
  with assms True have "n < length (frame d) \<and> sent w' = sent w @ take n (frame d)"
    by (auto simp: write_packet_def write_all_def packet_fits_def frame_def split: if_splits)
  then show ?thesis by blast
qed

lemma write_packet_None:
  assumes "write_packet w d = (None, w')"
  shows "packet_fits d" "sent w' = sent w @ frame d" "flush_err w' = flush_err w"
proof -
  show fits: "packet_fits d"
    using assms by (auto simp: write_packet_def packet_fits_def split: if_splits)
  show "sent w' = sent w @ frame d" "flush_err w' = flush_err w"
    using assms fits
    by (cases "room w"; auto simp: write_packet_def packet_fits_def write_all_def frame_def
        split: if_splits prod.splits)+
qed

lemma write_all_prefix: "\<exists>j. sent (snd (write_all d w)) = sent w @ take j d"
proof (cases "room w")
  case None
  then show ?thesis by (auto simp: write_all_def intro: exI [of _ "length d"])
next
  case (Some p)
  then show ?thesis
    by (cases p) (auto simp: write_all_def intro: exI [of _ "length d"])
qed

section \<open>Properties\<close>

text \<open>C21: Packets written to a healthy connection, in any number, are read back by the reader loop
  as the same packets in the same order; then the loop sees the end of the stream.\<close>

theorem packets_roundtrip:
  assumes "\<forall>d \<in> set ds. length d \<le> BUF_SIZE"
    and "room w = None" "sent w = []"
  shows "read_all \<lparr>avail = sent (write_packets w ds), ends = e\<rparr> = (ds, end_error e)"
proof -
  have "list_all packet_fits ds"
    using assms(1) by (simp add: list_all_iff packet_fits_def)
  with assms(2,3) read_all_concat [of ds "[]" e] show ?thesis
    by (simp add: write_packets_healthy read_all_empty)
qed

theorem packets_roundtrip_witness:
  "read_all \<lparr>avail = sent (write_packets \<lparr>sent = [], room = None, flush_err = None\<rparr> [[1, 2], [], [3]]),
     ends = None\<rparr> = ([[1, 2], [], [3]], eof_error)"
  using packets_roundtrip [of "[[1, 2], [], [3]]" "\<lparr>sent = [], room = None, flush_err = None\<rparr>" None]
  by (simp add: BUF_SIZE_eq end_error_def)

text \<open>When the connection breaks after any number of bytes, the reader loop delivers exactly the
  packets that arrived whole, never part of one, and ends with the stream's error.\<close>

theorem truncated_stream_whole_packets:
  assumes "\<forall>d \<in> set ds. length d \<le> BUF_SIZE"
  shows "read_all \<lparr>avail = take k (concat (map frame ds)), ends = e\<rparr> = (whole k ds, end_error e)"
  using assms by (intro take_concat_frames) (simp add: list_all_iff packet_fits_def)

theorem truncated_stream_whole_packets_witness:
  "read_all \<lparr>avail = take 7 (concat (map frame [[1, 2], [3]])), ends = None\<rparr> = ([[1, 2]], eof_error)"
  using truncated_stream_whole_packets [of "[[1, 2], [3]]" 7 None]
  by (simp add: BUF_SIZE_eq end_error_def)

text \<open>A write that fails, because the packet is over the limit or because the connection breaks
  at any byte, never makes the peer see a packet that was not written whole before.\<close>

theorem failed_write_not_seen:
  assumes "write_packet w d = (Some err, w')" "flush_err w = None"
    and "\<forall>p \<in> set ds. length p \<le> BUF_SIZE" "sent w = concat (map frame ds)"
  shows "read_all \<lparr>avail = sent w', ends = e\<rparr> = (ds, end_error e)"
proof -
  have fits: "list_all packet_fits ds"
    using assms(3) by (simp add: list_all_iff packet_fits_def)
  obtain k where k: "k < length (frame d)" "sent w' = sent w @ take k (frame d)"
    using failed_write_prefix [OF assms(1,2)] by blast
  show ?thesis
  proof (cases "packet_fits d")
    case True
    with k fits assms(4) show ?thesis
      by (simp add: read_all_concat read_all_short)
  next
    case False
    with assms(1) have "sent w' = sent w" by (auto simp: write_packet_def packet_fits_def)
    with fits assms(4) read_all_concat [of ds "[]" e] show ?thesis
      by (simp add: read_all_empty)
  qed
qed

theorem failed_write_not_seen_witness:
  "read_all \<lparr>avail = sent (snd (write_packet
       \<lparr>sent = frame [7], room = Some (5, IoError BrokenPipe ''gone''), flush_err = None\<rparr> [1, 2])),
     ends = None\<rparr> = ([[7]], eof_error)"
proof -
  let ?w = "\<lparr>sent = frame [7], room = Some (5, IoError BrokenPipe ''gone''), flush_err = None\<rparr> :: writer"
  have "write_packet ?w [1, 2] = (Some (IoError BrokenPipe ''gone''), snd (write_packet ?w [1, 2]))"
    by (simp add: write_packet_def write_all_def BUF_SIZE_eq)
  from failed_write_not_seen [OF this, of "[[7]]" None] show ?thesis
    by (simp add: BUF_SIZE_eq end_error_def)
qed

text \<open>A length prefix over the limit ends the reader loop with \<open>InvalidData\<close> and a message that
  names both sizes; the packets before it are delivered and nothing of what follows it is.\<close>

theorem oversize_header_stops_reader:
  assumes "\<forall>d \<in> set ds. length d \<le> BUF_SIZE" "unat len > BUF_SIZE"
  shows "read_all \<lparr>avail = concat (map frame ds) @ u32_to_be len @ junk, ends = e\<rparr> =
    (ds, IoError InvalidData (''packet size '' @ show_nat (unat len) @ '' exceeds max allowed 65536''))"
proof -
  have fits: "list_all packet_fits ds"
    using assms(1) by (simp add: list_all_iff packet_fits_def)
  have show_max: "show_nat 65536 = ''65536''"
    by (simp add: show_nat.simps digit_char_def char_of_def bit_Suc_0_iff)
  have "read_packet \<lparr>avail = u32_to_be len @ junk, ends = e\<rparr> =
      (Inl (oversize_read len), \<lparr>avail = junk, ends = e\<rparr>)"
    using assms(2) read_u32_prefix [of len junk "\<lparr>avail = [], ends = e\<rparr>"]
    by (simp add: read_packet_def)
  from read_all_Err [OF this] read_all_concat [OF fits, of "u32_to_be len @ junk" e] show ?thesis
    by (simp add: oversize_read_def BUF_SIZE_eq show_max)
qed

theorem oversize_header_stops_reader_witness:
  "read_all \<lparr>avail = concat (map frame [[1]]) @ u32_to_be 65537 @ [0, 0], ends = None\<rparr> =
    ([[1]], IoError InvalidData (''packet size '' @ show_nat (unat (65537 :: 32 word)) @ '' exceeds max allowed 65536''))"
  by (rule oversize_header_stops_reader) (simp_all add: BUF_SIZE_eq)

end
