(* ===== verification/Client_Actor.thy ===== *)
theory Client_Actor
  imports Server Framing
begin

text \<open>
  The per-connection actor, \<open>ClientActor\<close> and \<open>spawn_client\<close> of \<^verbatim>\<open>src/src/broker.rs\<close>: the reader
  loop that turns packets into handler calls, the writer loop that turns channel messages into
  packets, the cleanup after a connection, and their composition \<open>run\<close>. The contract of a table
  that forgets a client is the locale \<open>client_table\<close>, interpreted for the five shared maps.
\<close>

section \<open>Cleanup\<close>

text \<open>The body of the loop over \<open>services.values_mut()\<close>.\<close>

definition pending_alive :: "(CallId \<Rightarrow> bool) \<Rightarrow> RpcRequest \<Rightarrow> bool" where
  "pending_alive active req = (case req of Call call_id _ _ _ \<Rightarrow> active call_id | _ \<Rightarrow> True)"

definition cleanup_service :: "ClientId \<Rightarrow> (CallId \<Rightarrow> bool) \<Rightarrow> ServiceEntry \<Rightarrow> ServiceEntry" where
  "cleanup_service cid active svc =
     (if owner svc = Some cid then svc\<lparr>owner := None, state := Stopped, pending_calls := []\<rparr>
      else svc\<lparr>pending_calls := filter (pending_alive active) (pending_calls svc)\<rparr>)"

definition purge_clients :: "ClientId \<Rightarrow> (ClientId \<rightharpoonup> ClientSender) \<Rightarrow> (ClientId \<rightharpoonup> ClientSender)" where
  "purge_clients cid m = m(cid := None)"

definition purge_objects :: "ClientId \<Rightarrow> (string \<rightharpoonup> ClientId) \<Rightarrow> (string \<rightharpoonup> ClientId)" where
  "purge_objects cid m = map_retain (\<lambda>_ own. own \<noteq> cid) m"

definition purge_subscriptions ::
    "ClientId \<Rightarrow> (string \<rightharpoonup> string \<rightharpoonup> ClientId fset) \<Rightarrow> (string \<rightharpoonup> string \<rightharpoonup> ClientId fset)" where
  "purge_subscriptions cid m = map_values (map_values (\<lambda>subs. subs |-| {|cid|})) m"

definition purge_calls ::
    "ClientId \<Rightarrow> (CallId \<rightharpoonup> ClientId \<times> ClientSender) \<Rightarrow> (CallId \<rightharpoonup> ClientId \<times> ClientSender)" where
  "purge_calls cid m = map_retain (\<lambda>_ (caller, _). caller \<noteq> cid) m"

definition purge_services :: "(CallId \<Rightarrow> bool) \<Rightarrow> ClientId \<Rightarrow> Services \<Rightarrow> Services" where
  "purge_services active cid m = map_values (cleanup_service cid active) m"

definition cleanup_client :: "ClientId \<Rightarrow> task" where
  "cleanup_client cid =
     seq (with_lock Clients (\<lambda>s. (s\<lparr>clients := purge_clients cid (clients s)\<rparr>, Done)))
     (seq (with_lock Objects (\<lambda>s. (s\<lparr>objects := purge_objects cid (objects s)\<rparr>, Done)))
     (seq (with_lock Subscriptions (\<lambda>s. (s\<lparr>subscriptions := purge_subscriptions cid (subscriptions s)\<rparr>, Done)))
     (seq (with_lock Calls (\<lambda>s. (s\<lparr>calls := purge_calls cid (calls s)\<rparr>, Done)))
     (with_lock Calls (\<lambda>s.
        let active_calls = (\<lambda>call_id. calls s call_id \<noteq> None)
        in (s, with_lock ServicesM (\<lambda>s.
             (s\<lparr>services := purge_services active_calls cid (services s)\<rparr>, Done))))))))"

section \<open>Reader and writer\<close>

definition dispatch :: "codec \<Rightarrow> (ClientId fset \<Rightarrow> ClientId list) \<Rightarrow> ClientId \<Rightarrow> bytes \<Rightarrow> task" where
  "dispatch cd it cid buf =
     (case decode_packet cd buf of
        InRequest req \<Rightarrow> handle_request cd it req cid
      | InResponse resp \<Rightarrow> handle_response cd resp cid
      | InInvalid \<Rightarrow> Done)"

function reader_loop :: "codec \<Rightarrow> (ClientId fset \<Rightarrow> ClientId list) \<Rightarrow> ClientId \<Rightarrow> reader \<Rightarrow> task" where
  "reader_loop cd it cid r =
     (case read_packet r of
        (Inl err, _) \<Rightarrow> Done
      | (Inr buf, r') \<Rightarrow> seq (dispatch cd it cid buf) (reader_loop cd it cid r'))"
  by pat_completeness auto
termination
  by (relation "measure (\<lambda>(cd, it, cid, r). length (avail r))") (auto intro: read_packet_shrinks [OF sym])

declare reader_loop.simps [simp del]

text \<open>
  The writer loop over the messages its channel yields: the writer afterwards and whether the loop
  is still running, waiting for the next message. \<open>writer_select\<close> adds the other branch of
  \<open>tokio::select!\<close>: the reader's shutdown signal may win after any number of messages and in the
  middle of a write, \<open>Some (n, k)\<close>: \<open>n\<close> messages are through and \<open>k\<close> bytes of the next packet.
\<close>

fun writer_loop :: "writer \<Rightarrow> ClientMsg list \<Rightarrow> writer \<times> bool" where
  "writer_loop w [] = (w, True)"
| "writer_loop w (ShutdownMsg # msgs) = (w, False)"
| "writer_loop w (Outgoing bytes # msgs) =
     (case write_packet w bytes of
        (Some e, w') \<Rightarrow> (w', False)
      | (None, w') \<Rightarrow> writer_loop w' msgs)"

definition writer_select :: "(nat \<times> nat) option \<Rightarrow> writer \<Rightarrow> ClientMsg list \<Rightarrow> writer" where
  "writer_select shutdown w msgs =
     (case shutdown of
        None \<Rightarrow> fst (writer_loop w msgs)
      | Some (n, k) \<Rightarrow>
          (let (w', running) = writer_loop w (take n msgs)
           in if \<not> running \<or> length msgs \<le> n then w'
              else (case msgs ! n of
                      ShutdownMsg \<Rightarrow> w'
                    | Outgoing bytes \<Rightarrow>
                        if packet_fits bytes
                        then snd (write_all (take k (frame bytes)) w') else w')))"

section \<open>The life of a connection\<close>

text \<open>
  \<open>spawn_client\<close> registers the sender before the actor starts. \<open>run\<close> waits for the reader task
  whatever ended the writer, then cleans up; the writer does not touch the shared maps.
\<close>

definition client_channel_places :: nat where
  "client_channel_places = 64"

definition spawn_client :: "string \<Rightarrow> ClientSender \<Rightarrow> task" where
  "spawn_client uuid tx = with_lock Clients (\<lambda>s. (s\<lparr>clients := (clients s)(ClientId uuid \<mapsto> tx)\<rparr>, Done))"

definition client_run :: "codec \<Rightarrow> (ClientId fset \<Rightarrow> ClientId list) \<Rightarrow> ClientId \<Rightarrow> reader \<Rightarrow> task" where
  "client_run cd it cid r = seq (reader_loop cd it cid r) (cleanup_client cid)"

section \<open>Runs\<close>

lemma run_cleanup [task_run]:
  "run_task (cleanup_client cid) s =
     (s\<lparr>clients := purge_clients cid (clients s),
        objects := purge_objects cid (objects s),
        subscriptions := purge_subscriptions cid (subscriptions s),
        calls := purge_calls cid (calls s),
        services := purge_services (\<lambda>id. purge_calls cid (calls s) id \<noteq> None) cid (services s)\<rparr>, [])"
  by (simp add: cleanup_client_def task_run Let_def)

lemma run_spawn_client [task_run]:
  "run_task (spawn_client uuid tx) s = (s\<lparr>clients := (clients s)(ClientId uuid \<mapsto> tx)\<rparr>, [])"
  by (simp add: spawn_client_def task_run)

lemma reader_loop_eq: "reader_loop cd it cid r = for_each (dispatch cd it cid) (fst (read_all r))"
proof (induction r rule: read_all.induct)
  case (1 r)
  show ?case
  proof (cases "read_packet r")
    case (Pair res r')
    show ?thesis
    proof (cases res)
      case (Inl e)
      with Pair show ?thesis by (simp add: reader_loop.simps [of cd it cid r] read_all_Err)
    next
      case (Inr d)
      from 1 [OF Pair [symmetric] Inr]
      have "reader_loop cd it cid r' = for_each (dispatch cd it cid) (fst (read_all r'))" .
      with Inr Pair show ?thesis
        by (simp add: reader_loop.simps [of cd it cid r] read_all_Ok)
    qed
  qed
qed

section \<open>Tables that forget a client\<close>

locale client_table =
  fixes mentions :: "'t \<Rightarrow> ClientId \<Rightarrow> bool" and purge :: "ClientId \<Rightarrow> 't \<Rightarrow> 't"
  assumes purge_gone: "\<not> mentions (purge c t) c"
    and purge_frame: "d \<noteq> c \<Longrightarrow> mentions (purge c t) d \<longleftrightarrow> mentions t d"
begin

lemma purge_iff: "mentions (purge c t) d \<longleftrightarrow> mentions t d \<and> d \<noteq> c"
  using purge_gone purge_frame by (cases "d = c") auto

lemma purge_many: "mentions (fold purge cs t) d \<longleftrightarrow> mentions t d \<and> d \<notin> set cs"
  by (induction cs arbitrary: t) (auto simp: purge_iff)

lemma purge_order: "set cs = set ds \<Longrightarrow> mentions (fold purge cs t) = mentions (fold purge ds t)"
  by (rule ext) (simp add: purge_many)

end

definition clients_mention :: "(ClientId \<rightharpoonup> ClientSender) \<Rightarrow> ClientId \<Rightarrow> bool" where
  "clients_mention m c \<longleftrightarrow> m c \<noteq> None"

definition objects_mention :: "(string \<rightharpoonup> ClientId) \<Rightarrow> ClientId \<Rightarrow> bool" where
  "objects_mention m c \<longleftrightarrow> (\<exists>n. m n = Some c)"

text \<open>The subscription table as the relation it represents: who listens to a topic of an object.\<close>

definition subscribers :: "(string \<rightharpoonup> string \<rightharpoonup> ClientId fset) \<Rightarrow> string \<Rightarrow> string \<Rightarrow> ClientId fset" where
  "subscribers m n topic =
     (case m n of None \<Rightarrow> {||} | Some topics \<Rightarrow> (case topics topic of None \<Rightarrow> {||} | Some c \<Rightarrow> c))"

lemma subscribers_purge: "subscribers (purge_subscriptions c m) n topic = subscribers m n topic |-| {|c|}"
  by (simp add: subscribers_def purge_subscriptions_def split: option.split)

definition subscriptions_mention :: "(string \<rightharpoonup> string \<rightharpoonup> ClientId fset) \<Rightarrow> ClientId \<Rightarrow> bool" where
  "subscriptions_mention m c \<longleftrightarrow> (\<exists>n topic. c |\<in>| subscribers m n topic)"

definition calls_mention :: "(CallId \<rightharpoonup> ClientId \<times> ClientSender) \<Rightarrow> ClientId \<Rightarrow> bool" where
  "calls_mention m c \<longleftrightarrow> (\<exists>id tx. m id = Some (c, tx))"

definition services_mention :: "Services \<Rightarrow> ClientId \<Rightarrow> bool" where
  "services_mention m c \<longleftrightarrow> (\<exists>n svc. m n = Some svc \<and> owner svc = Some c)"

interpretation clients_table: client_table clients_mention purge_clients
  by unfold_locales (simp_all add: clients_mention_def purge_clients_def)

interpretation objects_table: client_table objects_mention purge_objects
  by unfold_locales (auto simp: objects_mention_def purge_objects_def)

interpretation subscriptions_table: client_table subscriptions_mention purge_subscriptions
  by unfold_locales (simp_all add: subscriptions_mention_def subscribers_purge)

interpretation calls_table: client_table calls_mention purge_calls
  by unfold_locales (auto simp: calls_mention_def purge_calls_def)

interpretation services_table: client_table services_mention "purge_services active" for active
proof unfold_locales
  have own: "owner (cleanup_service c active svc) = Some d \<longleftrightarrow> owner svc = Some d \<and> d \<noteq> c" for c d svc
    by (auto simp: cleanup_service_def)
  have iff: "services_mention (purge_services active c t) d \<longleftrightarrow> services_mention t d \<and> d \<noteq> c" for c d t
    unfolding services_mention_def purge_services_def map_values_apply map_option_eq_Some
    by (metis own)
  show "\<not> services_mention (purge_services active c t) c" for c t
    by (simp add: iff)
  show "d \<noteq> c \<Longrightarrow> services_mention (purge_services active c t) d = services_mention t d" for c d t
    by (simp add: iff)
qed

text \<open>A client is mentioned by the broker when one of the five maps names it.\<close>

definition mentions :: "ServerState \<Rightarrow> ClientId \<Rightarrow> bool" where
  "mentions s c \<longleftrightarrow>
     clients_mention (clients s) c \<or> objects_mention (objects s) c \<or>
     subscriptions_mention (subscriptions s) c \<or> calls_mention (calls s) c \<or>
     services_mention (services s) c"

lemma mentions_cleanup: "mentions (fst (run_task (cleanup_client c) s)) d \<longleftrightarrow> mentions s d \<and> d \<noteq> c"
  by (auto simp: mentions_def run_cleanup clients_table.purge_iff objects_table.purge_iff
      subscriptions_table.purge_iff calls_table.purge_iff services_table.purge_iff)

end
