(* ===== verification/Broker.thy ===== *)
theory Broker
  imports Client_Actor
begin

text \<open>
  The broker as a sequence of events, each handled to its end before the next: a connection
  arrives, a packet of a connected client is dispatched, a connection is cleaned up. An invariant
  ties the five shared maps together; it holds initially, every event keeps it, and the
  properties of calls, services and subscriptions rest on it.
\<close>

section \<open>Events\<close>

datatype event = Connect string ClientSender | Packet ClientId bytes | Disconnect ClientId

fun event_task :: "codec \<Rightarrow> (ClientId fset \<Rightarrow> ClientId list) \<Rightarrow> event \<Rightarrow> task" where
  "event_task cd it (Connect uuid tx) = spawn_client uuid tx"
| "event_task cd it (Packet cid buf) = dispatch cd it cid buf"
| "event_task cd it (Disconnect cid) = cleanup_client cid"

text \<open>A fresh UUID and a fresh channel for a connection; packets and the cleanup of connected clients.\<close>

fun enabled :: "ServerState \<Rightarrow> event \<Rightarrow> bool" where
  "enabled s (Connect uuid tx) \<longleftrightarrow>
     clients s (ClientId uuid) = None \<and> (\<forall>c. clients s c \<noteq> Some tx)"
| "enabled s (Packet cid buf) \<longleftrightarrow> clients s cid \<noteq> None"
| "enabled s (Disconnect cid) \<longleftrightarrow> clients s cid \<noteq> None"

inductive broker_step ::
    "codec \<Rightarrow> (ClientId fset \<Rightarrow> ClientId list) \<Rightarrow> ServerState \<Rightarrow> ServerState \<Rightarrow> bool"
  for cd it where
  event: "enabled s ev \<Longrightarrow> run_task (event_task cd it ev) s = (s', es) \<Longrightarrow> broker_step cd it s s'"

text \<open>The broker starts with empty maps and the services its loader found.\<close>

definition initial_state :: "ServerState \<Rightarrow> bool" where
  "initial_state s \<longleftrightarrow> (\<exists>env. s = empty_state (load_service_activations env Map.empty))"

definition reachable :: "codec \<Rightarrow> (ClientId fset \<Rightarrow> ClientId list) \<Rightarrow> ServerState \<Rightarrow> bool" where
  "reachable cd it s \<longleftrightarrow> (\<exists>s0. initial_state s0 \<and> (broker_step cd it)\<^sup>*\<^sup>* s0 s)"

section \<open>Systems with an invariant\<close>

locale invariant_system =
  fixes start :: "'s \<Rightarrow> bool" and step :: "'s \<Rightarrow> 's \<Rightarrow> bool" and good :: "'s \<Rightarrow> bool"
  assumes good_start: "start s \<Longrightarrow> good s"
    and good_step: "step s t \<Longrightarrow> good s \<Longrightarrow> good t"
begin

lemma good_steps: "step\<^sup>*\<^sup>* s t \<Longrightarrow> good s \<Longrightarrow> good t"
  by (induction rule: rtranclp_induct) (auto intro: good_step)

lemma good_reachable: "start s \<Longrightarrow> step\<^sup>*\<^sup>* s t \<Longrightarrow> good t"
  by (blast intro: good_steps good_start)

end

section \<open>The invariant\<close>

definition service_ok :: "ClientId option \<Rightarrow> string \<Rightarrow> ServiceEntry \<Rightarrow> bool" where
  "service_ok own n svc \<longleftrightarrow>
     (\<forall>c. owner svc = Some c \<longrightarrow> own = Some c) \<and>
     (\<forall>c. state svc = Running c \<longrightarrow> owner svc = Some c \<and> pending_calls svc = []) \<and>
     (state svc = Starting \<longrightarrow> own = None) \<and>
     (\<forall>r \<in> set (pending_calls svc). \<exists>ci m a. r = Call ci n m a)"

definition broker_ok :: "ServerState \<Rightarrow> bool" where
  "broker_ok s \<longleftrightarrow>
     (\<forall>n c. objects s n = Some c \<longrightarrow> clients s c \<noteq> None) \<and>
     (\<forall>n t c. c |\<in>| subscribers (subscriptions s) n t \<longrightarrow> clients s c \<noteq> None) \<and>
     (\<forall>ci c tx. calls s ci = Some (c, tx) \<longrightarrow> clients s c = Some tx) \<and>
     (\<forall>n svc. services s n = Some svc \<longrightarrow> service_ok (objects s n) n svc) \<and>
     (\<forall>c d tx. clients s c = Some tx \<longrightarrow> clients s d = Some tx \<longrightarrow> c = d)"

lemma broker_okI:
  assumes "\<And>n c. objects s n = Some c \<Longrightarrow> clients s c \<noteq> None"
    and "\<And>n t c. c |\<in>| subscribers (subscriptions s) n t \<Longrightarrow> clients s c \<noteq> None"
    and "\<And>ci c tx. calls s ci = Some (c, tx) \<Longrightarrow> clients s c = Some tx"
    and "\<And>n svc. services s n = Some svc \<Longrightarrow> service_ok (objects s n) n svc"
    and "\<And>c d tx. clients s c = Some tx \<Longrightarrow> clients s d = Some tx \<Longrightarrow> c = d"
  shows "broker_ok s"
  unfolding broker_ok_def using assms by blast

lemma broker_okD:
  assumes "broker_ok s"
  shows "objects s n = Some c \<Longrightarrow> clients s c \<noteq> None"
    and "c |\<in>| subscribers (subscriptions s) n t \<Longrightarrow> clients s c \<noteq> None"
    and "calls s ci = Some (c, tx) \<Longrightarrow> clients s c = Some tx"
    and "services s n = Some svc \<Longrightarrow> service_ok (objects s n) n svc"
    and "clients s c = Some tx \<Longrightarrow> clients s d = Some tx \<Longrightarrow> c = d"
  using assms unfolding broker_ok_def by blast+

lemma service_okD:
  assumes "service_ok own n svc"
  shows "owner svc = Some c \<Longrightarrow> own = Some c"
    and "state svc = Running c \<Longrightarrow> owner svc = Some c \<and> pending_calls svc = []"
    and "state svc = Starting \<Longrightarrow> own = None"
    and "r \<in> set (pending_calls svc) \<Longrightarrow> \<exists>ci m a. r = Call ci n m a"
  using assms unfolding service_ok_def by blast+

lemma broker_ok_objects_clients:
  "broker_ok s \<Longrightarrow> Option.bind (objects s n) (clients s) = None \<longleftrightarrow> objects s n = None"
  using broker_okD(1) [of s n] by (cases "objects s n") auto

section \<open>Every handler keeps the invariant\<close>

lemma service_ok_stopped [simp]: "service_ok own n (stopped_entry name)"
  by (simp add: service_ok_def stopped_entry_def)

lemma ok_register_object [broker_inv]:
  assumes ok: "broker_ok s" and c: "clients s cid \<noteq> None"
  shows "broker_ok (fst (run_task (handle_register_object cd n cid) s))"
proof (rule broker_okI)
  fix m svc
  assume "services (fst (run_task (handle_register_object cd n cid) s)) m = Some svc"
  then show "service_ok (objects (fst (run_task (handle_register_object cd n cid) s)) m) m svc"
    using broker_okD(4) [OF ok]
    by (cases "services s n") (auto simp: run_register_object service_ok_def split: if_splits)
qed (use broker_okD [OF ok] c in \<open>auto simp: run_register_object split: if_splits\<close>)

lemma ok_register_service [broker_inv]:
  assumes ok: "broker_ok s"
  shows "broker_ok (fst (run_task (handle_register_service n name cid) s))"
proof (rule broker_okI)
  fix m svc
  assume "services (fst (run_task (handle_register_service n name cid) s)) m = Some svc"
  then show "service_ok (objects (fst (run_task (handle_register_service n name cid) s)) m) m svc"
    using broker_okD(4) [OF ok]
    by (cases "services s n") (auto simp: run_register_service service_ok_def stopped_entry_def split: if_splits)
qed (use broker_okD [OF ok] in \<open>auto simp: run_register_service\<close>)

lemma ok_calls_update:
  assumes ok: "broker_ok s" and c: "clients s cid = Some tx"
  shows "broker_ok (s\<lparr>calls := (calls s)(ci \<mapsto> (cid, tx))\<rparr>)"
  by (rule broker_okI) (use broker_okD [OF ok] c in \<open>auto split: if_splits\<close>)

lemma service_ok_queue:
  "service_ok None n svc \<Longrightarrow>
   service_ok None n (svc\<lparr>state := Starting, pending_calls := pending_calls svc @ [Call ci n m a]\<rparr>)"
  by (cases "owner svc") (auto simp: service_ok_def)

lemma ok_call_activate:
  assumes ok: "broker_ok s" and free: "objects s n = None"
  shows "broker_ok (fst (run_task (call_activate cd ci n m a cid) s))"
proof (rule broker_okI)
  fix k svc
  assume "services (fst (run_task (call_activate cd ci n m a cid) s)) k = Some svc"
  then show "service_ok (objects (fst (run_task (call_activate cd ci n m a cid) s)) k) k svc"
    using broker_okD(4) [OF ok, of k] broker_okD(4) [OF ok, of n] free
    by (cases "services s n")
      (auto simp: run_call_activate split: if_splits ServiceState.splits intro!: service_ok_queue)
qed (use broker_okD [OF ok] in \<open>auto simp: run_call_activate split: option.splits ServiceState.splits if_splits\<close>)

lemma ok_handle_call [broker_inv]:
  assumes ok: "broker_ok s"
  shows "broker_ok (fst (run_task (handle_call cd ci n m a cid) s))"
proof (cases "clients s cid")
  case None
  with ok show ?thesis by (simp add: run_handle_call)
next
  case (Some tx)
  let ?s1 = "s\<lparr>calls := (calls s)(ci \<mapsto> (cid, tx))\<rparr>"
  from ok Some have ok1: "broker_ok ?s1" by (rule ok_calls_update)
  show ?thesis
  proof (cases "Option.bind (objects s n) (clients s)")
    case None
    with ok have "objects ?s1 n = None" by (simp add: broker_ok_objects_clients)
    with ok_call_activate [OF ok1 this] Some None show ?thesis
      by (simp add: run_handle_call Let_def)
  next
    case (Some wtx)
    with ok1 \<open>clients s cid = Some tx\<close> show ?thesis by (simp add: run_handle_call Let_def)
  qed
qed

lemma subscribers_insert:
  "subscribers (m(n \<mapsto> (let topics = (case m n of None \<Rightarrow> Map.empty | Some m \<Rightarrow> m)
       in topics(t \<mapsto> finsert c (case topics t of None \<Rightarrow> {||} | Some c \<Rightarrow> c))))) n' t' =
     (if n' = n \<and> t' = t then finsert c (subscribers m n t) else subscribers m n' t')"
  by (auto simp: subscribers_def Let_def split: option.splits)

lemma subscribers_subscribe:
  "subscribers (subscriptions (fst (run_task (handle_subscribe cd n t cid) s))) n' t' =
     (if n' = n \<and> t' = t then finsert cid (subscribers (subscriptions s) n t)
      else subscribers (subscriptions s) n' t')"
  by (simp add: run_subscribe subscribers_insert)

lemma ok_subscribe [broker_inv]:
  assumes ok: "broker_ok s" and c: "clients s cid \<noteq> None"
  shows "broker_ok (fst (run_task (handle_subscribe cd n t cid) s))"
proof (rule broker_okI)
  fix n' t' c
  assume "c |\<in>| subscribers (subscriptions (fst (run_task (handle_subscribe cd n t cid) s))) n' t'"
  then have "c = cid \<or> c |\<in>| subscribers (subscriptions s) n' t'"
    by (auto simp: subscribers_subscribe split: if_splits)
  with broker_okD(2) [OF ok] c show "clients (fst (run_task (handle_subscribe cd n t cid) s)) c \<noteq> None"
    by (auto simp: run_subscribe)
qed (use broker_okD [OF ok] in \<open>auto simp: run_subscribe\<close>)

lemma ok_response [broker_inv]:
  assumes ok: "broker_ok s"
  shows "broker_ok (fst (run_task (handle_response cd resp cid) s))"
  by (rule broker_okI) (use broker_okD [OF ok] in \<open>auto simp: run_response split: option.splits if_splits\<close>)

lemma ok_publish [broker_inv]:
  "broker_ok s \<Longrightarrow> broker_ok (fst (run_task (handle_publish cd it n t a) s))"
  by (simp add: run_publish)

lemma ok_has_object [broker_inv]:
  "broker_ok s \<Longrightarrow> broker_ok (fst (run_task (handle_has_object cd n cid) s))"
  by (simp add: run_has_object)

lemma ok_dispatch [broker_inv]:
  assumes "broker_ok s" "clients s cid \<noteq> None"
  shows "broker_ok (fst (run_task (dispatch cd it cid buf) s))"
proof (cases "decode_packet cd buf")
  case (InRequest req)
  with assms show ?thesis by (cases req) (simp_all add: dispatch_def broker_inv)
qed (use assms in \<open>simp_all add: dispatch_def broker_inv\<close>)

lemma ok_spawn_client [broker_inv]:
  assumes ok: "broker_ok s" and "clients s (ClientId u) = None" "\<forall>c. clients s c \<noteq> Some tx"
  shows "broker_ok (fst (run_task (spawn_client u tx) s))"
  by (rule broker_okI)
    (use broker_okD [OF ok] assms(2,3) in \<open>(fastforce simp: run_spawn_client split: if_splits)+\<close>)

lemma service_ok_cleanup:
  assumes "service_ok own n svc" and "own' = (if own = Some c then None else own)"
  shows "service_ok own' n (cleanup_service c active svc)"
  using assms by (cases "owner svc") (auto simp: service_ok_def cleanup_service_def)

lemma ok_cleanup [broker_inv]:
  assumes ok: "broker_ok s"
  shows "broker_ok (fst (run_task (cleanup_client c) s))"
proof (rule broker_okI)
  fix n svc
  assume "services (fst (run_task (cleanup_client c) s)) n = Some svc"
  then obtain svc0 active where svc: "services s n = Some svc0" "svc = cleanup_service c active svc0"
    by (auto simp: run_cleanup purge_services_def)
  have "objects (fst (run_task (cleanup_client c) s)) n = (if objects s n = Some c then None else objects s n)"
    by (auto simp: run_cleanup purge_objects_def map_retain_def split: option.split)
  with service_ok_cleanup [OF broker_okD(4) [OF ok svc(1)]] svc(2)
  show "service_ok (objects (fst (run_task (cleanup_client c) s)) n) n svc" by simp
qed (use broker_okD [OF ok] in
  \<open>auto simp: run_cleanup purge_objects_def purge_clients_def purge_calls_def subscribers_purge split: if_splits\<close>)

lemma ok_initial: "initial_state s \<Longrightarrow> broker_ok s"
proof -
  have "service_ok own n svc" if "load_service_activations env Map.empty n = Some svc" for env own n svc
    using that
    by (auto simp: load_service_activations_def load_entries_spec register_items_def service_ok_def
        stopped_entry_def dest!: map_of_SomeD split: option.splits)
  then show "initial_state s \<Longrightarrow> broker_ok s"
    by (auto simp: initial_state_def empty_state_def subscribers_def intro!: broker_okI)
qed

lemma ok_step: "broker_step cd it s s' \<Longrightarrow> broker_ok s \<Longrightarrow> broker_ok s'"
proof (induction rule: broker_step.induct)
  case (event s ev s' es)
  then have s': "s' = fst (run_task (event_task cd it ev) s)" by simp
  from event.hyps(1) event.prems show ?case
    unfolding s' by (cases ev) (auto intro: ok_dispatch ok_spawn_client ok_cleanup)
qed

interpretation broker: invariant_system initial_state "broker_step cd it" broker_ok for cd it
  by unfold_locales (auto intro: ok_initial ok_step)

lemma reachable_ok: "reachable cd it s \<Longrightarrow> broker_ok s"
  by (auto simp: reachable_def intro: broker.good_reachable)

lemma reachable_step: "reachable cd it s \<Longrightarrow> broker_step cd it s s' \<Longrightarrow> reachable cd it s'"
  by (auto simp: reachable_def intro: rtranclp.rtrancl_into_rtrancl)

section \<open>Histories\<close>

text \<open>A history handles its events one after the other and collects what they send.\<close>

fun history :: "codec \<Rightarrow> (ClientId fset \<Rightarrow> ClientId list) \<Rightarrow> event list \<Rightarrow> task" where
  "history cd it evs = for_each (event_task cd it) evs"

fun enabled_history :: "codec \<Rightarrow> (ClientId fset \<Rightarrow> ClientId list) \<Rightarrow> event list \<Rightarrow> ServerState \<Rightarrow> bool" where
  "enabled_history cd it [] s \<longleftrightarrow> True"
| "enabled_history cd it (ev # evs) s \<longleftrightarrow>
     enabled s ev \<and> enabled_history cd it evs (fst (run_task (event_task cd it ev) s))"

lemma history_Nil [simp]: "run_task (history cd it []) s = (s, [])"
  by simp

lemma history_Cons [simp]:
  "fst (run_task (history cd it (ev # evs)) s) =
     fst (run_task (history cd it evs) (fst (run_task (event_task cd it ev) s)))"
  "snd (run_task (history cd it (ev # evs)) s) =
     snd (run_task (event_task cd it ev) s) @
     snd (run_task (history cd it evs) (fst (run_task (event_task cd it ev) s)))"
  by (simp_all add: run_seq split_beta Let_def)

declare history.simps [simp del]

lemma ok_event:
  "broker_ok s \<Longrightarrow> enabled s ev \<Longrightarrow> broker_ok (fst (run_task (event_task cd it ev) s))"
  by (rule ok_step [OF broker_step.event [OF _ prod.collapse [symmetric]]])

lemma ok_history:
  "broker_ok s \<Longrightarrow> enabled_history cd it evs s \<Longrightarrow> broker_ok (fst (run_task (history cd it evs) s))"
  by (induction evs arbitrary: s) (auto intro: ok_event)

lemma reachable_history:
  "reachable cd it s \<Longrightarrow> enabled_history cd it evs s \<Longrightarrow>
   reachable cd it (fst (run_task (history cd it evs) s))"
proof (induction evs arbitrary: s)
  case (Cons ev evs)
  from Cons.prems have "enabled s ev" by simp
  then have "broker_step cd it s (fst (run_task (event_task cd it ev) s))"
    by (rule broker_step.event [OF _ prod.collapse [symmetric]])
  with Cons show ?case by (simp add: reachable_step)
qed simp

lemma reachable_initial: "initial_state s \<Longrightarrow> reachable cd it s"
  by (auto simp: reachable_def)

end
