(* ===== verification/Examples.thy ===== *)
theory Examples
  imports Broker
begin

text \<open>
  Concrete parameters and states at which the properties are exercised: a codec that knows the
  messages of one conversation, an iteration order for hash sets, a broker with a worker and a
  caller, and one with a service that is known but not running.
\<close>

definition worker :: ClientId where "worker = ClientId ''w''"
definition caller :: ClientId where "caller = ClientId ''c''"
definition call_1 :: CallId where "call_1 = CallId ''1''"

definition demo_codec :: codec where
  "demo_codec =
     \<lparr>req_to_vec = (\<lambda>r.
        if r = Call call_1 ''math'' ''add'' JNull then Some [1]
        else if r = RegisterObject ''math'' then Some [2]
        else if r = Subscribe ''news'' ''t'' then Some [3] else Some [0]),
      resp_to_vec = (\<lambda>r.
        if r = Result call_1 ''math'' JNull then Some [10]
        else if r = Event ''news'' ''t'' JNull then Some [11]
        else Some [12]),
      req_from_slice = (\<lambda>b.
        if b = [1] then Some (Call call_1 ''math'' ''add'' JNull)
        else if b = [2] then Some (RegisterObject ''math'')
        else if b = [3] then Some (Subscribe ''news'' ''t'') else None),
      resp_from_slice = (\<lambda>b.
        if b = [10] then Some (Result call_1 ''math'' JNull)
        else if b = [11] then Some (Event ''news'' ''t'' JNull) else None)\<rparr>"

definition demo_order :: "ClientId fset \<Rightarrow> ClientId list" where
  "demo_order = sorted_list_of_fset"

text \<open>Worker and caller are connected and the worker owns the object \<open>math\<close>.\<close>

definition demo_events :: "event list" where
  "demo_events = [Connect ''w'' 1, Connect ''c'' 2, Packet worker [2]]"

definition demo_state :: ServerState where
  "demo_state =
     \<lparr>objects = [''math'' \<mapsto> worker], clients = [worker \<mapsto> 1, caller \<mapsto> 2],
      subscriptions = Map.empty, calls = Map.empty, services = Map.empty\<rparr>"

text \<open>The caller is connected, \<open>math\<close> is a service that is not running.\<close>

definition service_events :: "event list" where
  "service_events = [Connect ''w'' 1, Connect ''c'' 2]"

definition service_state :: ServerState where
  "service_state =
     \<lparr>objects = Map.empty, clients = [worker \<mapsto> 1, caller \<mapsto> 2],
      subscriptions = Map.empty, calls = Map.empty,
      services = [''math'' \<mapsto> stopped_entry ''math.service'']\<rparr>"

lemmas demo_defs = worker_def caller_def call_1_def demo_codec_def demo_state_def service_state_def

lemma worker_caller [simp]: "worker \<noteq> caller" "caller \<noteq> worker"
  by (simp_all add: worker_def caller_def)

lemma demo_packets [simp]:
  "decode_packet demo_codec [1] = InRequest (Call call_1 ''math'' ''add'' JNull)"
  "decode_packet demo_codec [2] = InRequest (RegisterObject ''math'')"
  "decode_packet demo_codec [3] = InRequest (Subscribe ''news'' ''t'')"
  "decode_packet demo_codec [10] = InResponse (Result call_1 ''math'' JNull)"
  by (simp_all add: decode_packet_def demo_codec_def)

lemma demo_encodings [simp]:
  "req_to_vec demo_codec (Call call_1 ''math'' ''add'' JNull) = Some [1]"
  "req_to_vec demo_codec (RegisterObject ''math'') = Some [2]"
  "req_to_vec demo_codec (Subscribe ''news'' ''t'') = Some [3]"
  "resp_to_vec demo_codec (Result call_1 ''math'' JNull) = Some [10]"
  "resp_to_vec demo_codec (Event ''news'' ''t'' JNull) = Some [11]"
  "resp_to_vec demo_codec (no_such_object ci n) = Some [12]"
  "resp_to_vec demo_codec (Registered n) = Some [12]"
  by (simp_all add: demo_codec_def no_such_object_def)

lemma initial_no_services: "initial_state (empty_state Map.empty)"
  unfolding initial_state_def
  by (rule exI [of _ "\<lparr>home_dir = None, read_dir = Map.empty, read_to_string = Map.empty,
        activations_from_str = Map.empty\<rparr>"]) (simp add: load_service_activations_def)

lemma initial_demo_service:
  "initial_state (empty_state [''math'' \<mapsto> stopped_entry ''math.service''])"
  unfolding initial_state_def
  by (rule exI [of _ demo_activation_env])
    (simp add: load_service_activations_def demo_activation_env_def path_join_def BASE_DIR_def
      extension_def file_name_def stopped_entry_def)

lemma demo_reachable: "reachable demo_codec it demo_state"
proof -
  have "enabled_history demo_codec it demo_events (empty_state Map.empty)"
    by (simp add: demo_events_def empty_state_def worker_def run_spawn_client)
  then have "reachable demo_codec it
      (fst (run_task (history demo_codec it demo_events) (empty_state Map.empty)))"
    by (intro reachable_history reachable_initial initial_no_services)
  moreover have "fst (run_task (history demo_codec it demo_events) (empty_state Map.empty)) = demo_state"
    by (auto simp: demo_events_def empty_state_def worker_def caller_def demo_state_def run_spawn_client
        dispatch_def run_register_object simp flip: worker_def)
  ultimately show ?thesis by simp
qed

lemma service_reachable: "reachable demo_codec it service_state"
proof -
  let ?s0 = "empty_state [''math'' \<mapsto> stopped_entry ''math.service'']"
  have "enabled_history demo_codec it service_events ?s0"
    by (simp add: service_events_def empty_state_def run_spawn_client)
  then have "reachable demo_codec it (fst (run_task (history demo_codec it service_events) ?s0))"
    by (intro reachable_history reachable_initial initial_demo_service)
  moreover have "fst (run_task (history demo_codec it service_events) ?s0) = service_state"
    by (simp add: service_events_def empty_state_def worker_def caller_def service_state_def run_spawn_client)
  ultimately show ?thesis by simp
qed

end
