(* ===== verification/Routing.thy ===== *)
theory Routing
  imports Examples
begin

text \<open>
  Calls and their answers: what becomes of a call, where an answer goes, and how many answers a
  call can get, over histories of broker events (theory \<^verbatim>\<open>Broker\<close>).
\<close>

section \<open>Which events touch a call\<close>

fun calls_with :: "codec \<Rightarrow> CallId \<Rightarrow> event \<Rightarrow> bool" where
  "calls_with cd ci (Packet c buf) \<longleftrightarrow>
     (case decode_packet cd buf of InRequest (Call ci' _ _ _) \<Rightarrow> ci' = ci | _ \<Rightarrow> False)"
| "calls_with cd ci _ \<longleftrightarrow> False"

fun answers :: "codec \<Rightarrow> CallId \<Rightarrow> event \<Rightarrow> bool" where
  "answers cd ci (Packet c buf) \<longleftrightarrow>
     (case decode_packet cd buf of InResponse resp \<Rightarrow> response_call_id resp = Some ci | _ \<Rightarrow> False)"
| "answers cd ci _ \<longleftrightarrow> False"

lemma calls_event:
  "calls (fst (run_task (event_task cd it ev) s)) ci =
     (if calls_with cd ci ev then
        (case ev of Packet c _ \<Rightarrow> (case clients s c of Some tx \<Rightarrow> Some (c, tx) | None \<Rightarrow> calls s ci) | _ \<Rightarrow> None)
      else if answers cd ci ev then None
      else (case ev of Disconnect c \<Rightarrow> purge_calls c (calls s) ci | _ \<Rightarrow> calls s ci))"
proof (cases ev)
  case (Packet c buf)
  show ?thesis
  proof (cases "decode_packet cd buf")
    case (InRequest req)
    have act: "calls (fst (run_task (call_activate cd i n m a c) t)) = calls t" for i n m a t
      by (auto simp: run_call_activate split: option.split ServiceState.split)
    from InRequest Packet show ?thesis
      by (cases req)
        (auto simp: dispatch_def task_run act Let_def simp del: run_call_activate split: option.split)
  qed (use Packet in \<open>auto simp: dispatch_def run_response split: option.split\<close>)
qed (simp_all add: run_spawn_client run_cleanup)

lemma answer_effects:
  assumes "answers cd ci ev"
  shows "\<exists>resp. response_call_id resp = Some ci \<and> snd (run_task (event_task cd it ev) s) =
     (case (calls s ci, resp_to_vec cd resp) of (Some (_, tx), Some b) \<Rightarrow> [Sent tx (Outgoing b)] | _ \<Rightarrow> [])"
proof (cases ev)
  case (Packet c buf)
  with assms obtain resp where "decode_packet cd buf = InResponse resp" "response_call_id resp = Some ci"
    by (auto split: incoming.splits RpcRequest.splits)
  with Packet show ?thesis
    by (auto simp: dispatch_def run_response intro!: exI [of _ resp])
qed (use assms in simp_all)

lemma calls_kept:
  assumes "calls s ci = Some (c, tx)"
    and "\<forall>ev \<in> set evs. \<not> calls_with cd ci ev \<and> \<not> answers cd ci ev \<and> ev \<noteq> Disconnect c"
  shows "calls (fst (run_task (history cd it evs) s)) ci = Some (c, tx)"
  using assms
proof (induction evs arbitrary: s)
  case (Cons ev evs)
  have "calls (fst (run_task (event_task cd it ev) s)) ci = Some (c, tx)"
    using Cons.prems by (auto simp: calls_event purge_calls_def split: event.split)
  with Cons show ?case by simp
qed simp

lemma calls_absent:
  assumes "calls s ci = None" and "\<forall>ev \<in> set evs. \<not> calls_with cd ci ev"
  shows "calls (fst (run_task (history cd it evs) s)) ci = None"
  using assms
proof (induction evs arbitrary: s)
  case (Cons ev evs)
  have "calls (fst (run_task (event_task cd it ev) s)) ci = None"
    using Cons.prems by (auto simp: calls_event purge_calls_def map_retain_None split: event.split)
  with Cons show ?case by simp
qed simp

section \<open>Properties\<close>

text \<open>C1: No call of a connected client is lost while handlers run one at a time: in every reachable
  state it is recorded under its caller's sender and then either forwarded to the live owner of the
  object, once, or queued at the back of the service's queue (starting the service if it was
  stopped), or answered with an error when the object is unknown.\<close>

theorem call_never_lost:
  assumes "reachable cd it s" "clients s cid = Some tx"
    and "req_to_vec cd (Call ci n m a) = Some b"
    and "resp_to_vec cd (no_such_object ci n) = Some e"
    and "run_task (handle_call cd ci n m a cid) s = (s', es)"
  shows "calls s' ci = Some (cid, tx) \<and>
    (case objects s n of
       Some w \<Rightarrow> (\<exists>wtx. clients s w = Some wtx \<and> es = [Sent wtx (Outgoing b)]) \<and> services s' = services s
     | None \<Rightarrow>
         (case services s n of
            None \<Rightarrow> es = [Sent tx (Outgoing e)] \<and> services s' = services s
          | Some svc \<Rightarrow>
              (\<exists>svc'. services s' n = Some svc' \<and> state svc' = Starting \<and>
                 pending_calls svc' = pending_calls svc @ [Call ci n m a]) \<and>
              es = (if state svc = Stopped then [Spawned (spawn_service (service_name svc))] else [])))"
proof -
  have ok: "broker_ok s" using assms(1) by (rule reachable_ok)
  note run = assms(5) [unfolded run_handle_call, simplified assms(2) option.case Let_def]
  show ?thesis
  proof (cases "objects s n")
    case (Some w)
    with broker_okD(1) [OF ok] obtain wtx where "clients s w = Some wtx" by blast
    with Some run assms(3) show ?thesis by auto
  next
    case None
    have idle: "state svc \<noteq> Running w" if "services s n = Some svc" for svc w
      using broker_okD(4) [OF ok that] None by (auto dest: service_okD)
    from None run assms(2,4) idle show ?thesis
      by (auto simp: run_call_activate split: option.splits ServiceState.splits)
  qed
qed

theorem call_never_lost_witness:
  "calls (fst (run_task (handle_call demo_codec call_1 ''math'' ''add'' JNull caller) demo_state)) call_1
     = Some (caller, 2) \<and>
   snd (run_task (handle_call demo_codec call_1 ''math'' ''add'' JNull caller) demo_state)
     = [Sent 1 (Outgoing [1])]"
proof -
  have "clients demo_state caller = Some 2" "objects demo_state ''math'' = Some worker"
    "clients demo_state worker = Some 1"
    by (simp_all add: demo_state_def)
  with call_never_lost [OF demo_reachable [of demo_order] this(1) demo_encodings(1) demo_encodings(6)
      prod.collapse [symmetric]]
  show ?thesis by simp
qed

text \<open>C10: A recorded call gets its answer whatever else the broker handles in between: as long as the
  caller stays connected and nobody reuses or answers the call id, the first response with that id
  is put on the caller's channel, once, and the call is closed, so that a second response with the
  id reaches nobody.\<close>

theorem answer_reaches_caller:
  assumes "reachable cd it s" "calls s ci = Some (c, tx)"
    and "enabled_history cd it evs s"
    and "\<forall>ev \<in> set evs. \<not> calls_with cd ci ev \<and> \<not> answers cd ci ev \<and> ev \<noteq> Disconnect c"
    and "response_call_id resp = Some ci" "resp_to_vec cd resp = Some b"
    and "response_call_id resp2 = Some ci"
    and "run_task (history cd it evs) s = (s1, es1)"
    and "run_task (handle_response cd resp w) s1 = (s2, es2)"
    and "run_task (handle_response cd resp2 w2) s2 = (s3, es3)"
  shows "es2 = [Sent tx (Outgoing b)] \<and> clients s1 c = Some tx \<and> calls s2 ci = None \<and> es3 = []"
proof -
  have s1: "s1 = fst (run_task (history cd it evs) s)" using assms(8) by simp
  have "broker_ok s1"
    unfolding s1 using assms(1,3) by (intro ok_history reachable_ok)
  moreover have "calls s1 ci = Some (c, tx)"
    unfolding s1 using assms(2,4) by (rule calls_kept)
  ultimately show ?thesis
    using assms(5-7,9,10) broker_okD(3) [of s1 ci c tx] by (auto simp: run_response)
qed

theorem answer_reaches_caller_witness:
  "snd (run_task (handle_response demo_codec (Result call_1 ''math'' JNull) worker)
      (demo_state\<lparr>calls := [call_1 \<mapsto> (caller, 2)]\<rparr>)) = [Sent 2 (Outgoing [10])]"
proof -
  let ?s = "demo_state\<lparr>calls := [call_1 \<mapsto> (caller, 2)]\<rparr>"
  let ?call = "Packet caller [1]"
  have "run_task (event_task demo_codec demo_order ?call) demo_state = (?s, [Sent 1 (Outgoing [1])])"
    by (simp add: dispatch_def run_handle_call demo_state_def)
  moreover have "enabled demo_state ?call" by (simp add: demo_state_def)
  ultimately have "reachable demo_codec demo_order ?s"
    by (blast intro: reachable_step demo_reachable broker_step.event)
  from answer_reaches_caller [OF this, of call_1 caller 2 "[]" "Result call_1 ''math'' JNull" "[10]"
      "Result call_1 ''math'' JNull" ?s "[]" worker, OF _ _ _ _ _ _ _ prod.collapse [symmetric] prod.collapse [symmetric]]
  show ?thesis by simp
qed

text \<open>How many responses with an id reached a caller, and how many calls with it there were.\<close>

fun answered :: "codec \<Rightarrow> (ClientId fset \<Rightarrow> ClientId list) \<Rightarrow> CallId \<Rightarrow> event list \<Rightarrow> ServerState \<Rightarrow> nat" where
  "answered cd it ci [] s = 0"
| "answered cd it ci (ev # evs) s =
     (if answers cd ci ev \<and> snd (run_task (event_task cd it ev) s) \<noteq> [] then 1 else 0)
     + answered cd it ci evs (fst (run_task (event_task cd it ev) s))"

definition called :: "codec \<Rightarrow> CallId \<Rightarrow> event list \<Rightarrow> nat" where
  "called cd ci evs = length (filter (calls_with cd ci) evs)"

lemma answered_le_called:
  "answered cd it ci evs s \<le> called cd ci evs + (if calls s ci = None then 0 else 1)"
proof (induction evs arbitrary: s)
  case Nil
  then show ?case by (simp add: called_def)
next
  case (Cons ev evs)
  let ?s1 = "fst (run_task (event_task cd it ev) s)"
  have excl: "answers cd ci ev \<Longrightarrow> \<not> calls_with cd ci ev"
    by (cases ev) (auto split: incoming.splits)
  have drop: "answers cd ci ev \<Longrightarrow> calls ?s1 ci = None"
    using excl by (simp add: calls_event)
  have used: "answers cd ci ev \<Longrightarrow> snd (run_task (event_task cd it ev) s) \<noteq> [] \<Longrightarrow> calls s ci \<noteq> None"
    using answer_effects [of cd ci ev it s] by (auto split: option.splits)
  have new: "\<not> calls_with cd ci ev \<Longrightarrow> calls s ci = None \<Longrightarrow> calls ?s1 ci = None"
    using calls_absent [of s ci "[ev]" cd it] by simp
  from Cons.IH [of ?s1] excl drop used new show ?case
    by (auto simp: called_def split: if_splits)
qed

text \<open>Over any history from a state without open calls, a call id never gets more answers than
  there were calls with it: each forwarded response uses up one call.\<close>

theorem at_most_one_answer_per_call:
  assumes "calls s ci = None"
  shows "answered cd it ci evs s \<le> called cd ci evs"
  using answered_le_called [of cd it ci evs s] assms by simp

theorem at_most_one_answer_per_call_witness:
  "answered demo_codec demo_order call_1 [Packet caller [1], Packet worker [10], Packet worker [10]] demo_state = 1
   \<and> answered demo_codec demo_order call_1 [Packet caller [1], Packet worker [10], Packet worker [10]] demo_state
     \<le> called demo_codec call_1 [Packet caller [1], Packet worker [10], Packet worker [10]]"
proof -
  have "calls demo_state call_1 = None" by (simp add: demo_state_def)
  from at_most_one_answer_per_call
    [OF this, of demo_codec demo_order "[Packet caller [1], Packet worker [10], Packet worker [10]]"]
  show ?thesis
    by (simp add: dispatch_def run_handle_call run_response demo_state_def)
qed

text \<open>A call to an unknown object is answered with an error but stays recorded as open, so any
  client that later sends a response with its id reaches the caller with a second answer.\<close>

theorem rejected_call_stays_open:
  assumes "clients s cid = Some tx" "objects s n = None" "services s n = None"
    and "resp_to_vec cd (no_such_object ci n) = Some e"
    and "response_call_id resp = Some ci" "resp_to_vec cd resp = Some b"
    and "run_task (handle_call cd ci n m a cid) s = (s1, es1)"
    and "run_task (handle_response cd resp other) s1 = (s2, es2)"
  shows "es1 = [Sent tx (Outgoing e)] \<and> calls s1 ci = Some (cid, tx) \<and> es2 = [Sent tx (Outgoing b)]"
  using assms by (auto simp: run_handle_call run_call_activate run_response Let_def)

theorem rejected_call_stays_open_witness:
  "snd (run_task (handle_response demo_codec (Result call_1 ''math'' JNull) worker)
      (fst (run_task (handle_call demo_codec call_1 ''nobody'' ''add'' JNull caller) demo_state)))
    = [Sent 2 (Outgoing [10])]"
proof -
  have "clients demo_state caller = Some 2" "objects demo_state ''nobody'' = None"
    "services demo_state ''nobody'' = None"
    by (simp_all add: demo_state_def)
  from rejected_call_stays_open [OF this demo_encodings(6) _ demo_encodings(4)
      prod.collapse [symmetric] prod.collapse [symmetric]]
  show ?thesis by simp
qed

end
