(* ===== verification/Lifecycle.thy ===== *)
theory Lifecycle
  imports Routing "HOL-Library.Sublist"
begin

text \<open>
  The life of a connection: whatever its peer sends, nothing of it stays behind; cleaning up one
  client leaves the others alone; the reader handles exactly the packets that arrived whole, in
  order; the peer reads a prefix of what the broker sent it, whenever the writer stops.
\<close>

section \<open>Cleanup\<close>

lemma purge_calls_Some [simp]:
  "purge_calls c m ci = Some (d, tx) \<longleftrightarrow> m ci = Some (d, tx) \<and> d \<noteq> c"
  by (auto simp: purge_calls_def)

text \<open>C11: When a connection ends, no trace of its client is left, whatever bytes it sent, whether they
  were well-formed or not: its sender, its objects, its subscriptions, its open calls and its
  services are gone, and no service runs on it.\<close>

theorem connection_leaves_no_trace:
  assumes "reachable cd it s" "clients s c \<noteq> None"
    and "run_task (client_run cd it c r) s = (s', es)"
  shows "\<not> mentions s' c \<and> (\<forall>n svc. services s' n = Some svc \<longrightarrow> state svc \<noteq> Running c)"
proof -
  obtain s1 es1 where s1: "run_task (reader_loop cd it c r) s = (s1, es1)" by force
  have s': "s' = fst (run_task (cleanup_client c) s1)"
    using assms(3) by (auto simp: client_run_def run_seq s1 split_beta Let_def)
  have gone: "\<not> mentions s' c" by (simp add: s' mentions_cleanup)
  have packets: "broker_ok (fst (run_task (for_each (dispatch cd it c) bufs) t))"
    if "broker_ok t" "clients t c \<noteq> None" for bufs t
    using that
  proof (induction bufs arbitrary: t)
    case (Cons b bufs)
    have "clients (fst (run_task (dispatch cd it c b) t)) = clients t"
    proof (cases "decode_packet cd b")
      case (InRequest req)
      then show ?thesis
        by (cases req) (auto simp: dispatch_def task_run Let_def split: option.split ServiceState.split)
    qed (auto simp: dispatch_def run_response split: option.split)
    with Cons show ?case by (simp add: run_seq split_beta Let_def ok_dispatch)
  qed simp
  have "broker_ok s1"
    using packets [OF reachable_ok [OF assms(1)] assms(2), of "fst (read_all r)"] s1
    by (simp add: reader_loop_eq)
  then have ok: "broker_ok s'" unfolding s' by (rule ok_cleanup)
  have "state svc \<noteq> Running c" if svc: "services s' n = Some svc" for n svc
  proof
    assume "state svc = Running c"
    then have "owner svc = Some c" using service_okD(2) [OF broker_okD(4) [OF ok svc]] by blast
    with svc gone show False
      by (auto simp: mentions_def services_mention_def)
  qed
  with gone show ?thesis by blast
qed

theorem connection_leaves_no_trace_witness:
  "\<not> mentions (fst (run_task (client_run demo_codec demo_order worker
      \<lparr>avail = frame [3] @ frame [9, 9] @ [0, 0], ends = None\<rparr>) demo_state)) worker"
  by (rule connection_leaves_no_trace [OF demo_reachable [of demo_order] _ prod.collapse [symmetric], THEN conjunct1])
    (simp add: demo_state_def)

text \<open>Cleaning up a client touches nothing of the others: their senders, objects, subscriptions and
  open calls stay as they are, and a service that the client does not own keeps its state and
  exactly those queued calls whose callers are still waiting, in their order.\<close>

theorem cleanup_leaves_others_alone:
  assumes "reachable cd it s" "run_task (cleanup_client c) s = (s', es)" "d \<noteq> c"
  shows "clients s' d = clients s d
    \<and> (objects s' n = Some d \<longleftrightarrow> objects s n = Some d)
    \<and> (d |\<in>| subscribers (subscriptions s') n t \<longleftrightarrow> d |\<in>| subscribers (subscriptions s) n t)
    \<and> (calls s' ci = Some (d, tx) \<longleftrightarrow> calls s ci = Some (d, tx))
    \<and> (\<forall>svc. services s n = Some svc \<and> owner svc \<noteq> Some c \<longrightarrow>
         services s' n = Some (svc\<lparr>pending_calls :=
           filter (\<lambda>req. \<exists>ci m a d tx. req = Call ci n m a \<and> calls s ci = Some (d, tx) \<and> d \<noteq> c)
             (pending_calls svc)\<rparr>))
    \<and> es = []"
proof -
  have ok: "broker_ok s" using assms(1) by (rule reachable_ok)
  have keep: "filter (pending_alive (\<lambda>i. purge_calls c (calls s) i \<noteq> None)) (pending_calls svc) =
      filter (\<lambda>req. \<exists>ci m a d tx. req = Call ci n m a \<and> calls s ci = Some (d, tx) \<and> d \<noteq> c)
        (pending_calls svc)"
    if svc: "services s n = Some svc" for svc
  proof (rule filter_cong [OF refl])
    fix req assume "req \<in> set (pending_calls svc)"
    then obtain ci m a where req: "req = Call ci n m a"
      using service_okD(4) [OF broker_okD(4) [OF ok svc]] by blast
    show "pending_alive (\<lambda>i. purge_calls c (calls s) i \<noteq> None) req \<longleftrightarrow>
        (\<exists>ci m a d tx. req = Call ci n m a \<and> calls s ci = Some (d, tx) \<and> d \<noteq> c)"
      by (auto simp: req pending_alive_def)
  qed
  from assms(2,3) keep show ?thesis
    by (auto simp: run_cleanup purge_clients_def purge_objects_def subscribers_purge purge_services_def
        cleanup_service_def)
qed

theorem cleanup_leaves_others_alone_witness:
  "clients (fst (run_task (cleanup_client caller) demo_state)) worker = Some 1"
proof -
  have "clients demo_state worker = Some 1" by (simp add: demo_state_def)
  with cleanup_leaves_others_alone
    [OF demo_reachable [of demo_order] prod.collapse [symmetric] worker_caller(1)]
  show ?thesis by simp
qed

section \<open>Reader and writer\<close>

text \<open>The reader loop handles exactly the packets that arrived whole, one after the other in the
  order sent, also when the connection breaks inside a packet; then the connection is cleaned up.\<close>

theorem reader_handles_whole_packets_in_order:
  assumes "\<forall>d \<in> set ds. length d \<le> BUF_SIZE"
  shows "client_run cd it c \<lparr>avail = take k (concat (map frame ds)), ends = e\<rparr> =
    seq (history cd it (map (Packet c) (whole k ds))) (cleanup_client c)"
proof -
  have fits: "list_all packet_fits ds"
    using assms by (simp add: list_all_iff packet_fits_def)
  have each: "for_each (dispatch cd it c) bufs = history cd it (map (Packet c) bufs)" for bufs
    by (induction bufs) (simp_all add: history.simps)
  from take_concat_frames [OF fits, of k e] show ?thesis
    by (simp add: client_run_def reader_loop_eq each)
qed

theorem reader_handles_whole_packets_in_order_witness:
  "client_run demo_codec demo_order worker \<lparr>avail = take 8 (concat (map frame [[2], [3]])), ends = None\<rparr> =
    seq (history demo_codec demo_order [Packet worker [2]]) (cleanup_client worker)"
  using reader_handles_whole_packets_in_order [of "[[2], [3]]" demo_codec demo_order worker 8 None]
  by (simp add: BUF_SIZE_eq)

text \<open>The payloads of the messages that \<open>write_packet\<close> accepts, up to the first that is too long.\<close>

fun payloads :: "ClientMsg list \<Rightarrow> bytes list" where
  "payloads [] = []"
| "payloads (Outgoing b # ms) = (if packet_fits b then b # payloads ms else [])"
| "payloads (ShutdownMsg # ms) = []"

lemma payloads_fit: "list_all packet_fits (payloads ms)"
  by (induction ms rule: payloads.induct) simp_all

text \<open>The bytes that a healthy connection carries for a list of messages.\<close>

definition wire_of :: "ClientMsg list \<Rightarrow> bytes" where
  "wire_of ms = concat (map frame (payloads ms))"

lemma wire_of_simps [simp]:
  "wire_of [] = []"
  "wire_of (Outgoing b # ms) = (if packet_fits b then frame b @ wire_of ms else [])"
  "wire_of (ShutdownMsg # ms) = []"
  by (simp_all add: wire_of_def)

lemma wire_of_take: "prefix (wire_of (take n ms)) (wire_of ms)"
proof (induction ms arbitrary: n)
  case (Cons m ms)
  then show ?case by (cases n; cases m) simp_all
qed simp

lemma write_packet_sent:
  assumes "write_packet w b = (r, w')" "flush_err w = None"
  shows "prefix (sent w') (sent w @ wire_of (Outgoing b # ms))"
proof (cases r)
  case None
  with assms(1) write_packet_None [of w b w'] show ?thesis by simp
next
  case (Some e)
  obtain k where "sent w' = sent w @ take k (frame b)"
    using failed_write_prefix [OF assms(1) [unfolded Some] assms(2)] by blast
  moreover have "\<not> packet_fits b \<Longrightarrow> w' = w"
    using assms(1) by (auto simp: write_packet_def packet_fits_def)
  ultimately show ?thesis
    by (auto simp: take_is_prefix intro: prefix_prefix)
qed

lemma writer_loop_sent:
  assumes "flush_err w = None" "writer_loop w ms = (w', running)"
  shows "prefix (sent w') (sent w @ wire_of ms) \<and>
    (running \<longrightarrow> sent w' = sent w @ wire_of ms \<and> (\<forall>ms'. wire_of (ms @ ms') = wire_of ms @ wire_of ms'))"
  using assms
proof (induction w ms rule: writer_loop.induct)
  case (3 w b msgs)
  obtain r w1 where wp: "write_packet w b = (r, w1)" by force
  show ?case
  proof (cases r)
    case None
    note ok = write_packet_None [OF wp [unfolded None]]
    from 3 wp None ok show ?thesis by simp
  next
    case (Some e)
    with 3(3) wp have "w' = w1" "\<not> running" by simp_all
    with write_packet_sent [OF wp 3(2)] show ?thesis by simp
  qed
qed simp_all

lemma writer_select_sent:
  assumes "flush_err w = None"
  shows "prefix (sent (writer_select sd w ms)) (sent w @ wire_of ms)"
proof (cases sd)
  case None
  with writer_loop_sent [OF assms prod.collapse [symmetric], of ms] show ?thesis
    by (simp add: writer_select_def)
next
  case (Some p)
  obtain n j where p: "p = (n, j)" by force
  obtain w1 running where loop: "writer_loop w (take n ms) = (w1, running)" by force
  note w1 = writer_loop_sent [OF assms loop]
  show ?thesis
  proof (cases "running \<and> n < length ms")
    case False
    have "prefix (sent w1) (sent w @ wire_of ms)"
      using w1 wire_of_take [of n ms] by (meson prefix_order.trans same_prefix_prefix)
    with False Some p loop show ?thesis by (auto simp: writer_select_def)
  next
    case True
    then have ms: "ms = take n ms @ ms ! n # drop (Suc n) ms" by (simp add: id_take_nth_drop)
    have wire: "sent w1 @ wire_of (ms ! n # drop (Suc n) ms) = sent w @ wire_of ms"
      using w1 True ms by (metis append.assoc)
    have "prefix (sent (writer_select sd w ms)) (sent w1 @ wire_of (ms ! n # drop (Suc n) ms))"
    proof (cases "ms ! n")
      case (Outgoing b)
      obtain i where "sent (snd (write_all (take j (frame b)) w1)) = sent w1 @ take i (take j (frame b))"
        using write_all_prefix by blast
      with Outgoing Some p loop True show ?thesis
        by (auto simp: writer_select_def take_is_prefix intro: prefix_prefix)
    qed (use Some p loop True in \<open>simp add: writer_select_def\<close>)
    then show ?thesis by (simp only: wire)
  qed
qed

lemma writer_loop_healthy:
  "room w = None \<Longrightarrow> flush_err w = None \<Longrightarrow> sent (fst (writer_loop w ms)) = sent w @ wire_of ms"
proof (induction w ms rule: writer_loop.induct)
  case (3 w b msgs)
  show ?case
  proof (cases "packet_fits b")
    case True
    with 3 show ?thesis by (simp add: write_packet_unlimited packet_fits_def)
  qed (simp add: write_packet_def packet_fits_def)
qed simp_all

text \<open>Whenever the writer stops, because the connection breaks, because a message is too long, or
  because the reader's shutdown signal wins in the middle of a write, the peer reads a prefix of
  the messages sent to it, in order and whole; on a healthy connection without shutdown it reads
  all of them up to the first that is too long.\<close>

theorem peer_reads_prefix_of_messages:
  assumes "flush_err w = None" "sent w = []"
  shows "read_all \<lparr>avail = sent (writer_select sd w ms), ends = e\<rparr> =
      (whole (length (sent (writer_select sd w ms))) (payloads ms), end_error e)
    \<and> (sd = None \<and> room w = None \<longrightarrow>
        whole (length (sent (writer_select sd w ms))) (payloads ms) = payloads ms)"
proof -
  from writer_select_sent [OF assms(1), of sd ms] assms(2)
  have "prefix (sent (writer_select sd w ms)) (concat (map frame (payloads ms)))"
    by (simp add: wire_of_def)
  then have "sent (writer_select sd w ms) =
      take (length (sent (writer_select sd w ms))) (concat (map frame (payloads ms)))"
    by (metis append_eq_conv_conj prefix_def)
  moreover have "sent (writer_select sd w ms) = concat (map frame (payloads ms))" if "sd = None" "room w = None"
    using that assms writer_loop_healthy [of w ms] by (simp add: writer_select_def wire_of_def)
  ultimately show ?thesis
    using take_concat_frames [OF payloads_fit, of "length (sent (writer_select sd w ms))" ms e] by simp
qed

theorem peer_reads_prefix_of_messages_witness:
  "read_all \<lparr>avail = sent (writer_select (Some (1, 3)) \<lparr>sent = [], room = None, flush_err = None\<rparr>
        [Outgoing [1], Outgoing [2, 3]]), ends = None\<rparr> = ([[1]], eof_error)"
  using peer_reads_prefix_of_messages
    [of "\<lparr>sent = [], room = None, flush_err = None\<rparr>" "Some (1, 3)" "[Outgoing [1], Outgoing [2, 3]]" None]
  by (simp add: packet_fits_def BUF_SIZE_eq end_error_def writer_select_def write_packet_def write_all_def frame_def)

end
