(* ===== verification/Locking.thy ===== *)
theory Locking
  imports Lifecycle
begin

text \<open>
  The lock order that \<^verbatim>\<open>src/src/broker.rs\<close> documents (clients, objects, subscriptions, calls,
  services; no lock across an await that can wait for a client), as a predicate on tasks, and
  which handlers follow it.
\<close>

section \<open>Discipline\<close>

text \<open>
  \<open>balanced fin t held\<close>: started with the guards \<open>held\<close>, the task never takes a mutex it holds, drops
  only guards it has and ends with the guards \<open>fin\<close>. \<open>disciplined P t held\<close> adds the documented order and that
  no guard is held while sending on a channel, in all states that satisfy \<open>P\<close>, which the task
  itself maintains.
\<close>

primrec balanced :: "mutex list \<Rightarrow> task \<Rightarrow> mutex list \<Rightarrow> bool" where
  "balanced fin Done held \<longleftrightarrow> held = fin"
| "balanced fin (Lock m t) held \<longleftrightarrow> m \<notin> set held \<and> balanced fin t (m # held)"
| "balanced fin (Unlock m t) held \<longleftrightarrow> m \<in> set held \<and> balanced fin t (remove1 m held)"
| "balanced fin (Sync f) held \<longleftrightarrow> (\<forall>s. (\<lambda>(s', b). b held) (map_prod id (balanced fin) (f s)))"
| "balanced fin (Send tx m t) held \<longleftrightarrow> balanced fin t held"
| "balanced fin (Spawn c t) held \<longleftrightarrow> balanced fin t held"

primrec disciplined :: "(ServerState \<Rightarrow> bool) \<Rightarrow> task \<Rightarrow> mutex list \<Rightarrow> bool" where
  "disciplined P Done held \<longleftrightarrow> held = []"
| "disciplined P (Lock m t) held \<longleftrightarrow> (\<forall>h \<in> set held. h < m) \<and> disciplined P t (m # held)"
| "disciplined P (Unlock m t) held \<longleftrightarrow> m \<in> set held \<and> disciplined P t (remove1 m held)"
| "disciplined P (Sync f) held \<longleftrightarrow>
     (\<forall>s. P s \<longrightarrow> (\<lambda>(s', b). P s' \<and> b held) (map_prod id (disciplined P) (f s)))"
| "disciplined P (Send tx m t) held \<longleftrightarrow> held = [] \<and> disciplined P t []"
| "disciplined P (Spawn c t) held \<longleftrightarrow> disciplined P t held"

lemma balanced_Sync [simp]: "balanced fin (Sync f) held \<longleftrightarrow> (\<forall>s. balanced fin (snd (f s)) held)"
  by (simp add: split_beta)

lemma disciplined_Sync [simp]:
  "disciplined P (Sync f) held \<longleftrightarrow> (\<forall>s. P s \<longrightarrow> P (fst (f s)) \<and> disciplined P (snd (f s)) held)"
  by (simp add: split_beta)

declare balanced.simps(4) [simp del] disciplined.simps(4) [simp del]

lemma balanced_seq: "balanced mid t held \<Longrightarrow> balanced fin k mid \<Longrightarrow> balanced fin (seq t k) held"
  by (induction t arbitrary: held rule: task_induct) auto

lemma disciplined_seq: "disciplined P t held \<Longrightarrow> disciplined P k [] \<Longrightarrow> disciplined P (seq t k) held"
  by (induction t arbitrary: held rule: task_induct) auto

lemma balanced_with_lock [simp]: "balanced fin (with_lock m f) held \<longleftrightarrow> m \<notin> set held \<and> (\<forall>s. balanced fin (snd (f s)) held)"
  by (simp add: with_lock_def split_beta)

lemma disciplined_with_lock [simp]:
  "disciplined P (with_lock m f) held \<longleftrightarrow>
     (\<forall>h \<in> set held. h < m) \<and> (\<forall>s. P s \<longrightarrow> P (fst (f s)) \<and> disciplined P (snd (f s)) held)"
  by (simp add: with_lock_def split_beta)

lemma balanced_for_each: "(\<And>x. x \<in> set xs \<Longrightarrow> balanced held (body x) held) \<Longrightarrow> balanced held (for_each body xs) held"
  by (induction xs) (auto intro: balanced_seq)

lemma disciplined_for_each:
  "(\<And>x. x \<in> set xs \<Longrightarrow> disciplined P (body x) []) \<Longrightarrow> disciplined P (for_each body xs) []"
  by (induction xs) (auto intro: disciplined_seq)

section \<open>The handlers\<close>

lemma balanced_send_to_client: "Clients \<notin> set held \<Longrightarrow> balanced held (send_to_client cid ser) held"
  by (simp add: send_to_client_def split: option.split)

lemma disciplined_send_to_client: "disciplined P (send_to_client cid ser) []"
  by (simp add: send_to_client_def split: option.split)

lemma balanced_call_activate: "balanced [] (call_activate cd ci n m a c) []"
  by (auto simp: call_activate_def split: option.split ServiceState.split
      intro!: balanced_seq [OF balanced_send_to_client])

lemma balanced_handle_call: "balanced [] (handle_call cd ci n m a c) []"
  by (auto simp: handle_call_def Let_def split: option.split
      intro!: balanced_seq [of "[]"] balanced_send_to_client balanced_call_activate)

lemma balanced_dispatch: "balanced [] (dispatch cd it c buf) []"
proof (cases "decode_packet cd buf")
  case (InRequest req)
  then show ?thesis
    by (cases req)
      (auto simp: dispatch_def handle_register_object_def handle_register_service_def handle_subscribe_def
        handle_publish_def handle_has_object_def Let_def split: option.split
        intro!: balanced_seq [of "[]"] balanced_for_each balanced_send_to_client balanced_handle_call)
next
  case (InResponse resp)
  then show ?thesis
    by (auto simp: dispatch_def handle_response_def forward_response_def split: option.split)
qed (simp add: dispatch_def)

lemma balanced_cleanup: "balanced [] (cleanup_client c) []"
  by (auto simp: cleanup_client_def Let_def intro!: balanced_seq [of "[]"])

lemma balanced_client_run: "balanced [] (client_run cd it c r) []"
  by (auto simp: client_run_def reader_loop_eq
      intro!: balanced_seq [of "[]"] balanced_for_each balanced_dispatch balanced_cleanup)

text \<open>The objects that the packets of a connection call, and the states that know them as services.\<close>

definition called_objects :: "codec \<Rightarrow> bytes list \<Rightarrow> string list" where
  "called_objects cd bufs =
     List.map_filter (\<lambda>b. case decode_packet cd b of InRequest (Call _ n _ _) \<Rightarrow> Some n | _ \<Rightarrow> None) bufs"

definition services_known :: "string list \<Rightarrow> ServerState \<Rightarrow> bool" where
  "services_known ns s \<longleftrightarrow> list_all (\<lambda>n. services s n \<noteq> None) ns"

lemma services_known_iff: "services_known ns s \<longleftrightarrow> set ns \<subseteq> dom (services s)"
  by (auto simp: services_known_def list_all_iff)

lemma services_known_update [simp]:
  "services_known ns (s\<lparr>clients := x1\<rparr>) = services_known ns s"
  "services_known ns (s\<lparr>objects := x2\<rparr>) = services_known ns s"
  "services_known ns (s\<lparr>subscriptions := x3\<rparr>) = services_known ns s"
  "services_known ns (s\<lparr>calls := x4\<rparr>) = services_known ns s"
  "services_known ns s \<Longrightarrow> services_known ns (s\<lparr>services := (services s)(n \<mapsto> svc)\<rparr>)"
  "services_known ns (s\<lparr>services := purge_services active c (services s)\<rparr>) = services_known ns s"
  by (auto simp: services_known_def list_all_iff purge_services_def)

lemma disciplined_call_activate:
  assumes "n \<in> set ns"
  shows "disciplined (services_known ns) (call_activate cd ci n m a c) []"
proof -
  have "\<exists>svc. services s n = Some svc" if "services_known ns s" for s
    using that assms by (auto simp: services_known_iff)
  then show ?thesis
    by (force simp: call_activate_def split: option.split ServiceState.split)
qed

lemma disciplined_handle_call:
  "n \<in> set ns \<Longrightarrow> disciplined (services_known ns) (handle_call cd ci n m a c) []"
  by (auto simp: handle_call_def Let_def less_mutex_def split: option.split
      intro!: disciplined_seq disciplined_send_to_client disciplined_call_activate)

lemma disciplined_dispatch:
  assumes "set (called_objects cd [buf]) \<subseteq> set ns"
  shows "disciplined (services_known ns) (dispatch cd it c buf) []"
proof (cases "decode_packet cd buf")
  case (InRequest req)
  with assms show ?thesis
    by (cases req)
      (auto simp: called_objects_def map_filter_simps dispatch_def handle_register_object_def
        handle_register_service_def handle_subscribe_def handle_publish_def handle_has_object_def Let_def
        split: option.split
        intro!: disciplined_seq disciplined_for_each disciplined_send_to_client disciplined_handle_call)
next
  case (InResponse resp)
  then show ?thesis
    by (auto simp: dispatch_def handle_response_def forward_response_def split: option.split)
qed (simp add: dispatch_def)

lemma disciplined_cleanup: "disciplined (services_known ns) (cleanup_client c) []"
  by (auto simp: cleanup_client_def Let_def less_mutex_def intro!: disciplined_seq)

lemma disciplined_client_run:
  assumes "set (called_objects cd (fst (read_all r))) \<subseteq> set ns"
  shows "disciplined (services_known ns) (client_run cd it c r) []"
proof -
  have "disciplined (services_known ns) (dispatch cd it c buf) []" if "buf \<in> set (fst (read_all r))" for buf
    using that assms
    by (intro disciplined_dispatch) (force simp: called_objects_def List.map_filter_def split: if_splits)
  then show ?thesis
    by (auto simp: client_run_def reader_loop_eq
        intro!: disciplined_seq disciplined_for_each disciplined_cleanup)
qed

text \<open>
  C22: the whole life of a connection, every handler its packets start and the cleanup at its end,
  takes the mutexes in the order that the code documents, never takes one it holds, releases all of
  them and holds none while it sends to a client, as long as the objects its packets call are known
  as services (a knowledge that the connection itself never destroys).
\<close>

theorem connection_follows_lock_order:
  "disciplined (services_known (called_objects cd (fst (read_all r)))) (client_run cd it c r) []"
  by (rule disciplined_client_run) simp

lemma disciplined_activate_iff:
  "disciplined (\<lambda>_. True) (call_activate cd ci n m a c) [] \<longleftrightarrow>
     resp_to_vec cd (no_such_object ci n) = None"
  (is "?d \<longleftrightarrow> ?none")
proof (cases "resp_to_vec cd (no_such_object ci n)")
  case None
  then show ?thesis
    by (auto simp: call_activate_def send_to_client_def split: option.split ServiceState.split)
next
  case (Some b)
  then have "\<not> ?d"
    by (auto simp: call_activate_def send_to_client_def seq_with_lock less_mutex_def empty_state_def
        intro!: exI [of _ "empty_state Map.empty"])
  with Some show ?thesis by simp
qed

text \<open>
  Without that knowledge the documented order fails: the handler of a call breaks it (it takes
  \<open>clients\<close> below \<open>services\<close> and sends with the services guard held) exactly when it has an answer
  "No such object" to send.
\<close>

theorem unknown_object_breaks_lock_order:
  "disciplined (\<lambda>_. True) (handle_call cd ci n m a c) [] \<longleftrightarrow>
     resp_to_vec cd (no_such_object ci n) = None"
proof
  let ?s = "(empty_state Map.empty)\<lparr>clients := [c \<mapsto> 0]\<rparr>"
  assume "disciplined (\<lambda>_. True) (handle_call cd ci n m a c) []"
  then have "disciplined (\<lambda>_. True) (call_activate cd ci n m a c) []"
    by (auto simp: handle_call_def Let_def seq_with_lock empty_state_def dest!: spec [of _ ?s])
  then show "resp_to_vec cd (no_such_object ci n) = None"
    by (simp add: disciplined_activate_iff)
next
  assume "resp_to_vec cd (no_such_object ci n) = None"
  then show "disciplined (\<lambda>_. True) (handle_call cd ci n m a c) []"
    by (auto simp: handle_call_def Let_def less_mutex_def disciplined_activate_iff split: option.split
        intro!: disciplined_seq disciplined_send_to_client)
qed

end
