(* ===== verification/Pool.thy ===== *)
theory Pool
  imports Locking "HOL-Library.Multiset"
begin

text \<open>
  The broker as concurrent tasks. A pool holds the shared maps, who holds each mutex, the tasks that
  are still to run, the channel of each connection and whether its writer still runs. A move advances
  one task by one piece of uninterrupted code, or lets a writer take a message, or ends a writer, or
  drops the channel of a connection that is over. The scheduler of the runtime is the list of moves.
  A pool allows more than the code does: a writer may end, or go on, at any time, it writes packets of
  any size, and the cleanup does not wait for it. What is proved of every schedule of a pool holds of the
  code's schedules all the same; theory \<^verbatim>\<open>Connections\<close> keeps to the order of \<open>run\<close> where this matters.
\<close>

section \<open>Pools and moves\<close>

record pool =
  shared :: ServerState
  holder :: "mutex \<rightharpoonup> nat"
  jobs :: "task list"
  chans :: "ClientSender \<Rightarrow> ClientMsg channel"
  writing :: "ClientSender \<Rightarrow> bool"
  written :: "ClientSender \<Rightarrow> ClientMsg list"
  conn :: "nat \<Rightarrow> ClientSender"
  commands :: "(string \<times> string list) list"

text \<open>
  \<open>Run i\<close> advances task \<open>i\<close>; a task that waits for a mutex or for room in a channel cannot move.
  The receiver of a channel lives in \<open>run\<close> until the reader task and the cleanup are done, so
  ending the writer loop does not close the channel: only \<open>CloseConn\<close>, once the task of the
  connection is done, does.
\<close>

datatype move = Run nat | Deliver ClientSender | WriterEnds ClientSender | CloseConn nat

definition job_step :: "nat \<Rightarrow> pool \<Rightarrow> pool option" where
  "job_step i p =
     (case jobs p ! i of
        Done \<Rightarrow> None
      | Lock m t \<Rightarrow>
          (if holder p m = None then Some (p\<lparr>holder := (holder p)(m \<mapsto> i), jobs := (jobs p)[i := t]\<rparr>) else None)
      | Unlock m t \<Rightarrow>
          (if holder p m = Some i then Some (p\<lparr>holder := (holder p)(m := None), jobs := (jobs p)[i := t]\<rparr>) else None)
      | Sync f \<Rightarrow> (case f (shared p) of (s, t) \<Rightarrow> Some (p\<lparr>shared := s, jobs := (jobs p)[i := t]\<rparr>))
      | Send tx m t \<Rightarrow>
          (case try_send m (chans p tx) of
             (SendFull, _) \<Rightarrow> None
           | (_, c) \<Rightarrow> Some (p\<lparr>chans := (chans p)(tx := c), jobs := (jobs p)[i := t]\<rparr>))
      | Spawn c t \<Rightarrow> Some (p\<lparr>commands := commands p @ [c], jobs := (jobs p)[i := t]\<rparr>))"

fun pool_move :: "move \<Rightarrow> pool \<Rightarrow> pool option" where
  "pool_move (Run i) p = (if i < length (jobs p) then job_step i p else None)"
| "pool_move (Deliver tx) p =
     (if \<not> writing p tx then None
      else case recv (chans p tx) of
             None \<Rightarrow> None
           | Some (m, c) \<Rightarrow>
               Some (p\<lparr>chans := (chans p)(tx := c), written := (written p)(tx := written p tx @ [m])\<rparr>))"
| "pool_move (WriterEnds tx) p = Some (p\<lparr>writing := (writing p)(tx := False)\<rparr>)"
| "pool_move (CloseConn i) p =
     (if i < length (jobs p) \<and> jobs p ! i = Done \<and> \<not> writing p (conn p i)
      then Some (p\<lparr>chans := (chans p)(conn p i := close_rx (chans p (conn p i)))\<rparr>)
      else None)"

fun pool_run :: "move list \<Rightarrow> pool \<Rightarrow> pool option" where
  "pool_run [] p = Some p"
| "pool_run (mv # mvs) p = (case pool_move mv p of None \<Rightarrow> None | Some p' \<Rightarrow> pool_run mvs p')"

text \<open>A pool in which no mutex is taken, every channel is new and every writer runs.\<close>

definition start_pool :: "(nat \<Rightarrow> ClientSender) \<Rightarrow> ServerState \<Rightarrow> task list \<Rightarrow> pool" where
  "start_pool txs s ts =
     \<lparr>shared = s, holder = Map.empty, jobs = ts, chans = (\<lambda>_. new_channel client_channel_places),
      writing = (\<lambda>_. True), written = (\<lambda>_. []), conn = txs, commands = []\<rparr>"

text \<open>Everything that was accepted for a connection: written to its peer, or still in its channel.\<close>

definition accepted :: "pool \<Rightarrow> ClientSender \<Rightarrow> ClientMsg list" where
  "accepted p tx = written p tx @ queue (chans p tx)"

text \<open>What a move of a task does, by the form of the task.\<close>

lemma job_stepE [consumes 1, case_names Lock Unlock Sync Send Spawn]:
  assumes "job_step i p = Some p'"
  obtains m t where "jobs p ! i = Lock m t" "holder p m = None"
      "p' = p\<lparr>holder := (holder p)(m \<mapsto> i), jobs := (jobs p)[i := t]\<rparr>"
  | m t where "jobs p ! i = Unlock m t" "holder p m = Some i"
      "p' = p\<lparr>holder := (holder p)(m := None), jobs := (jobs p)[i := t]\<rparr>"
  | f where "jobs p ! i = Sync f"
      "p' = p\<lparr>shared := fst (f (shared p)), jobs := (jobs p)[i := snd (f (shared p))]\<rparr>"
  | tx m t where "jobs p ! i = Send tx m t" "fst (try_send m (chans p tx)) \<noteq> SendFull"
      "p' = p\<lparr>chans := (chans p)(tx := snd (try_send m (chans p tx))), jobs := (jobs p)[i := t]\<rparr>"
  | c t where "jobs p ! i = Spawn c t" "p' = p\<lparr>commands := commands p @ [c], jobs := (jobs p)[i := t]\<rparr>"
  using assms
  by (cases "jobs p ! i") (auto simp: job_step_def split_beta split: if_splits prod.splits send_result.splits)

lemma job_step_rx_open: "job_step i p = Some p' \<Longrightarrow> rx_open (chans p' tx) = rx_open (chans p tx)"
  by (elim job_stepE) (auto simp: try_send_def)

lemma pool_run_append: "pool_run (as @ bs) p = Option.bind (pool_run as p) (pool_run bs)"
  by (induction as arbitrary: p) (auto split: option.split)

lemma pool_run_snoc: "pool_run as p = Some p' \<Longrightarrow> pool_move mv p' = Some p'' \<Longrightarrow> pool_run (as @ [mv]) p = Some p''"
  by (simp add: pool_run_append)

lemma pool_run_trans: "pool_run as p = Some p' \<Longrightarrow> pool_run bs p' = Some p'' \<Longrightarrow> pool_run (as @ bs) p = Some p''"
  by (simp add: pool_run_append)

section \<open>Pools that follow the lock order\<close>

text \<open>
  \<open>follows P p\<close>: \<open>P\<close> holds of the shared maps and what each task has still to do is disciplined,
  started with the guards it holds now.
\<close>

definition holds_exactly :: "pool \<Rightarrow> nat \<Rightarrow> mutex list \<Rightarrow> bool" where
  "holds_exactly p i held \<longleftrightarrow> distinct held \<and> set held = {m. holder p m = Some i}"

definition follows :: "(ServerState \<Rightarrow> bool) \<Rightarrow> pool \<Rightarrow> bool" where
  "follows P p \<longleftrightarrow>
     P (shared p) \<and> (\<forall>m i. holder p m = Some i \<longrightarrow> i < length (jobs p)) \<and>
     (\<forall>i < length (jobs p). \<exists>held. holds_exactly p i held \<and> disciplined P (jobs p ! i) held)"

definition has_places :: "pool \<Rightarrow> bool" where
  "has_places p \<longleftrightarrow> (\<forall>tx. 0 < places (chans p tx) \<and> length (queue (chans p tx)) \<le> places (chans p tx))"

lemma holds_exactly_same:
  "holder p' = holder p \<Longrightarrow> holds_exactly p' i held = holds_exactly p i held"
  by (simp add: holds_exactly_def)

lemma holds_none: "holder p = Map.empty \<Longrightarrow> holds_exactly p i held \<longleftrightarrow> held = []"
  by (auto simp: holds_exactly_def)

text \<open>One task moves: its own part and that of the others are told apart.\<close>

lemma followsI_update:
  assumes old: "follows P p" and i: "i < length (jobs p)"
    and P: "P (shared p')" and jobs: "jobs p' = (jobs p)[i := t]"
    and own: "holds_exactly p' i held" "disciplined P t held"
    and others: "\<And>j. j \<noteq> i \<Longrightarrow> {m. holder p' m = Some j} = {m. holder p m = Some j}"
  shows "follows P p'"
  unfolding follows_def
proof (intro conjI allI impI)
  show "P (shared p')" by (fact P)
next
  fix m j assume "holder p' m = Some j"
  with others [of j] old i show "j < length (jobs p')"
    unfolding follows_def jobs by (cases "j = i") auto
next
  fix j assume j: "j < length (jobs p')"
  show "\<exists>held. holds_exactly p' j held \<and> disciplined P (jobs p' ! j) held"
  proof (cases "j = i")
    case True
    with own i show ?thesis by (auto simp: jobs)
  next
    case False
    with old j others [OF False] show ?thesis
      by (auto simp: follows_def jobs holds_exactly_def)
  qed
qed

lemma followsD:
  assumes "follows P p" "i < length (jobs p)"
  obtains held where "holds_exactly p i held" "disciplined P (jobs p ! i) held"
  using assms by (auto simp: follows_def)

lemma follows_job_step:
  assumes f: "follows P p" and i: "i < length (jobs p)" and step: "job_step i p = Some p'"
  shows "follows P p'"
proof -
  obtain held where held: "holds_exactly p i held" and d: "disciplined P (jobs p ! i) held"
    using f i by (rule followsD)
  from f have P: "P (shared p)" by (simp add: follows_def)
  from step show ?thesis
  proof (cases rule: job_stepE)
    case (Lock m t)
    then have "holds_exactly p' i (m # held)"
      using held by (auto simp: holds_exactly_def)
    with f i P d Lock show ?thesis
      by (intro followsI_update [where p' = p' and t = t and held = "m # held"]) auto
  next
    case (Unlock m t)
    then have "holds_exactly p' i (remove1 m held)"
      using held by (auto simp: holds_exactly_def)
    with f i P d Unlock show ?thesis
      by (intro followsI_update [where p' = p' and t = t and held = "remove1 m held"]) auto
  next
    case (Sync g)
    with f i P d held show ?thesis
      by (intro followsI_update [where p' = p' and held = held]) (auto simp: holds_exactly_def)
  next
    case (Send tx m t)
    with f i P d held show ?thesis
      by (intro followsI_update [where p' = p' and t = t and held = held]) (auto simp: holds_exactly_def)
  next
    case (Spawn c t)
    with f i P d held show ?thesis
      by (intro followsI_update [where p' = p' and t = t and held = held]) (auto simp: holds_exactly_def)
  qed
qed

lemma follows_move: "follows P p \<Longrightarrow> pool_move mv p = Some p' \<Longrightarrow> follows P p'"
proof (cases mv)
  case (Run i)
  then show "follows P p \<Longrightarrow> pool_move mv p = Some p' \<Longrightarrow> follows P p'"
    by (auto intro: follows_job_step split: if_splits)
qed (auto simp: follows_def holds_exactly_def split: if_splits option.splits)

text \<open>The pools of disciplined tasks are a system with an invariant, in the sense of theory \<^verbatim>\<open>Broker\<close>.\<close>

definition fresh_pool :: "(ServerState \<Rightarrow> bool) \<Rightarrow> pool \<Rightarrow> bool" where
  "fresh_pool P p \<longleftrightarrow>
     P (shared p) \<and> holder p = Map.empty \<and> list_all (\<lambda>t. disciplined P t []) (jobs p)"

definition pool_step :: "pool \<Rightarrow> pool \<Rightarrow> bool" where
  "pool_step p p' \<longleftrightarrow> (\<exists>mv. pool_move mv p = Some p')"

interpretation lock_order: invariant_system "fresh_pool P" pool_step "follows P" for P
proof unfold_locales
  show "fresh_pool P p \<Longrightarrow> follows P p" for p
    by (auto simp: fresh_pool_def follows_def list_all_length holds_none)
  show "pool_step p p' \<Longrightarrow> follows P p \<Longrightarrow> follows P p'" for p p'
    by (auto simp: pool_step_def intro: follows_move)
qed

lemma pool_run_steps: "pool_run mvs p = Some p' \<Longrightarrow> pool_step\<^sup>*\<^sup>* p p'"
proof (induction mvs arbitrary: p)
  case (Cons mv mvs)
  then obtain q where "pool_move mv p = Some q" "pool_run mvs q = Some p'"
    by (auto split: option.splits)
  with Cons.IH show ?case
    by (metis converse_rtranclp_into_rtranclp pool_step_def)
qed simp

lemma follows_run: "fresh_pool P p \<Longrightarrow> pool_run mvs p = Some p' \<Longrightarrow> follows P p'"
  by (blast intro: lock_order.good_reachable pool_run_steps)

section \<open>No deadlock\<close>

text \<open>
  A task that waits for a mutex waits for a task that holds it, which can only wait for a greater one:
  the holder of the greatest mutex that is held can move.
\<close>

lemma greatest_holder_moves:
  assumes f: "follows P p" and held: "holder p m = Some i" and max: "\<And>m'. m < m' \<Longrightarrow> holder p m' = None"
  shows "job_step i p \<noteq> None"
proof -
  have i: "i < length (jobs p)" using f held by (auto simp: follows_def)
  then obtain hs where hs: "holds_exactly p i hs" and d: "disciplined P (jobs p ! i) hs"
    by (rule followsD [OF f])
  have "m \<in> set hs" using hs held by (simp add: holds_exactly_def)
  then show ?thesis
    using d max hs by (cases "jobs p ! i") (auto simp: job_step_def holds_exactly_def split: prod.split)
qed

lemma mutex_UNIV: "(UNIV :: mutex set) = {Clients, Objects, Subscriptions, Calls, ServicesM}"
  using mutex.exhaust by blast

lemma some_task_moves:
  assumes f: "follows P p" and held: "holder p \<noteq> Map.empty"
  shows "\<exists>i < length (jobs p). job_step i p \<noteq> None"
proof -
  let ?H = "{m. holder p m \<noteq> None}"
  have fin: "finite ?H" by (rule finite_subset [OF subset_UNIV]) (simp add: mutex_UNIV)
  from held have ne: "?H \<noteq> {}" by auto
  define m where "m = Max ?H"
  from Max_in [OF fin ne] obtain i where i: "holder p m = Some i" by (auto simp: m_def)
  have "holder p m' = None" if "m < m'" for m'
    using that Max_ge [OF fin, of m'] leD by (fastforce simp: m_def)
  then have "job_step i p \<noteq> None" by (rule greatest_holder_moves [OF f i])
  with f i show ?thesis by (auto simp: follows_def)
qed

lemma task_waits_only_to_send:
  assumes f: "follows P p" and i: "i < length (jobs p)" and "holder p = Map.empty" and "job_step i p = None"
  shows "jobs p ! i = Done \<or>
     (\<exists>tx m t. jobs p ! i = Send tx m t \<and> rx_open (chans p tx) \<and> places (chans p tx) \<le> length (queue (chans p tx)))"
proof -
  from followsD [OF f i] assms(3) have "disciplined P (jobs p ! i) []" by (metis holds_none)
  then show ?thesis
    using assms(3,4)
    by (cases "jobs p ! i") (auto simp: job_step_def try_send_def split: prod.splits send_result.splits if_splits)
qed

section \<open>Progress\<close>

text \<open>The pieces of a task that remain after one of its moves; tasks are finite, if infinitely branching.\<close>

definition next_task :: "(task \<times> task) set" where
  "next_task =
     {(t', t). (\<exists>m. t = Lock m t') \<or> (\<exists>m. t = Unlock m t') \<or> (\<exists>f s. t = Sync f \<and> t' = snd (f s)) \<or>
        (\<exists>tx m. t = Send tx m t') \<or> (\<exists>c. t = Spawn c t')}"

lemma wf_next_task: "wf next_task"
proof (rule wfUNIVI)
  fix P and t :: task
  assume step: "\<forall>t. (\<forall>t'. (t', t) \<in> next_task \<longrightarrow> P t') \<longrightarrow> P t"
  show "P t"
    by (induction t rule: task_induct; rule step [rule_format]) (auto simp: next_task_def)
qed

lemma job_step_next:
  "job_step i p = Some p' \<Longrightarrow> \<exists>t. jobs p' = (jobs p)[i := t] \<and> (t, jobs p ! i) \<in> next_task"
proof (cases "jobs p ! i")
  case (Sync f)
  then show "job_step i p = Some p' \<Longrightarrow> ?thesis"
    by (intro exI [of _ "snd (f (shared p))"]) (auto simp: job_step_def next_task_def split_beta)
qed (auto simp: job_step_def next_task_def split: if_splits prod.splits send_result.splits)

lemma job_step_frame:
  "job_step i p = Some p' \<Longrightarrow> writing p' = writing p \<and> conn p' = conn p \<and> written p' = written p \<and> (has_places p \<longrightarrow> has_places p')"
  by (cases "jobs p ! i")
    (auto simp: job_step_def try_send_def has_places_def split: if_splits prod.splits send_result.splits)

lemma pool_move_length: "pool_move mv p = Some p' \<Longrightarrow> length (jobs p') = length (jobs p) \<and> conn p' = conn p"
  by (cases mv) (auto dest: job_step_next job_step_frame split: if_splits option.splits)

lemma pool_run_length: "pool_run mvs p = Some p' \<Longrightarrow> length (jobs p') = length (jobs p) \<and> conn p' = conn p"
  by (induction mvs arbitrary: p) (auto dest: pool_move_length split: option.splits)

lemma jobs_decrease:
  assumes "i < length ts" and "(t, ts ! i) \<in> next_task"
  shows "(mset (ts[i := t]), mset ts) \<in> mult1 next_task"
proof -
  have "mset ts = add_mset (ts ! i) (mset ts - {#ts ! i#})"
    using assms(1) by simp
  moreover have "mset (ts[i := t]) = (mset ts - {#ts ! i#}) + {#t#}"
    using assms(1) by (simp add: mset_update)
  ultimately show ?thesis
    using assms(2) unfolding mult1_def mem_Collect_eq split_conv
    by (intro exI conjI) (assumption+, simp)
qed

definition ordinary :: "move \<Rightarrow> bool" where
  "ordinary mv \<longleftrightarrow> (case mv of Run _ \<Rightarrow> True | Deliver _ \<Rightarrow> True | _ \<Rightarrow> False)"

lemma ordinary_simps [simp]:
  "ordinary (Run i)" "ordinary (Deliver tx)" "\<not> ordinary (WriterEnds tx)" "\<not> ordinary (CloseConn i)"
  by (simp_all add: ordinary_def)

text \<open>Whatever the tasks wait for, running a task and letting writers write leads one step further.\<close>

lemma unfinished_moves:
  assumes f: "follows P p" and r: "has_places p" and w: "\<forall>tx. writing p tx" and t: "t \<in> set (jobs p)" "t \<noteq> Done"
  shows "\<exists>mvs p'. list_all ordinary mvs \<and> pool_run mvs p = Some p' \<and> follows P p' \<and> has_places p' \<and>
     (\<forall>tx. writing p' tx) \<and> (mset (jobs p'), mset (jobs p)) \<in> mult1 next_task"
proof -
  have step: ?thesis
    if pre: "list_all ordinary mvs" "pool_run mvs p = Some q" "follows P q" "has_places q" "\<forall>tx. writing q tx" "jobs q = jobs p"
      and i: "i < length (jobs p)" and "job_step i q \<noteq> None" for mvs q i
  proof -
    from \<open>job_step i q \<noteq> None\<close> obtain p' where p': "job_step i q = Some p'" by auto
    have "pool_run (mvs @ [Run i]) p = Some p'"
      using pre i p' by (intro pool_run_snoc) auto
    moreover have "follows P p'"
      using pre i p' by (auto intro: follows_job_step)
    ultimately show ?thesis
      using job_step_next [OF p'] job_step_frame [OF p'] pre i jobs_decrease [OF i]
      by (intro exI [of _ "mvs @ [Run i]"] exI [of _ p']) auto
  qed
  show ?thesis
  proof (cases "holder p = Map.empty")
    case False
    from some_task_moves [OF f this] step [of "[]" p] f r w show ?thesis by auto
  next
    case True
    from t obtain i where i: "i < length (jobs p)" "jobs p ! i \<noteq> Done" by (auto simp: in_set_conv_nth)
    show ?thesis
    proof (cases "job_step i p")
      case (Some p')
      with step [of "[]" p i] f r w i show ?thesis by simp
    next
      case None
      with task_waits_only_to_send [OF f _ True] i obtain tx m t' where
        send: "jobs p ! i = Send tx m t'" and full: "places (chans p tx) \<le> length (queue (chans p tx))"
        by blast
      from r full have "0 < length (queue (chans p tx))"
        unfolding has_places_def by (meson order_less_le_trans)
      then obtain x xs where q: "queue (chans p tx) = x # xs"
        by (cases "queue (chans p tx)") auto
      from r q have free: "length xs < places (chans p tx)"
        unfolding has_places_def by (metis Suc_le_lessD length_Cons)
      define p1 where "p1 = p\<lparr>chans := (chans p)(tx := (chans p tx)\<lparr>queue := xs\<rparr>),
                               written := (written p)(tx := written p tx @ [x])\<rparr>"
      have p1: "pool_move (Deliver tx) p = Some p1"
        using w q by (simp add: recv_def p1_def)
      show ?thesis
      proof (rule step [of "[Deliver tx]" p1 i])
        show "job_step i p1 \<noteq> None"
          using send free by (simp add: job_step_def p1_def try_send_def)
      qed (use p1 f r w i follows_move [OF f p1] free in \<open>auto simp: p1_def has_places_def\<close>)
    qed
  qed
qed

lemma pool_drains:
  assumes "follows P p" and "has_places p" and "\<forall>tx. writing p tx"
  shows "\<exists>mvs p'. list_all ordinary mvs \<and> pool_run mvs p = Some p' \<and> (\<forall>t \<in> set (jobs p'). t = Done)"
  using assms
proof (induction "mset (jobs p)" arbitrary: p rule: wf_induct_rule [OF wf_mult1 [OF wf_next_task]])
  case 1
  show ?case
  proof (cases "\<forall>t \<in> set (jobs p). t = Done")
    case True
    then show ?thesis by (intro exI [of _ "[]"]) simp
  next
    case False
    then obtain mvs q where q: "list_all ordinary mvs" "pool_run mvs p = Some q" "follows P q" "has_places q"
        "\<forall>tx. writing q tx" "(mset (jobs q), mset (jobs p)) \<in> mult1 next_task"
      using unfinished_moves [OF 1(2-4)] by blast
    from 1(1) [OF q(6,3,4,5)] obtain mvs' p' where "list_all ordinary mvs'" "pool_run mvs' q = Some p'"
        "\<forall>t \<in> set (jobs p'). t = Done" by blast
    with q show ?thesis
      by (intro exI [of _ "mvs @ mvs'"] exI [of _ p']) (simp add: pool_run_trans)
  qed
qed

section \<open>A task alone\<close>

text \<open>
  \<open>run_task\<close> is a schedule of the pool: with no mutex taken by another task, the moves of one task
  leave the shared maps and the messages that \<open>run_task\<close> computes.
\<close>

definition sent_to :: "ClientSender \<Rightarrow> effect list \<Rightarrow> ClientMsg list" where
  "sent_to tx es = List.map_filter (\<lambda>e. case e of Sent tx' m \<Rightarrow> if tx' = tx then Some m else None | Spawned _ \<Rightarrow> None) es"

definition spawned :: "effect list \<Rightarrow> (string \<times> string list) list" where
  "spawned es = List.map_filter (\<lambda>e. case e of Sent _ _ \<Rightarrow> None | Spawned c \<Rightarrow> Some c) es"

lemma sent_to_simps [simp]:
  "sent_to tx [] = []" "sent_to tx (Spawned c # es) = sent_to tx es"
  "sent_to tx (Sent tx' m # es) = (if tx' = tx then m # sent_to tx es else sent_to tx es)"
  "sent_to tx (es @ es') = sent_to tx es @ sent_to tx es'"
  by (simp_all add: sent_to_def List.map_filter_def)

lemma spawned_simps [simp]:
  "spawned [] = []" "spawned (Spawned c # es) = c # spawned es" "spawned (Sent tx m # es) = spawned es"
  by (simp_all add: spawned_def List.map_filter_def)

definition enqueue :: "effect list \<Rightarrow> (ClientSender \<Rightarrow> ClientMsg channel) \<Rightarrow> ClientSender \<Rightarrow> ClientMsg channel" where
  "enqueue es cs tx =
     (if rx_open (cs tx) then (cs tx)\<lparr>queue := queue (cs tx) @ sent_to tx es\<rparr> else cs tx)"

definition fits :: "effect list \<Rightarrow> (ClientSender \<Rightarrow> ClientMsg channel) \<Rightarrow> bool" where
  "fits es cs \<longleftrightarrow> (\<forall>tx. length (queue (cs tx)) + length (sent_to tx es) \<le> places (cs tx))"

text \<open>The only guards in the pool are \<open>held\<close>, by task \<open>i\<close>.\<close>

definition alone :: "nat \<Rightarrow> mutex list \<Rightarrow> pool \<Rightarrow> bool" where
  "alone i held p \<longleftrightarrow> i < length (jobs p) \<and> distinct held \<and> holder p = (\<lambda>m. if m \<in> set held then Some i else None)"

lemma alone_step:
  assumes "alone i held p" and "jobs p ! i = t"
  shows "t = Lock m t1 \<Longrightarrow> m \<notin> set held \<Longrightarrow>
      job_step i p = Some (p\<lparr>holder := (holder p)(m \<mapsto> i), jobs := (jobs p)[i := t1]\<rparr>) \<and>
      alone i (m # held) (p\<lparr>holder := (holder p)(m \<mapsto> i), jobs := (jobs p)[i := t1]\<rparr>)"
    and "t = Unlock m t1 \<Longrightarrow> m \<in> set held \<Longrightarrow>
      job_step i p = Some (p\<lparr>holder := (holder p)(m := None), jobs := (jobs p)[i := t1]\<rparr>) \<and>
      alone i (remove1 m held) (p\<lparr>holder := (holder p)(m := None), jobs := (jobs p)[i := t1]\<rparr>)"
  using assms by (auto simp: alone_def job_step_def fun_eq_iff)

lemma fits_Sent:
  assumes "fits (Sent tx m # es) cs"
  shows "try_send m (cs tx) \<noteq> (SendFull, c)"
    and "fits es (cs(tx := snd (try_send m (cs tx))))"
    and "enqueue es (cs(tx := snd (try_send m (cs tx)))) = enqueue (Sent tx m # es) cs"
proof -
  from assms have le: "length (queue (cs tx)) + Suc (length (sent_to tx es)) \<le> places (cs tx)"
    by (auto simp: fits_def dest!: spec [of _ tx])
  then show "try_send m (cs tx) \<noteq> (SendFull, c)" by (simp add: try_send_def)
  have others: "length (queue (cs y)) + length (sent_to y es) \<le> places (cs y)" if "y \<noteq> tx" for y
    using assms that by (auto simp: fits_def dest!: spec [of _ y])
  show "fits es (cs(tx := snd (try_send m (cs tx))))"
    unfolding fits_def
  proof
    fix y
    show "length (queue ((cs(tx := snd (try_send m (cs tx)))) y)) + length (sent_to y es)
        \<le> places ((cs(tx := snd (try_send m (cs tx)))) y)"
      using le others [of y] by (simp add: try_send_def)
  qed
  from le show "enqueue es (cs(tx := snd (try_send m (cs tx)))) = enqueue (Sent tx m # es) cs"
    by (simp add: enqueue_def try_send_def fun_eq_iff)
qed

definition after :: "nat \<Rightarrow> task \<Rightarrow> task \<Rightarrow> pool \<Rightarrow> pool" where
  "after i t k p =
     p\<lparr>shared := fst (run_task t (shared p)), holder := Map.empty, jobs := (jobs p)[i := k],
       chans := enqueue (snd (run_task t (shared p))) (chans p),
       commands := commands p @ spawned (snd (run_task t (shared p)))\<rparr>"

definition runs_to :: "nat \<Rightarrow> pool \<Rightarrow> pool \<Rightarrow> bool" where
  "runs_to i p q \<longleftrightarrow> (\<exists>mvs. set mvs \<subseteq> {Run i} \<and> pool_run mvs p = Some q)"

lemma runs_to_refl: "runs_to i p p"
  unfolding runs_to_def by (rule exI [of _ "[]"]) simp

lemma runs_to_step:
  "job_step i p = Some q \<Longrightarrow> i < length (jobs p) \<Longrightarrow> runs_to i q r \<Longrightarrow> r = r' \<Longrightarrow> runs_to i p r'"
  unfolding runs_to_def by (elim exE, rule exI [of _ "Run i # mvs" for mvs]) auto

lemma runs_to_trans:
  assumes "runs_to i p q" "runs_to i q r"
  shows "runs_to i p r"
proof -
  from assms obtain as bs where "set as \<subseteq> {Run i}" "pool_run as p = Some q" "set bs \<subseteq> {Run i}" "pool_run bs q = Some r"
    by (auto simp: runs_to_def)
  then show ?thesis
    unfolding runs_to_def by (intro exI [of _ "as @ bs"]) (auto intro: pool_run_trans)
qed

lemma enqueue_simps [simp]:
  "enqueue [] cs = cs" "enqueue (Spawned c # es) cs = enqueue es cs"
  by (simp_all add: enqueue_def fun_eq_iff)

lemma run_alone:
  assumes "balanced [] t held" and "alone i held p" and "jobs p ! i = seq t k"
    and "fits (snd (run_task t (shared p))) (chans p)"
  shows "runs_to i p (after i t k p)"
  using assms
proof (induction t arbitrary: held p rule: task_induct)
  case Done
  then have "after i Done k p = p"
    by (cases p) (auto simp: alone_def after_def)
  then show ?case by (simp add: runs_to_refl)
next
  case (Lock m t)
  let ?q = "p\<lparr>holder := (holder p)(m \<mapsto> i), jobs := (jobs p)[i := seq t k]\<rparr>"
  have step: "job_step i p = Some ?q" "alone i (m # held) ?q"
    using alone_step(1) [OF Lock.prems(2), of "Lock m (seq t k)" m "seq t k"] Lock.prems by auto
  have i: "i < length (jobs p)" using Lock.prems by (simp add: alone_def)
  have "runs_to i ?q (after i t k ?q)"
    by (rule Lock.IH [OF _ step(2)]) (use Lock.prems i in auto)
  then show ?case
    by (rule runs_to_step [OF step(1) i]) (simp add: after_def)
next
  case (Unlock m t)
  let ?q = "p\<lparr>holder := (holder p)(m := None), jobs := (jobs p)[i := seq t k]\<rparr>"
  have step: "job_step i p = Some ?q" "alone i (remove1 m held) ?q"
    using alone_step(2) [OF Unlock.prems(2), of "Unlock m (seq t k)" m "seq t k"] Unlock.prems by auto
  have i: "i < length (jobs p)" using Unlock.prems by (simp add: alone_def)
  have "runs_to i ?q (after i t k ?q)"
    by (rule Unlock.IH [OF _ step(2)]) (use Unlock.prems i in auto)
  then show ?case
    by (rule runs_to_step [OF step(1) i]) (simp add: after_def)
next
  case (Sync f)
  let ?t = "snd (f (shared p))"
  let ?q = "p\<lparr>shared := fst (f (shared p)), jobs := (jobs p)[i := seq ?t k]\<rparr>"
  have i: "i < length (jobs p)" using Sync.prems by (simp add: alone_def)
  have step: "job_step i p = Some ?q" "alone i held ?q"
    using Sync.prems by (auto simp: job_step_def alone_def)
  have "runs_to i ?q (after i ?t k ?q)"
    by (rule Sync.IH [OF _ step(2)]) (use Sync.prems i in auto)
  then show ?case
    by (rule runs_to_step [OF step(1) i]) (simp add: after_def)
next
  case (Send tx m t)
  let ?es = "snd (run_task t (shared p))"
  let ?q = "p\<lparr>chans := (chans p)(tx := snd (try_send m (chans p tx))), jobs := (jobs p)[i := seq t k]\<rparr>"
  have i: "i < length (jobs p)" using Send.prems by (simp add: alone_def)
  from Send.prems have fits: "fits (Sent tx m # ?es) (chans p)" by (simp add: split_beta)
  have step: "job_step i p = Some ?q" "alone i held ?q"
    using Send.prems fits_Sent(1) [OF fits]
    by (auto simp: job_step_def alone_def split: prod.splits send_result.splits)
  have "runs_to i ?q (after i t k ?q)"
    by (rule Send.IH [OF _ step(2)]) (use Send.prems fits_Sent(2) [OF fits] i in \<open>auto simp: fun_upd_def\<close>)
  then show ?case
    by (rule runs_to_step [OF step(1) i]) (simp add: after_def split_beta fits_Sent(3) [OF fits])
next
  case (Spawn c t)
  let ?q = "p\<lparr>commands := commands p @ [c], jobs := (jobs p)[i := seq t k]\<rparr>"
  have i: "i < length (jobs p)" using Spawn.prems by (simp add: alone_def)
  have step: "job_step i p = Some ?q" "alone i held ?q"
    using Spawn.prems by (auto simp: job_step_def alone_def)
  have "runs_to i ?q (after i t k ?q)"
    by (rule Spawn.IH [OF _ step(2)]) (use Spawn.prems i in \<open>auto simp: fits_def split_beta\<close>)
  then show ?case
    by (rule runs_to_step [OF step(1) i]) (simp add: after_def split_beta)
qed

end
