(* ===== verification/Interleaving.thy ===== *)
theory Interleaving
  imports Pool Examples
begin

text \<open>
  What concurrency adds to the properties of single handlers: connections that follow the lock order
  can always get through, whatever was scheduled before; a history of events handled one after the other
  is one of the schedules; and a call that races with the cleanup of the object's owner can be lost.
\<close>

section \<open>Connections get through\<close>

definition client_jobs ::
    "codec \<Rightarrow> (ClientId fset \<Rightarrow> ClientId list) \<Rightarrow> (ClientId \<times> reader) list \<Rightarrow> task list" where
  "client_jobs cd it cs = map (\<lambda>(c, r). client_run cd it c r) cs"

definition all_called :: "codec \<Rightarrow> (ClientId \<times> reader) list \<Rightarrow> string list" where
  "all_called cd cs = concat (map (\<lambda>(c, r). called_objects cd (fst (read_all r))) cs)"

lemma fresh_client_jobs:
  "services_known (all_called cd cs) s \<Longrightarrow>
   fresh_pool (services_known (all_called cd cs)) (start_pool txs s (client_jobs cd it cs))"
  by (fastforce simp: fresh_pool_def start_pool_def client_jobs_def list_all_iff all_called_def
      intro!: disciplined_client_run)

lemma ordinary_run:
  "list_all ordinary mvs \<Longrightarrow> pool_run mvs p = Some p' \<Longrightarrow> has_places p \<Longrightarrow> \<forall>tx. writing p tx \<Longrightarrow>
   has_places p' \<and> (\<forall>tx. writing p' tx)"
proof (induction mvs arbitrary: p)
  case (Cons mv mvs)
  from Cons.prems obtain q where q: "pool_move mv p = Some q" "pool_run mvs q = Some p'"
    by (auto split: option.splits)
  have "has_places q \<and> (\<forall>tx. writing q tx)"
  proof (cases mv)
    case (Run i)
    with q Cons.prems show ?thesis by (auto dest: job_step_frame split: if_splits)
  next
    case (Deliver tx)
    with q Cons.prems show ?thesis
      by (fastforce simp: has_places_def recv_def split: if_splits option.splits list.splits
          dest: spec [of _ tx])
  qed (use Cons.prems in simp_all)
  with Cons.IH [OF _ q(2)] Cons.prems show ?case by simp
qed simp

text \<open>
  The tasks of a pool never deadlock while its writers run. Take any number of connections
  whose packets call only objects that are known as services, run them under any schedule of their
  tasks and writers, and stop anywhere: from there some schedule of tasks and writers finishes every
  connection, its last packet and its cleanup included.
\<close>

theorem connections_always_finish:
  assumes "services_known (all_called cd cs) s"
    and "list_all ordinary mvs" and "pool_run mvs (start_pool txs s (client_jobs cd it cs)) = Some p"
  shows "\<exists>mvs' p'. list_all ordinary mvs' \<and> pool_run mvs' p = Some p' \<and> jobs p' = replicate (length cs) Done"
proof -
  let ?p0 = "start_pool txs s (client_jobs cd it cs)"
  have "has_places ?p0 \<and> (\<forall>tx. writing ?p0 tx)"
    by (simp add: start_pool_def has_places_def new_channel_def client_channel_places_def)
  with assms have "has_places p" "\<forall>tx. writing p tx"
    using ordinary_run by blast+
  moreover have "follows (services_known (all_called cd cs)) p"
    using fresh_client_jobs [OF assms(1)] assms(3) by (rule follows_run)
  ultimately obtain mvs' p' where *: "list_all ordinary mvs'" "pool_run mvs' p = Some p'" "\<forall>t \<in> set (jobs p'). t = Done"
    using pool_drains by blast
  have "length (jobs p') = length cs"
    using pool_run_length [OF assms(3)] pool_run_length [OF *(2)] by (simp add: start_pool_def client_jobs_def)
  with * show ?thesis
    by (auto simp: list_eq_iff_nth_eq intro!: exI [of _ mvs'] exI [of _ p'])
qed

lemma demo_call_known:
  "services_known (all_called demo_codec [(caller, \<lparr>avail = concat (map frame [[1]]), ends = None\<rparr>)]) service_state"
proof -
  have "fst (read_all \<lparr>avail = concat (map frame [[1]]), ends = None\<rparr>) = [[1]]"
    using read_all_concat [of "[[1]]" "[]" None] by (simp add: read_all_empty packet_fits_def BUF_SIZE_eq)
  then show ?thesis
    by (simp add: all_called_def called_objects_def List.map_filter_def services_known_def service_state_def)
qed

theorem connections_always_finish_witness:
  "\<exists>mvs' p'. list_all ordinary mvs' \<and>
     pool_run mvs' (start_pool id service_state (client_jobs demo_codec demo_order
       [(caller, \<lparr>avail = concat (map frame [[1]]), ends = None\<rparr>)])) = Some p' \<and> jobs p' = [Done]"
  using connections_always_finish [OF demo_call_known, of "[]" id demo_order] by simp

section \<open>Handling events one after the other\<close>

lemma enqueue_append: "enqueue (as @ bs) cs = enqueue bs (enqueue as cs)"
  by (simp add: enqueue_def fun_eq_iff)

lemma fits_append:
  assumes "fits (as @ bs) cs"
  shows "fits as cs \<and> fits bs (enqueue as cs)"
proof -
  have le: "length (queue (cs tx)) + (length (sent_to tx as) + length (sent_to tx bs)) \<le> places (cs tx)" for tx
    using assms by (simp add: fits_def)
  have "length (queue (cs tx)) + length (sent_to tx as) \<le> places (cs tx)" for tx
    using le [of tx] by simp
  moreover have "length (queue (enqueue as cs tx)) + length (sent_to tx bs) \<le> places (enqueue as cs tx)" for tx
    using le [of tx] by (simp add: enqueue_def)
  ultimately show ?thesis by (simp add: fits_def)
qed

lemma spawned_append [simp]: "spawned (as @ bs) = spawned as @ spawned bs"
  by (simp add: spawned_def List.map_filter_def)

lemma balanced_event: "balanced [] (event_task cd it ev) []"
  by (cases ev) (auto simp: spawn_client_def intro: balanced_dispatch balanced_cleanup)

lemma serial_schedule:
  assumes "holder p = Map.empty" and "jobs p = ds @ map (event_task cd it) evs"
    and "fits (snd (run_task (history cd it evs) (shared p))) (chans p)"
  shows "\<exists>mvs. pool_run mvs p = Some
     (p\<lparr>shared := fst (run_task (history cd it evs) (shared p)), jobs := ds @ replicate (length evs) Done,
        chans := enqueue (snd (run_task (history cd it evs) (shared p))) (chans p),
        commands := commands p @ spawned (snd (run_task (history cd it evs) (shared p)))\<rparr>)"
  using assms
proof (induction evs arbitrary: p ds)
  case Nil
  then show ?case by (intro exI [of _ "[]"]) simp
next
  case (Cons ev evs)
  let ?t = "event_task cd it ev" and ?i = "length ds"
  let ?p1 = "after ?i ?t Done p"
  note fit = fits_append [OF Cons.prems(3) [unfolded history_Cons]]
  have "runs_to ?i p ?p1"
    by (rule run_alone [OF balanced_event]) (use Cons.prems fit in \<open>auto simp: alone_def\<close>)
  then obtain ms where ms: "pool_run ms p = Some ?p1" by (auto simp: runs_to_def)
  have p1: "holder ?p1 = Map.empty" "jobs ?p1 = (ds @ [Done]) @ map (event_task cd it) evs"
      "fits (snd (run_task (history cd it evs) (shared ?p1))) (chans ?p1)"
    using Cons.prems fit by (simp_all add: after_def)
  from Cons.IH [OF p1] obtain ms' where "pool_run ms' ?p1 = Some
     (?p1\<lparr>shared := fst (run_task (history cd it evs) (shared ?p1)),
        jobs := (ds @ [Done]) @ replicate (length evs) Done,
        chans := enqueue (snd (run_task (history cd it evs) (shared ?p1))) (chans ?p1),
        commands := commands ?p1 @ spawned (snd (run_task (history cd it evs) (shared ?p1)))\<rparr>)"
    by blast
  with ms have "pool_run (ms @ ms') p = Some
     (?p1\<lparr>shared := fst (run_task (history cd it evs) (shared ?p1)),
        jobs := (ds @ [Done]) @ replicate (length evs) Done,
        chans := enqueue (snd (run_task (history cd it evs) (shared ?p1))) (chans ?p1),
        commands := commands ?p1 @ spawned (snd (run_task (history cd it evs) (shared ?p1)))\<rparr>)"
    by (rule pool_run_trans)
  then show ?case
    by (intro exI [of _ "ms @ ms'"]) (simp add: after_def enqueue_append Cons.prems(1))
qed

text \<open>
  Handling the events of a history one after the other, as theory \<^verbatim>\<open>Broker\<close> does, is one of the
  schedules of the concurrent broker: with a task for each event there is a schedule that finishes
  them all, leaves the shared maps of the history and puts exactly its messages, in their order, on
  the channels, if these have room for them.
\<close>

theorem serial_history_is_a_schedule:
  assumes "fits (snd (run_task (history cd it evs) s)) (\<lambda>_. new_channel client_channel_places)"
  shows "\<exists>mvs p. pool_run mvs (start_pool txs s (map (event_task cd it) evs)) = Some p \<and>
     jobs p = replicate (length evs) Done \<and>
     shared p = fst (run_task (history cd it evs) s) \<and>
     (\<forall>tx. accepted p tx = sent_to tx (snd (run_task (history cd it evs) s))) \<and>
     commands p = spawned (snd (run_task (history cd it evs) s))"
proof -
  let ?p0 = "start_pool txs s (map (event_task cd it) evs)"
  from serial_schedule [of ?p0 "[]" cd it evs] assms obtain mvs where "pool_run mvs ?p0 = Some
     (?p0\<lparr>shared := fst (run_task (history cd it evs) s), jobs := replicate (length evs) Done,
        chans := enqueue (snd (run_task (history cd it evs) s)) (\<lambda>_. new_channel client_channel_places),
        commands := spawned (snd (run_task (history cd it evs) s))\<rparr>)"
    by (auto simp: start_pool_def)
  then show ?thesis
    by (intro exI) (auto simp: accepted_def enqueue_def start_pool_def new_channel_def)
qed

theorem serial_history_is_a_schedule_witness:
  "\<exists>mvs p. pool_run mvs (start_pool id (empty_state Map.empty) (map (event_task demo_codec demo_order) demo_events)) = Some p \<and>
     jobs p = [Done, Done, Done] \<and> accepted p 1 = [Outgoing [12]]"
proof -
  have es: "snd (run_task (history demo_codec demo_order demo_events) (empty_state Map.empty)) = [Sent 1 (Outgoing [12])]"
    by (simp add: demo_events_def empty_state_def worker_def run_spawn_client dispatch_def run_register_object
        flip: worker_def caller_def)
  then have "fits (snd (run_task (history demo_codec demo_order demo_events) (empty_state Map.empty)))
      (\<lambda>_. new_channel client_channel_places)"
    by (simp add: fits_def new_channel_def client_channel_places_def)
  from serial_history_is_a_schedule [OF this, of id, unfolded es] obtain mvs p where
    "pool_run mvs (start_pool id (empty_state Map.empty) (map (event_task demo_codec demo_order) demo_events)) = Some p"
    "jobs p = replicate (length demo_events) Done" "accepted p 1 = sent_to 1 [Sent 1 (Outgoing [12])]"
    by blast
  moreover have "replicate (length demo_events) Done = [Done, Done, Done]"
    by (simp add: demo_events_def)
  ultimately show ?thesis by fastforce
qed

section \<open>A call that meets a cleanup\<close>

text \<open>
  C30: a call of an object whose worker is just leaving can be lost, although handled one after the
  other the two would start the service again: when the cleanup has removed the object but not yet
  stopped the service entry, the handler finds the service running without an owner and does nothing.
  Both tasks finish, no message was sent, no command was started, no service has the call in its
  queue, and the caller's entry stays in the table of open calls.
\<close>

theorem call_lost_during_cleanup:
  assumes "objects s n = Some w" and "services s n = Some svc" and "state svc = Running w" and "owner svc = Some w"
    and "clients s c = Some tx" and "c \<noteq> w"
  shows "\<exists>mvs p. list_all ordinary mvs \<and>
     pool_run mvs (start_pool txs s [cleanup_client w, handle_call cd ci n m a c]) = Some p \<and>
     jobs p = [Done, Done] \<and> (\<forall>x. accepted p x = []) \<and> commands p = [] \<and>
     calls (shared p) ci = Some (c, tx) \<and>
     map_option pending_calls (services (shared p) n) = Some [] \<and>
     map_option state (services (shared p) n) = Some Stopped"
proof -
  let ?mvs = "replicate 6 (Run 0) @ replicate 11 (Run 1) @ replicate 12 (Run 0)"
  let ?p0 = "start_pool txs s [cleanup_client w, handle_call cd ci n m a c]"
  let ?calls = "(purge_calls w (calls s))"
  let ?s = "s\<lparr>clients := purge_clients w (clients s), objects := purge_objects w (objects s),
     subscriptions := purge_subscriptions w (subscriptions s),
     calls := purge_calls w ((calls s)(ci \<mapsto> (c, tx))),
     services := purge_services (\<lambda>id. purge_calls w ((calls s)(ci \<mapsto> (c, tx))) id \<noteq> None) w (services s)\<rparr>"
  have caller: "purge_clients w (clients s) c = Some tx" and gone: "purge_objects w (objects s) n = None"
    using assms by (auto simp: purge_clients_def purge_objects_def map_retain_def)
  have "pool_run ?mvs ?p0 = Some (?p0\<lparr>shared := ?s, jobs := [Done, Done]\<rparr>)"
    using assms caller gone
    by (simp add: numeral_eq_Suc pool_run_append start_pool_def job_step_def cleanup_client_def handle_call_def
        call_activate_def Let_def with_lock_def fun_eq_iff)
  moreover have "list_all ordinary ?mvs" by (simp add: list_all_iff)
  moreover have "purge_calls w ((calls s)(ci \<mapsto> (c, tx))) ci = Some (c, tx)"
    using assms by (simp add: purge_calls_def map_retain_def)
  ultimately show ?thesis
    using assms by (intro exI [of _ ?mvs] exI) (auto simp: start_pool_def purge_services_def cleanup_service_def accepted_def new_channel_def)
qed

theorem call_lost_during_cleanup_witness:
  "\<exists>mvs p. pool_run mvs (start_pool id
       (demo_state\<lparr>services := [''math'' \<mapsto>
          \<lparr>state = Running worker, service_name = ''math.service'', pending_calls = [], owner = Some worker\<rparr>]\<rparr>)
       [cleanup_client worker, handle_call demo_codec call_1 ''math'' ''add'' JNull caller]) = Some p \<and>
     jobs p = [Done, Done] \<and> (\<forall>x. accepted p x = []) \<and> calls (shared p) call_1 = Some (caller, 2)"
  using call_lost_during_cleanup [of "demo_state\<lparr>services := [''math'' \<mapsto>
      \<lparr>state = Running worker, service_name = ''math.service'', pending_calls = [], owner = Some worker\<rparr>]\<rparr>"
    "''math''" worker _ caller 2 id demo_codec call_1 "''add''" JNull]
  by (simp add: demo_state_def) blast

end
