(* ===== verification/Connections.thy ===== *)
theory Connections
  imports Interleaving
begin

text \<open>
  The client actors as \<open>run\<close> of \<^verbatim>\<open>src/src/broker.rs\<close> orders them. A pool lets a writer end at any
  time and has the cleanup follow the reader at once; that allows more schedules than the code has,
  which is harmless for what holds under every schedule. Here the reader task, the writer loop and
  the cleanup of a connection are told apart: a writer takes a message before it fails to write it,
  a packet over the limit is never written, the shutdown signal follows the end of the reader, and
  the cleanup waits for the writer and the reader.
\<close>

section \<open>Actors and their moves\<close>

text \<open>
  \<open>core\<close> is the pool of the reader tasks, the maps and the channels; in it \<open>written\<close> is what the
  writers have taken. \<open>reading i\<close>: \<open>run\<close> has not joined the reader task of connection \<open>i\<close> yet.
  \<open>out\<close> is what has been written to the peers.
\<close>

record actors =
  core :: pool
  reading :: "nat \<Rightarrow> bool"
  who :: "nat \<Rightarrow> ClientId"
  out :: "ClientSender \<Rightarrow> ClientMsg list"

text \<open>
  \<open>Step i\<close>: the reader task or, after it, the cleanup of connection \<open>i\<close> goes on. \<open>Write tx\<close>: a writer
  takes a message and writes it. \<open>WriteFails tx\<close>: it takes one and fails to write it, or the message is
  the one that stops the loop. \<open>ReaderEnds i\<close>: the shutdown signal ends the writer loop; \<open>Abandon i\<close>: it
  does so in the middle of a write. \<open>CleanUp i\<close>: \<open>run\<close> has both the writer loop and the reader
  task behind it and starts the cleanup. \<open>DropRx i\<close>: \<open>run\<close> returns and its receiver is dropped.
\<close>

datatype act = Step nat | Write ClientSender | WriteFails ClientSender | ReaderEnds nat | Abandon nat | CleanUp nat | DropRx nat

definition writable :: "ClientMsg \<Rightarrow> bool" where
  "writable m = (case m of Outgoing bs \<Rightarrow> packet_fits bs | ShutdownMsg \<Rightarrow> False)"

definition with_core :: "actors \<Rightarrow> pool option \<Rightarrow> actors option" where
  "with_core q = map_option (\<lambda>p. q\<lparr>core := p\<rparr>)"

text \<open>The writer has taken a message and its loop ends without having written it.\<close>

definition writer_breaks :: "ClientSender \<Rightarrow> pool \<Rightarrow> pool option" where
  "writer_breaks tx p =
     (if \<not> writing p tx then None
      else case recv (chans p tx) of
             None \<Rightarrow> None
           | Some (m, c) \<Rightarrow>
               Some (p\<lparr>chans := (chans p)(tx := c), written := (written p)(tx := written p tx @ [m]),
                       writing := (writing p)(tx := False)\<rparr>))"

fun run_act :: "act \<Rightarrow> actors \<Rightarrow> actors option" where
  "run_act (Step i) q = with_core q (pool_move (Run i) (core q))"
| "run_act (Write tx) q =
     (if \<not> writing (core q) tx then None
      else case recv (chans (core q) tx) of
             None \<Rightarrow> None
           | Some (m, c) \<Rightarrow>
               if writable m
               then Some (q\<lparr>core := (core q)\<lparr>chans := (chans (core q))(tx := c),
                                         written := (written (core q))(tx := written (core q) tx @ [m])\<rparr>,
                            out := (out q)(tx := out q tx @ [m])\<rparr>)
               else None)"
| "run_act (WriteFails tx) q = with_core q (writer_breaks tx (core q))"
| "run_act (ReaderEnds i) q =
     (if i < length (jobs (core q)) \<and> reading q i \<and> jobs (core q) ! i = Done \<and> writing (core q) (conn (core q) i)
      then Some (q\<lparr>core := (core q)\<lparr>writing := (writing (core q))(conn (core q) i := False)\<rparr>\<rparr>) else None)"
| "run_act (Abandon i) q =
     (if i < length (jobs (core q)) \<and> reading q i \<and> jobs (core q) ! i = Done
      then with_core q (writer_breaks (conn (core q) i) (core q)) else None)"
| "run_act (CleanUp i) q =
     (if i < length (jobs (core q)) \<and> reading q i \<and> jobs (core q) ! i = Done \<and> \<not> writing (core q) (conn (core q) i)
      then Some (q\<lparr>core := (core q)\<lparr>jobs := (jobs (core q))[i := cleanup_client (who q i)]\<rparr>,
                   reading := (reading q)(i := False)\<rparr>) else None)"
| "run_act (DropRx i) q =
     (if \<not> reading q i \<and> rx_open (chans (core q) (conn (core q) i)) then with_core q (pool_move (CloseConn i) (core q))
      else None)"

fun actors_run :: "act list \<Rightarrow> actors \<Rightarrow> actors option" where
  "actors_run [] q = Some q"
| "actors_run (a # as) q = (case run_act a q of None \<Rightarrow> None | Some q' \<Rightarrow> actors_run as q')"

text \<open>The connections \<open>cs\<close> in a broker that has them in its map of clients.\<close>

definition start_actors ::
    "codec \<Rightarrow> (ClientId fset \<Rightarrow> ClientId list) \<Rightarrow> (nat \<Rightarrow> ClientSender) \<Rightarrow> ServerState \<Rightarrow> (ClientId \<times> reader) list \<Rightarrow> actors" where
  "start_actors cd it txs s cs =
     \<lparr>core = start_pool txs s (map (\<lambda>(c, r). reader_loop cd it c r) cs), reading = (\<lambda>_. True),
      who = (\<lambda>i. fst (cs ! i)), out = (\<lambda>_. [])\<rparr>"

lemma actors_run_append: "actors_run (as @ bs) q = Option.bind (actors_run as q) (actors_run bs)"
  by (induction as arbitrary: q) (auto split: option.split)

lemma actors_run_trans: "actors_run as q = Some q' \<Longrightarrow> actors_run bs q' = Some q'' \<Longrightarrow> actors_run (as @ bs) q = Some q''"
  by (simp add: actors_run_append)

text \<open>The moves of one task are the same in the pool.\<close>

lemma runs_to_actors:
  assumes "runs_to i (core q) p"
  shows "\<exists>as. set as \<subseteq> {Step i} \<and> actors_run as q = Some (q\<lparr>core := p\<rparr>)"
proof -
  from assms obtain mvs where "set mvs \<subseteq> {Run i}" "pool_run mvs (core q) = Some p" by (auto simp: runs_to_def)
  then have "actors_run (map (\<lambda>_. Step i) mvs) q = Some (q\<lparr>core := p\<rparr>)"
    by (induction mvs arbitrary: q) (auto simp: with_core_def split: option.splits if_splits)
  then show ?thesis by (intro exI [of _ "map (\<lambda>_. Step i) mvs"]) auto
qed

section \<open>Every schedule of the actors is one of the pool\<close>

text \<open>The task of a connection in the pool: while the reader runs, the cleanup is still to follow.\<close>

definition task_of :: "actors \<Rightarrow> nat \<Rightarrow> task" where
  "task_of q i = (if reading q i then seq (jobs (core q) ! i) (cleanup_client (who q i)) else jobs (core q) ! i)"

definition as_pool :: "actors \<Rightarrow> pool" where
  "as_pool q = (core q)\<lparr>jobs := map (task_of q) [0..<length (jobs (core q))]\<rparr>"

lemma as_pool_simps [simp]:
  "shared (as_pool q) = shared (core q)" "holder (as_pool q) = holder (core q)" "chans (as_pool q) = chans (core q)"
  "writing (as_pool q) = writing (core q)" "written (as_pool q) = written (core q)" "conn (as_pool q) = conn (core q)"
  "commands (as_pool q) = commands (core q)" "length (jobs (as_pool q)) = length (jobs (core q))"
  "i < length (jobs (core q)) \<Longrightarrow> jobs (as_pool q) ! i = task_of q i"
  by (simp_all add: as_pool_def)

lemma as_pool_start: "as_pool (start_actors cd it txs s cs) = start_pool txs s (client_jobs cd it cs)"
proof -
  have "map (task_of (start_actors cd it txs s cs)) [0..<length cs] = client_jobs cd it cs"
    by (rule nth_equalityI)
      (simp_all add: task_of_def start_actors_def start_pool_def client_jobs_def client_run_def case_prod_beta')
  then show ?thesis by (simp add: as_pool_def) (simp add: start_actors_def start_pool_def)
qed

lemma job_step_followed:
  assumes "job_step i p = Some p'" and "i < length (jobs p)" and "js ! i = seq (jobs p ! i) k"
  shows "job_step i (p\<lparr>jobs := js\<rparr>) = Some (p'\<lparr>jobs := js[i := seq (jobs p' ! i) k]\<rparr>)"
  using assms(1)
proof (cases rule: job_stepE)
  case (Send tx m t)
  with assms(2,3) show ?thesis
    by (cases "try_send m (chans p tx)"; cases "fst (try_send m (chans p tx))") (simp_all add: job_step_def)
qed (use assms(2,3) in \<open>simp_all add: job_step_def split_beta\<close>)

lemma task_of_seq: "task_of q i = seq (jobs (core q) ! i) (if reading q i then cleanup_client (who q i) else Done)"
  by (simp add: task_of_def)

lemma job_step_as_pool:
  assumes "job_step i (core q) = Some p" and "i < length (jobs (core q))"
  shows "job_step i (as_pool q) = Some (as_pool (q\<lparr>core := p\<rparr>))"
proof -
  obtain t where "jobs p = (jobs (core q))[i := t]" using job_step_next [OF assms(1)] by blast
  then have jobs: "jobs (as_pool (q\<lparr>core := p\<rparr>)) =
      (jobs (as_pool q))[i := seq (jobs p ! i) (if reading q i then cleanup_client (who q i) else Done)]"
    using assms(2) by (intro nth_equalityI) (simp_all add: as_pool_def task_of_seq nth_list_update)
  have "jobs (as_pool q) ! i = seq (jobs (core q) ! i) (if reading q i then cleanup_client (who q i) else Done)"
    using assms(2) by (simp only: as_pool_simps task_of_seq)
  note step = job_step_followed [OF assms this]
  have "(core q)\<lparr>jobs := jobs (as_pool q)\<rparr> = as_pool q" "p\<lparr>jobs := jobs (as_pool (q\<lparr>core := p\<rparr>))\<rparr> = as_pool (q\<lparr>core := p\<rparr>)"
    by (simp_all add: as_pool_def)
  with step show ?thesis by (simp only: jobs [symmetric])
qed

text \<open>The moves of the pool that stand for a move of the actors.\<close>

fun as_moves :: "(nat \<Rightarrow> ClientSender) \<Rightarrow> act \<Rightarrow> move list" where
  "as_moves txs (Step i) = [Run i]"
| "as_moves txs (Write tx) = [Deliver tx]"
| "as_moves txs (WriteFails tx) = [Deliver tx, WriterEnds tx]"
| "as_moves txs (ReaderEnds i) = [WriterEnds (txs i)]"
| "as_moves txs (Abandon i) = [Deliver (txs i), WriterEnds (txs i)]"
| "as_moves txs (CleanUp i) = []"
| "as_moves txs (DropRx i) = [CloseConn i]"

lemma run_act_as_pool:
  assumes "run_act a q = Some q'"
  shows "pool_run (as_moves (conn (core q)) a) (as_pool q) = Some (as_pool q')"
proof (cases a)
  case (Step i)
  then obtain p where p: "i < length (jobs (core q))" "job_step i (core q) = Some p" "q' = q\<lparr>core := p\<rparr>"
    using assms by (auto simp: with_core_def split: if_splits)
  with job_step_as_pool Step show ?thesis by simp
next
  case (CleanUp i)
  with assms have q': "i < length (jobs (core q))" "reading q i" "jobs (core q) ! i = Done"
      "q' = q\<lparr>core := (core q)\<lparr>jobs := (jobs (core q))[i := cleanup_client (who q i)]\<rparr>, reading := (reading q)(i := False)\<rparr>"
    by (auto split: if_splits)
  then have "task_of q' j = task_of q j" if "j < length (jobs (core q))" for j
    using that by (cases "j = i") (auto simp: task_of_def)
  then have "jobs (as_pool q') = jobs (as_pool q)" using q' by (simp add: as_pool_def)
  then show ?thesis using CleanUp q' by (simp add: as_pool_def)
next
  case (DropRx i)
  with assms have "\<not> reading q i" "i < length (jobs (core q))" "jobs (core q) ! i = Done" "\<not> writing (core q) (conn (core q) i)"
      "q' = q\<lparr>core := (core q)\<lparr>chans := (chans (core q))(conn (core q) i := close_rx (chans (core q) (conn (core q) i)))\<rparr>\<rparr>"
    by (auto simp: with_core_def split: if_splits)
  then show ?thesis using DropRx by (simp add: as_pool_def task_of_def cong: map_cong)
qed (use assms in \<open>auto simp: with_core_def writer_breaks_def as_pool_def task_of_def cong: map_cong split: if_splits option.splits\<close>)

lemma run_act_conn: "run_act a q = Some q' \<Longrightarrow> conn (core q') = conn (core q) \<and> who q' = who q \<and>
    length (jobs (core q')) = length (jobs (core q))"
  by (cases a) (auto simp: with_core_def writer_breaks_def dest: job_step_frame job_step_next split: if_splits option.splits)

lemma actors_run_conn: "actors_run as q = Some q' \<Longrightarrow> conn (core q') = conn (core q) \<and> who q' = who q \<and>
    length (jobs (core q')) = length (jobs (core q))"
  by (induction as arbitrary: q) (auto dest: run_act_conn split: option.splits)

lemma actors_run_as_pool:
  "actors_run as q = Some q' \<Longrightarrow> \<exists>mvs. pool_run mvs (as_pool q) = Some (as_pool q')"
proof (induction as arbitrary: q)
  case (Cons a as)
  then obtain q1 where "run_act a q = Some q1" "actors_run as q1 = Some q'" by (auto split: option.splits)
  with Cons.IH run_act_as_pool show ?case by (meson pool_run_trans)
next
  case Nil
  then show ?case by (intro exI [of _ "[]"]) simp
qed

section \<open>A cleanup sends nothing\<close>

primrec sends_nothing :: "task \<Rightarrow> bool" where
  "sends_nothing Done \<longleftrightarrow> True"
| "sends_nothing (Lock m t) \<longleftrightarrow> sends_nothing t"
| "sends_nothing (Unlock m t) \<longleftrightarrow> sends_nothing t"
| "sends_nothing (Sync f) \<longleftrightarrow> (\<forall>s. snd (map_prod id sends_nothing (f s)))"
| "sends_nothing (Send tx m t) \<longleftrightarrow> False"
| "sends_nothing (Spawn c t) \<longleftrightarrow> sends_nothing t"

lemma sends_nothing_cleanup: "sends_nothing (cleanup_client c)"
  by (simp add: cleanup_client_def with_lock_def split_beta Let_def)

lemma sends_nothing_next: "sends_nothing t \<Longrightarrow> (t', t) \<in> next_task \<Longrightarrow> sends_nothing t'"
  by (auto simp: next_task_def)

definition quiet_cleanups :: "actors \<Rightarrow> bool" where
  "quiet_cleanups q \<longleftrightarrow> (\<forall>i < length (jobs (core q)). \<not> reading q i \<longrightarrow> sends_nothing (jobs (core q) ! i))"

lemma quiet_cleanups_step:
  assumes s: "quiet_cleanups q" and step: "run_act a q = Some q'"
  shows "quiet_cleanups q'"
proof (cases a)
  case (Step i)
  with step obtain p where p: "i < length (jobs (core q))" "job_step i (core q) = Some p" "q' = q\<lparr>core := p\<rparr>"
    by (auto simp: with_core_def split: if_splits)
  then obtain t where t: "jobs p = (jobs (core q))[i := t]" "(t, jobs (core q) ! i) \<in> next_task"
    using job_step_next by blast
  with s p(1) sends_nothing_next [OF _ t(2)] show ?thesis
    unfolding quiet_cleanups_def p(3) by (auto simp: nth_list_update)
next
  case (CleanUp i)
  with s step show ?thesis
    by (auto simp: quiet_cleanups_def nth_list_update sends_nothing_cleanup split: if_splits)
qed (use s step in \<open>auto simp: quiet_cleanups_def with_core_def writer_breaks_def split: if_splits option.splits\<close>)

lemma quiet_cleanups_run: "quiet_cleanups q \<Longrightarrow> actors_run as q = Some q' \<Longrightarrow> quiet_cleanups q'"
  by (induction as arbitrary: q) (auto dest: quiet_cleanups_step split: option.splits)

section \<open>A connection whose peer does not read\<close>

text \<open>
  A connection that has its first message taken by a writer that fails, and its channel filled by the
  messages of the packets that follow.
\<close>

definition fills_own_channel :: "ServerState \<Rightarrow> (nat \<Rightarrow> ClientSender) \<Rightarrow> task \<Rightarrow> task list \<Rightarrow> actors \<Rightarrow> bool" where
  "fills_own_channel s txs t ts q \<longleftrightarrow>
     shared (core q) = s \<and> holder (core q) = Map.empty \<and> jobs (core q) = t # ts \<and> conn (core q) = txs \<and>
     rx_open (chans (core q) (txs 0)) \<and>
     places (chans (core q) (txs 0)) \<le> length (queue (chans (core q) (txs 0))) \<and>
     \<not> writing (core q) (txs 0) \<and> reading q = (\<lambda>_. True)"

lemma connection_fills_its_channel:
  assumes bufs: "fst (read_all r) = b0 # bs @ rest" and "length bs = client_channel_places"
    and first: "run_task (dispatch cd it c b0) s = (s1, [Sent (txs 0) m])"
    and second: "run_task (for_each (dispatch cd it c) bs) s1 = (s2, map (Sent (txs 0)) ms)" and "length ms = length bs"
  shows "\<exists>as q. set as \<subseteq> {Step 0, WriteFails (txs 0)} \<and> actors_run as (start_actors cd it txs s ((c, r) # others)) = Some q \<and>
     fills_own_channel s2 txs (for_each (dispatch cd it c) rest) (map (\<lambda>(c, r). reader_loop cd it c r) others) q \<and>
     who q = who (start_actors cd it txs s ((c, r) # others))"
proof -
  let ?q0 = "start_actors cd it txs s ((c, r) # others)"
  let ?ts = "map (\<lambda>(c, r). reader_loop cd it c r) others"
  let ?t0 = "dispatch cd it c b0" and ?t1 = "for_each (dispatch cd it c) bs" and ?t2 = "for_each (dispatch cd it c) rest"
  have sent: "sent_to tx (map (Sent (txs 0)) ms) = (if tx = txs 0 then ms else [])" for tx
    by (induction ms) auto
  define p1 where "p1 = after 0 ?t0 (seq ?t1 ?t2) (core ?q0)"
  define p2 where "p2 = p1\<lparr>chans := (chans p1)(txs 0 := new_channel client_channel_places),
      written := (written p1)(txs 0 := written p1 (txs 0) @ [m]), writing := (writing p1)(txs 0 := False)\<rparr>"
  define p3 where "p3 = after 0 ?t1 ?t2 p2"
  have start: "jobs (core ?q0) = seq ?t0 (seq ?t1 ?t2) # ?ts" "shared (core ?q0) = s" "holder (core ?q0) = Map.empty"
      "conn (core ?q0) = txs" "chans (core ?q0) = (\<lambda>_. new_channel client_channel_places)" "writing (core ?q0) = (\<lambda>_. True)"
    by (simp_all add: start_actors_def start_pool_def reader_loop_eq bufs for_each_append seq_assoc)
  have "runs_to 0 (core ?q0) p1"
    unfolding p1_def
    by (rule run_alone [of _ "[]"])
      (simp_all add: start balanced_dispatch alone_def fits_def first new_channel_def client_channel_places_def)
  then obtain as1 where as1: "set as1 \<subseteq> {Step 0}" "actors_run as1 ?q0 = Some (?q0\<lparr>core := p1\<rparr>)"
    using runs_to_actors by blast
  have p1: "jobs p1 = seq ?t1 ?t2 # ?ts" "shared p1 = s1" "holder p1 = Map.empty" "conn p1 = txs" "writing p1 (txs 0)"
      "recv (chans p1 (txs 0)) = Some (m, new_channel client_channel_places)"
      "tx \<noteq> txs 0 \<Longrightarrow> chans p1 tx = new_channel client_channel_places" for tx
    by (simp_all add: p1_def after_def start first enqueue_def new_channel_def recv_def)
  have fail: "actors_run [WriteFails (txs 0)] (?q0\<lparr>core := p1\<rparr>) = Some (?q0\<lparr>core := p2\<rparr>)"
    using p1 by (simp add: with_core_def writer_breaks_def p2_def)
  have p2: "jobs p2 = seq ?t1 ?t2 # ?ts" "shared p2 = s1" "holder p2 = Map.empty" "conn p2 = txs" "\<not> writing p2 (txs 0)"
      "chans p2 tx = new_channel client_channel_places" for tx
    using p1 by (simp_all add: p2_def)
  have "runs_to 0 p2 p3"
    unfolding p3_def
    by (rule run_alone [of _ "[]"])
      (simp_all add: p2 balanced_for_each balanced_dispatch alone_def fits_def second sent new_channel_def assms(2,5))
  then obtain as2 where as2: "set as2 \<subseteq> {Step 0}" "actors_run as2 (?q0\<lparr>core := p2\<rparr>) = Some (?q0\<lparr>core := p3\<rparr>)"
    using runs_to_actors [of 0 "?q0\<lparr>core := p2\<rparr>" p3] by auto
  have "fills_own_channel s2 txs ?t2 ?ts (?q0\<lparr>core := p3\<rparr>)"
    using assms(2,5)
    by (simp add: fills_own_channel_def p3_def after_def p2 second enqueue_def sent new_channel_def)
      (simp add: start_actors_def)
  moreover have "actors_run (as1 @ [WriteFails (txs 0)] @ as2) ?q0 = Some (?q0\<lparr>core := p3\<rparr>)"
    by (rule actors_run_trans [OF as1(2) actors_run_trans [OF fail as2(2)]])
  moreover have "set (as1 @ [WriteFails (txs 0)] @ as2) \<subseteq> {Step 0, WriteFails (txs 0)}"
    using as1(1) as2(1) by auto
  moreover have "who (?q0\<lparr>core := p3\<rparr>) = who ?q0" by simp
  ultimately show ?thesis by blast
qed

end
