(* ===== verification/Schedules.thy ===== *)
theory Schedules
  imports Connections
begin

text \<open>
  Every schedule ends. The moves of tasks and writers cannot go on for ever, whatever the tasks are:
  a move of a task replaces it by a piece of it, in an order of multisets, and a delivery leaves the
  tasks alone and takes one of finitely many queued messages. The same holds of the client actors,
  where in addition each connection ends its writer, its reader and its receiver once. Where no actor can
  move and no write has failed, every connection is over.
\<close>

section \<open>The order of the pools\<close>

definition busy :: "pool \<Rightarrow> ClientSender set" where
  "busy p = {tx. queue (chans p tx) \<noteq> []}"

definition queued :: "pool \<Rightarrow> nat" where
  "queued p = (\<Sum>tx \<in> busy p. length (queue (chans p tx)))"

definition ordinary_step :: "(pool \<times> pool) set" where
  "ordinary_step = {(p', p). finite (busy p) \<and> (\<exists>mv. ordinary mv \<and> pool_move mv p = Some p')}"

definition pool_order :: "(pool \<times> pool) set" where
  "pool_order = inv_image (mult next_task <*lex*> less_than) (\<lambda>p. (mset (jobs p), queued p))"

lemma wf_pool_order: "wf pool_order"
  unfolding pool_order_def by (intro wf_inv_image wf_lex_prod wf_mult wf_next_task wf_less_than)

lemma queued_cover: "finite A \<Longrightarrow> busy p \<subseteq> A \<Longrightarrow> queued p = (\<Sum>tx \<in> A. length (queue (chans p tx)))"
  unfolding queued_def by (rule sum.mono_neutral_left) (auto simp: busy_def)

lemma deliver_queued:
  assumes "finite (busy p)" and "pool_move (Deliver tx) p = Some p'"
  shows "queued p' < queued p \<and> jobs p' = jobs p"
proof -
  from assms(2) obtain m c where c: "recv (chans p tx) = Some (m, c)" and
    p': "p' = p\<lparr>chans := (chans p)(tx := c), written := (written p)(tx := written p tx @ [m])\<rparr>"
    by (auto split: if_splits option.splits)
  from c have q: "queue (chans p tx) = m # queue c" by (rule mpsc.pop_some [THEN conjunct1])
  let ?A = "busy p"
  have tx: "tx \<in> ?A" using q by (simp add: busy_def)
  have "busy p' \<subseteq> ?A" using q by (auto simp: p' busy_def)
  then have "queued p' = (\<Sum>y \<in> ?A. length (queue (chans p' y)))"
    using assms(1) by (intro queued_cover)
  also have "\<dots> < (\<Sum>y \<in> ?A. length (queue (chans p y)))"
    using assms(1) tx q by (intro sum_strict_mono_ex1) (auto simp: p')
  finally show ?thesis by (simp add: queued_def p')
qed

lemma ordinary_step_decreases: "(p', p) \<in> ordinary_step \<Longrightarrow> (p', p) \<in> pool_order"
proof -
  assume "(p', p) \<in> ordinary_step"
  then obtain mv where fin: "finite (busy p)" and "ordinary mv" and move: "pool_move mv p = Some p'"
    by (auto simp: ordinary_step_def)
  then show ?thesis
  proof (cases mv)
    case (Run i)
    with move have i: "i < length (jobs p)" and "job_step i p = Some p'" by (auto split: if_splits)
    then have "(mset (jobs p'), mset (jobs p)) \<in> mult1 next_task"
      using job_step_next jobs_decrease by metis
    then show ?thesis by (auto simp: pool_order_def mult_def)
  next
    case (Deliver tx)
    with deliver_queued [OF fin] move show ?thesis by (auto simp: pool_order_def)
  qed simp_all
qed

lemma wf_ordinary_step: "wf ordinary_step"
  by (rule wf_subset [OF wf_pool_order]) (auto dest: ordinary_step_decreases)

lemma finite_busy_move: "finite (busy p) \<Longrightarrow> pool_move mv p = Some p' \<Longrightarrow> finite (busy p')"
proof -
  assume fin: "finite (busy p)" and move: "pool_move mv p = Some p'"
  have "\<exists>tx. busy p' \<subseteq> insert tx (busy p)"
  proof (cases mv)
    case (Run i)
    with move have "job_step i p = Some p'" by (auto split: if_splits)
    then show ?thesis
      by (cases "jobs p ! i")
        (auto simp: busy_def job_step_def try_send_def split: if_splits prod.splits send_result.splits)
  next
    case (Deliver tx)
    with move show ?thesis by (auto simp: busy_def recv_def split: if_splits option.splits list.splits)
  qed (use move in \<open>auto simp: busy_def close_rx_def split: if_splits\<close>)
  with fin show ?thesis by (meson finite_insert finite_subset)
qed

lemma finite_busy_run: "finite (busy p) \<Longrightarrow> pool_run mvs p = Some p' \<Longrightarrow> finite (busy p')"
  by (induction mvs arbitrary: p) (auto dest: finite_busy_move split: option.splits)

lemma start_pool_not_busy [simp]: "busy (start_pool txs s ts) = {}"
  by (simp add: busy_def start_pool_def new_channel_def)

section \<open>Where nothing moves any more\<close>

definition stuck :: "pool \<Rightarrow> bool" where
  "stuck p \<longleftrightarrow> (\<forall>mv. ordinary mv \<longrightarrow> pool_move mv p = None)"

lemma stuck_done:
  assumes "follows P p" and "has_places p" and w: "\<forall>tx. writing p tx" and stuck: "stuck p"
  shows "(\<forall>t \<in> set (jobs p). t = Done) \<and> busy p = {}"
proof
  have step: "mvs = []" if "list_all ordinary mvs" "pool_run mvs p = Some p'" for mvs p'
    using that stuck by (cases mvs) (auto simp: stuck_def split: option.splits)
  obtain mvs p' where *: "list_all ordinary mvs" "pool_run mvs p = Some p'" "\<forall>t \<in> set (jobs p'). t = Done"
    using pool_drains assms(1-3) by blast
  with step [OF *(1,2)] show "\<forall>t \<in> set (jobs p). t = Done" by simp
  have "recv (chans p tx) = None" for tx
  proof -
    have "pool_move (Deliver tx) p = None"
      using stuck ordinary_simps(2) unfolding stuck_def by blast
    with w show ?thesis by (auto split: option.splits)
  qed
  then show "busy p = {}" by (simp add: busy_def mpsc.pop_none)
qed

lemma start_pool_places: "has_places (start_pool txs s ts) \<and> (\<forall>tx. writing (start_pool txs s ts) tx)"
  by (simp add: start_pool_def has_places_def new_channel_def client_channel_places_def)

text \<open>An infinite schedule of the moves of tasks and writers.\<close>

definition runs_for_ever :: "pool \<Rightarrow> bool" where
  "runs_for_ever p \<longleftrightarrow>
     (\<exists>ps. ps 0 = p \<and> (\<forall>k. \<exists>mv. ordinary mv \<and> pool_move mv (ps k) = Some (ps (Suc k))))"

lemma schedules_finite:
  assumes "finite (busy p)"
  shows "\<not> runs_for_ever p"
proof
  assume "runs_for_ever p"
  then obtain ps where 0: "ps 0 = p" and step: "\<And>k. \<exists>mv. ordinary mv \<and> pool_move mv (ps k) = Some (ps (Suc k))"
    by (auto simp: runs_for_ever_def)
  have "finite (busy (ps k))" for k
  proof (induction k)
    case (Suc k)
    with step [of k] show ?case by (auto intro: finite_busy_move)
  qed (simp add: 0 assms)
  with step have "(ps (Suc k), ps k) \<in> ordinary_step" for k
    by (auto simp: ordinary_step_def)
  with wf_ordinary_step show False by (auto simp: wf_iff_no_infinite_down_chain)
qed

lemma some_schedule_is_complete:
  "finite (busy p) \<Longrightarrow> \<exists>mvs p'. list_all ordinary mvs \<and> pool_run mvs p = Some p' \<and> stuck p'"
proof (induction p rule: wf_induct_rule [OF wf_ordinary_step])
  case (1 p)
  show ?case
  proof (cases "stuck p")
    case True
    then show ?thesis by (intro exI [of _ "[]"]) simp
  next
    case False
    then obtain mv q where mv: "ordinary mv" "pool_move mv p = Some q" by (auto simp: stuck_def)
    with 1 finite_busy_move obtain mvs p' where "list_all ordinary mvs" "pool_run mvs q = Some p'" "stuck p'"
      unfolding ordinary_step_def by blast
    with mv show ?thesis by (intro exI [of _ "mv # mvs"] exI [of _ p']) simp
  qed
qed

lemma stuck_finishes:
  assumes "fresh_pool P p0" and "has_places p0 \<and> (\<forall>tx. writing p0 tx)"
    and "list_all ordinary mvs" and "pool_run mvs p0 = Some p" and "stuck p"
  shows "jobs p = replicate (length (jobs p)) Done" and "accepted p tx = written p tx"
proof -
  have "has_places p" "\<forall>tx. writing p tx"
    using ordinary_run assms(2-4) by blast+
  moreover have "follows P p"
    using assms(1,4) by (rule follows_run)
  ultimately have "\<forall>t \<in> set (jobs p). t = Done" and idle: "busy p = {}"
    using stuck_done assms(5) by blast+
  then show "jobs p = replicate (length (jobs p)) Done"
    by (auto simp: list_eq_iff_nth_eq)
  from idle show "accepted p tx = written p tx"
    by (auto simp: accepted_def busy_def)
qed

section \<open>The actors\<close>

text \<open>
  What a move of the actors makes smaller: the tasks, then the queues, then what the connections
  still have open.
\<close>

definition left_open :: "actors \<Rightarrow> nat" where
  "left_open q = (\<Sum>i < length (jobs (core q)).
     of_bool (writing (core q) (conn (core q) i)) + of_bool (reading q i) + of_bool (rx_open (chans (core q) (conn (core q) i))))"

definition actor_order :: "(actors \<times> actors) set" where
  "actor_order = inv_image (mult next_task <*lex*> less_than <*lex*> less_than)
     (\<lambda>q. (mset (jobs (as_pool q)), queued (core q), left_open q))"

lemma wf_actor_order: "wf actor_order"
  unfolding actor_order_def by (intro wf_inv_image wf_lex_prod wf_mult wf_next_task wf_less_than)

lemma queued_chans: "chans p = chans p' \<Longrightarrow> queued p = queued p'"
  by (simp add: queued_def busy_def)

lemma taken_queued:
  assumes "finite (busy p)" and "recv (chans p tx) = Some (m, c)" and "chans p' = (chans p)(tx := c)"
  shows "queued p' < queued p"
proof -
  let ?p = "p\<lparr>writing := (\<lambda>_. True)\<rparr>"
  have "queued (?p\<lparr>chans := (chans p)(tx := c), written := (written p)(tx := written p tx @ [m])\<rparr>) < queued ?p"
    using deliver_queued [of ?p tx] assms(1,2) by (simp add: busy_def)
  then show ?thesis using assms(3) queued_chans by (metis (no_types, lifting) pool.select_convs(4) pool.surjective pool.update_convs(4,5,6))
qed

lemma dropped_queued:
  assumes "finite (busy p)"
  shows "queued (p\<lparr>chans := (chans p)(tx := close_rx (chans p tx))\<rparr>) \<le> queued p"
proof -
  let ?p = "p\<lparr>chans := (chans p)(tx := close_rx (chans p tx))\<rparr>"
  have "queued ?p = (\<Sum>y \<in> busy p. length (queue (chans ?p y)))"
    by (rule queued_cover [OF assms]) (auto simp: busy_def close_rx_def)
  also have "\<dots> \<le> queued p"
    unfolding queued_def by (rule sum_mono) (simp add: close_rx_def)
  finally show ?thesis .
qed

lemma left_open_less:
  assumes "length (jobs (core q')) = length (jobs (core q))" and "conn (core q') = conn (core q)"
    and "\<And>j. reading q' j \<Longrightarrow> reading q j" "\<And>tx. writing (core q') tx \<Longrightarrow> writing (core q) tx"
      "\<And>tx. rx_open (chans (core q') tx) \<Longrightarrow> rx_open (chans (core q) tx)"
    and i: "i < length (jobs (core q))"
    and less: "reading q i \<and> \<not> reading q' i \<or> writing (core q) (conn (core q) i) \<and> \<not> writing (core q') (conn (core q) i) \<or>
       rx_open (chans (core q) (conn (core q) i)) \<and> \<not> rx_open (chans (core q') (conn (core q) i))"
  shows "left_open q' < left_open q"
  unfolding left_open_def assms(1,2)
proof (rule sum_strict_mono_ex1)
  show "\<forall>i \<in> {..<length (jobs (core q))}.
      of_bool (writing (core q') (conn (core q) i)) + of_bool (reading q' i) + of_bool (rx_open (chans (core q') (conn (core q) i)))
      \<le> of_bool (writing (core q) (conn (core q) i)) + of_bool (reading q i) + (of_bool (rx_open (chans (core q) (conn (core q) i))) :: nat)"
    using assms(3-5) by (auto intro!: add_mono simp: of_bool_def)
  show "\<exists>i \<in> {..<length (jobs (core q))}.
      of_bool (writing (core q') (conn (core q) i)) + of_bool (reading q' i) + of_bool (rx_open (chans (core q') (conn (core q) i)))
      < of_bool (writing (core q) (conn (core q) i)) + of_bool (reading q i) + (of_bool (rx_open (chans (core q) (conn (core q) i))) :: nat)"
    using i less assms(3-5) by (intro bexI [of _ i]) (auto simp: of_bool_def split: if_splits)
qed simp

lemma as_pool_jobs_same:
  "jobs (core q') = jobs (core q) \<Longrightarrow> reading q' = reading q \<Longrightarrow> who q' = who q \<Longrightarrow> jobs (as_pool q') = jobs (as_pool q)"
  by (simp add: as_pool_def task_of_def fun_eq_iff)

lemma taken_decreases:
  assumes "finite (busy (core q))" and "recv (chans (core q) tx) = Some (m, c)" "chans (core q') = (chans (core q))(tx := c)"
    and "jobs (core q') = jobs (core q)" "reading q' = reading q" "who q' = who q"
  shows "(q', q) \<in> actor_order"
  using taken_queued [OF assms(1-3)] as_pool_jobs_same [OF assms(4-6)] by (simp add: actor_order_def)

lemma run_act_decreases:
  assumes fin: "finite (busy (core q))" and step: "run_act a q = Some q'"
  shows "(q', q) \<in> actor_order"
proof -
  have fails: ?thesis if "with_core q (writer_breaks tx (core q)) = Some q'" for tx
    using that by (auto simp: with_core_def writer_breaks_def split: if_splits option.splits intro!: taken_decreases [OF fin])
  show ?thesis
  proof (cases a)
    case (Step i)
    with step have i: "i < length (jobs (core q))" and "pool_run [Run i] (as_pool q) = Some (as_pool q')"
      using run_act_as_pool [OF step] by (auto simp: with_core_def split: if_splits)
    then have "job_step i (as_pool q) = Some (as_pool q')" by (auto split: option.splits)
    then have "(mset (jobs (as_pool q')), mset (jobs (as_pool q))) \<in> mult1 next_task"
      using job_step_next jobs_decrease i by (metis as_pool_simps(8))
    then show ?thesis by (auto simp: actor_order_def mult_def)
  next
    case (Write tx)
    with step show ?thesis by (auto split: if_splits option.splits intro!: taken_decreases [OF fin])
  next
    case (WriteFails tx)
    with step fails show ?thesis by simp
  next
    case (Abandon i)
    with step fails show ?thesis by (simp split: if_splits)
  next
    case (ReaderEnds i)
    with step have "left_open q' < left_open q"
      by (intro left_open_less [of _ _ i]) (auto split: if_splits)
    moreover from step ReaderEnds have "jobs (as_pool q') = jobs (as_pool q)" "queued (core q') = queued (core q)"
      by (auto intro!: as_pool_jobs_same queued_chans split: if_splits)
    ultimately show ?thesis by (simp add: actor_order_def)
  next
    case (CleanUp i)
    with step have "left_open q' < left_open q"
      by (intro left_open_less [of _ _ i]) (auto split: if_splits)
    moreover have "as_pool q' = as_pool q" using run_act_as_pool [OF step] CleanUp by simp
    moreover from step CleanUp have "queued (core q') = queued (core q)"
      by (intro queued_chans) (auto split: if_splits)
    ultimately show ?thesis by (simp add: actor_order_def)
  next
    case (DropRx i)
    with step have "left_open q' < left_open q"
      by (intro left_open_less [of _ _ i]) (auto simp: with_core_def close_rx_def split: if_splits)
    moreover from step DropRx dropped_queued [OF fin] have "queued (core q') \<le> queued (core q)"
      by (auto simp: with_core_def split: if_splits)
    moreover from step DropRx have "jobs (as_pool q') = jobs (as_pool q)"
      by (auto intro!: as_pool_jobs_same simp: with_core_def split: if_splits)
    ultimately show ?thesis by (auto simp: actor_order_def)
  qed
qed

lemma finite_busy_actor: "finite (busy (core q)) \<Longrightarrow> run_act a q = Some q' \<Longrightarrow> finite (busy (core q'))"
proof -
  assume fin: "finite (busy (core q))" and step: "run_act a q = Some q'"
  have "busy (as_pool r) = busy (core r)" for r by (simp add: busy_def)
  then show ?thesis
    using finite_busy_run [OF _ run_act_as_pool [OF step]] fin by metis
qed

definition actors_run_for_ever :: "actors \<Rightarrow> bool" where
  "actors_run_for_ever q \<longleftrightarrow> (\<exists>qs. qs 0 = q \<and> (\<forall>k. \<exists>a. run_act a (qs k) = Some (qs (Suc k))))"

lemma actors_finite:
  assumes "finite (busy (core q))"
  shows "\<not> actors_run_for_ever q"
proof
  assume "actors_run_for_ever q"
  then obtain qs where 0: "qs 0 = q" and step: "\<And>k. \<exists>a. run_act a (qs k) = Some (qs (Suc k))"
    by (auto simp: actors_run_for_ever_def)
  have "finite (busy (core (qs k)))" for k
  proof (induction k)
    case (Suc k)
    with step [of k] show ?case by (auto intro: finite_busy_actor)
  qed (simp add: 0 assms)
  with step have "(qs (Suc k), qs k) \<in> actor_order" for k
    using run_act_decreases by meson
  with wf_actor_order show False by (auto simp: wf_iff_no_infinite_down_chain)
qed


section \<open>Where no actor moves any more\<close>

definition actors_stuck :: "actors \<Rightarrow> bool" where
  "actors_stuck q \<longleftrightarrow> (\<forall>a. run_act a q = None)"

definition write_fails :: "act \<Rightarrow> bool" where
  "write_fails a \<longleftrightarrow> (case a of WriteFails _ \<Rightarrow> True | _ \<Rightarrow> False)"

text \<open>
  While no write fails: a cleanup sends nothing and has no writer beside it, and a writer that has
  ended belongs to a connection whose reader is through.
\<close>

definition settled :: "actors \<Rightarrow> bool" where
  "settled q \<longleftrightarrow>
     (\<forall>i < length (jobs (core q)). \<not> reading q i \<longrightarrow> sends_nothing (jobs (core q) ! i) \<and> \<not> writing (core q) (conn (core q) i)) \<and>
     (\<forall>tx. \<not> writing (core q) tx \<longrightarrow>
        (\<exists>i < length (jobs (core q)). conn (core q) i = tx \<and> (reading q i \<longrightarrow> jobs (core q) ! i = Done)))"

lemma settled_step:
  assumes s: "settled q" and step: "run_act a q = Some q'" and "\<not> write_fails a"
  shows "settled q'"
proof (cases a)
  case (Step i)
  with step obtain p where p: "i < length (jobs (core q))" "job_step i (core q) = Some p" "q' = q\<lparr>core := p\<rparr>"
    by (auto simp: with_core_def split: if_splits)
  then obtain t where t: "jobs p = (jobs (core q))[i := t]" "(t, jobs (core q) ! i) \<in> next_task"
    using job_step_next by blast
  from t(2) have "jobs (core q) ! i \<noteq> Done" by (auto simp: next_task_def)
  with s p(1) t job_step_frame [OF p(2)] sends_nothing_next [OF _ t(2)] show ?thesis
    unfolding settled_def p(3) by (auto simp: nth_list_update)
next
  case (CleanUp i)
  with s step show ?thesis
    by (auto simp: settled_def nth_list_update sends_nothing_cleanup split: if_splits) metis+
qed (use s step assms(3) in \<open>auto simp: settled_def write_fails_def with_core_def writer_breaks_def split: if_splits option.splits\<close>)

lemma settled_run:
  "settled q \<Longrightarrow> actors_run as q = Some q' \<Longrightarrow> list_all (\<lambda>a. \<not> write_fails a) as \<Longrightarrow> settled q'"
  by (induction as arbitrary: q) (auto dest: settled_step split: option.splits)

lemma settled_start: "settled (start_actors cd it txs s cs)"
  by (simp add: settled_def start_actors_def start_pool_def)

lemma stuck_not_reading:
  "actors_stuck q \<Longrightarrow> i < length (jobs (core q)) \<Longrightarrow> jobs (core q) ! i = Done \<Longrightarrow> \<not> reading q i"
  unfolding actors_stuck_def
  by (drule spec [of _ "if writing (core q) (conn (core q) i) then ReaderEnds i else CleanUp i"]) (auto split: if_splits)

lemma stuck_task:
  assumes stuck: "actors_stuck q" and i: "i < length (jobs (core q))"
  shows "job_step i (as_pool q) = None"
proof -
  note none = stuck [unfolded actors_stuck_def, rule_format]
  have own: "job_step i (core q) = None" using none [of "Step i"] i by (simp add: with_core_def)
  show ?thesis
  proof (cases "jobs (core q) ! i = Done")
    case True
    then have "\<not> reading q i" using stuck_not_reading [OF stuck i] by blast
    with True i show ?thesis by (simp add: task_of_def job_step_def)
  next
    case False
    show ?thesis
    proof (rule ccontr)
      assume "job_step i (as_pool q) \<noteq> None"
      with i own False show False
        by (cases "jobs (core q) ! i") (auto simp: job_step_def task_of_seq split_beta split: if_splits prod.splits send_result.splits)
    qed
  qed
qed

lemma stuck_over:
  assumes f: "follows P (as_pool q)" and r: "has_places (core q)" and s: "settled q" and stuck: "actors_stuck q"
    and i: "i < length (jobs (core q))"
  shows "jobs (core q) ! i = Done \<and> \<not> reading q i \<and> \<not> writing (core q) (conn (core q) i) \<and> \<not> rx_open (chans (core q) (conn (core q) i))"
proof -
  note none = stuck [unfolded actors_stuck_def, rule_format]
  have free: "holder (core q) = Map.empty"
    using some_task_moves [OF f] stuck_task [OF stuck] by (metis as_pool_simps(2,8))
  have drops: "\<not> rx_open (chans (core q) (conn (core q) j))"
    if "j < length (jobs (core q))" "\<not> reading q j" "jobs (core q) ! j = Done" for j
    using none [of "DropRx j"] that s by (auto simp: with_core_def settled_def split: if_splits)
  have over: "\<not> reading q j" if "j < length (jobs (core q))" "jobs (core q) ! j = Done" for j
    using stuck_not_reading [OF stuck that] .
  have "jobs (core q) ! j = Done" if j: "j < length (jobs (core q))" for j
  proof (rule ccontr)
    assume nd: "jobs (core q) ! j \<noteq> Done"
    have blocked: "\<exists>tx m t. jobs (core q) ! k = Send tx m t \<and> rx_open (chans (core q) tx) \<and>
        places (chans (core q) tx) \<le> length (queue (chans (core q) tx))" if "k < length (jobs (core q))" "jobs (core q) ! k \<noteq> Done" for k
    proof -
      have "task_of q k \<noteq> Done" using that(2) by (cases "jobs (core q) ! k") (auto simp: task_of_seq seq.simps(4))
      with task_waits_only_to_send [OF f _ _ stuck_task [OF stuck that(1)]] that(1) free
      obtain tx m t where "task_of q k = Send tx m t" "rx_open (chans (core q) tx)"
          "places (chans (core q) tx) \<le> length (queue (chans (core q) tx))" by auto
      with that(2) show ?thesis by (cases "jobs (core q) ! k") (auto simp: task_of_seq seq.simps(4))
    qed
    then obtain tx m t where tx: "jobs (core q) ! j = Send tx m t" "rx_open (chans (core q) tx)"
        "places (chans (core q) tx) \<le> length (queue (chans (core q) tx))" using j nd by blast
    from r tx(3) have "queue (chans (core q) tx) \<noteq> []"
      unfolding has_places_def by (metis leD list.size(3) not_le)
    then have "\<not> writing (core q) tx"
      using none [of "WriteFails tx"] by (auto simp: with_core_def writer_breaks_def recv_def split: list.splits)
    then obtain k where k: "k < length (jobs (core q))" "conn (core q) k = tx" "reading q k \<longrightarrow> jobs (core q) ! k = Done"
      using s by (auto simp: settled_def)
    with over have nr: "\<not> reading q k" by blast
    with k s have "sends_nothing (jobs (core q) ! k)" by (auto simp: settled_def)
    with blocked [OF k(1)] have "jobs (core q) ! k = Done" by (metis sends_nothing.simps(5))
    with drops [OF k(1) nr] k(2) tx(2) show False by simp
  qed
  with i have "jobs (core q) ! i = Done" by blast
  with over i drops s show ?thesis by (auto simp: settled_def)
qed

lemma taken_has_places:
  "has_places p \<Longrightarrow> recv (chans p tx) = Some (m, c) \<Longrightarrow> chans p' = (chans p)(tx := c) \<Longrightarrow> has_places p'"
  by (auto simp: has_places_def recv_def split: list.splits dest: spec [of _ tx])

lemma actor_has_places:
  assumes r: "has_places (core q)" and step: "run_act a q = Some q'"
  shows "has_places (core q')"
proof (cases a)
  case (Step i)
  with r step show ?thesis by (auto simp: with_core_def dest: job_step_frame split: if_splits)
next
  case (DropRx i)
  with r step show ?thesis by (auto simp: with_core_def has_places_def close_rx_def split: if_splits)
next
  case (ReaderEnds i)
  with r step show ?thesis by (auto simp: has_places_def split: if_splits)
next
  case (CleanUp i)
  with r step show ?thesis by (auto simp: has_places_def split: if_splits)
next
  case (Write tx)
  with step obtain m c where "recv (chans (core q) tx) = Some (m, c)" "chans (core q') = (chans (core q))(tx := c)"
    by (auto split: if_splits option.splits)
  with r show ?thesis by (rule taken_has_places)
qed (use step in \<open>auto simp: with_core_def writer_breaks_def split: if_splits option.splits intro: taken_has_places [OF r]\<close>)

lemma actors_have_places: "has_places (core q) \<Longrightarrow> actors_run as q = Some q' \<Longrightarrow> has_places (core q')"
  by (induction as arbitrary: q) (auto dest: actor_has_places split: option.splits)

lemma some_actors_schedule:
  "finite (busy (core q)) \<Longrightarrow> \<exists>as q'. actors_run as q = Some q' \<and> actors_stuck q'"
proof (induction q rule: wf_induct_rule [OF wf_actor_order])
  case (1 q)
  show ?case
  proof (cases "actors_stuck q")
    case True
    then show ?thesis by (intro exI [of _ "[]"]) simp
  next
    case False
    then obtain a q1 where a: "run_act a q = Some q1" by (auto simp: actors_stuck_def)
    with 1 finite_busy_actor run_act_decreases obtain as q' where "actors_run as q1 = Some q'" "actors_stuck q'"
      by meson
    with a show ?thesis by (intro exI [of _ "a # as"] exI [of _ q']) simp
  qed
qed


text \<open>
  C5: the concurrent broker terminates. Take any number of connections whose peers hang up at some time and
  whose packets call only objects that are known as services. No schedule of their reader tasks, writer
  loops and cleanups is infinite, whether writes fail or not. And a schedule in which no write fails and
  that cannot be continued has finished every connection: its reader has handled the last packet, its
  writer loop has ended after the shutdown signal, its cleanup is done and its receiver dropped. There
  is no deadlock, although a channel may be full and messages are left in it when its writer ends.
\<close>

theorem every_schedule_finishes:
  assumes "services_known (all_called cd cs) s"
  shows "\<not> actors_run_for_ever (start_actors cd it txs s cs) \<and>
     (\<forall>as q. actors_run as (start_actors cd it txs s cs) = Some q \<and> list_all (\<lambda>a. \<not> write_fails a) as \<and> actors_stuck q \<longrightarrow>
        (\<forall>i < length cs. jobs (core q) ! i = Done \<and> \<not> reading q i \<and> \<not> writing (core q) (txs i) \<and>
           \<not> rx_open (chans (core q) (txs i))))"
proof (intro conjI allI impI)
  let ?q0 = "start_actors cd it txs s cs"
  have start: "busy (core ?q0) = {}" "has_places (core ?q0)" "conn (core ?q0) = txs" "length (jobs (core ?q0)) = length cs"
    using start_pool_places by (simp_all add: start_actors_def) (simp_all add: start_pool_def)
  then show "\<not> actors_run_for_ever ?q0" by (intro actors_finite) simp
  fix as q i
  assume run: "actors_run as ?q0 = Some q \<and> list_all (\<lambda>a. \<not> write_fails a) as \<and> actors_stuck q" and i: "i < length cs"
  obtain mvs where "pool_run mvs (start_pool txs s (client_jobs cd it cs)) = Some (as_pool q)"
    using actors_run_as_pool run as_pool_start by metis
  then have "follows (services_known (all_called cd cs)) (as_pool q)"
    using fresh_client_jobs [OF assms] follows_run by blast
  moreover have "has_places (core q)" "settled q"
    using run start(2) actors_have_places settled_run settled_start by blast+
  moreover have "conn (core q) = txs" "length (jobs (core q)) = length cs"
    using run actors_run_conn start by metis+
  ultimately show "jobs (core q) ! i = Done" "\<not> reading q i" "\<not> writing (core q) (txs i)" "\<not> rx_open (chans (core q) (txs i))"
    using stuck_over run i by metis+
qed

text \<open>A connection alone whose packets have nothing sent.\<close>

lemma lone_connection_schedule:
  assumes quiet: "\<And>tx. sent_to tx (snd (run_task (reader_loop cd it c r) s)) = []"
  shows "\<exists>as q. actors_run as (start_actors cd it txs s [(c, r)]) = Some q \<and> list_all (\<lambda>a. \<not> write_fails a) as \<and> actors_stuck q"
proof -
  let ?q0 = "start_actors cd it txs s [(c, r)]" and ?t = "reader_loop cd it c r" and ?u = "cleanup_client c"
  define p1 where "p1 = after 0 ?t Done (core ?q0)"
  define p2 where "p2 = p1\<lparr>writing := (writing p1)(txs 0 := False), jobs := [?u]\<rparr>"
  define p3 where "p3 = after 0 ?u Done p2"
  define q1 where "q1 = ?q0\<lparr>core := p1\<rparr>"
  define q2 where "q2 = q1\<lparr>core := p2, reading := (\<lambda>_. True)(0 := False)\<rparr>"
  define p4 where "p4 = p3\<lparr>chans := (chans p3)(txs 0 := close_rx (chans p3 (txs 0)))\<rparr>"
  have "balanced [] ?t []" by (simp add: reader_loop_eq balanced_for_each balanced_dispatch)
  then have "runs_to 0 (core ?q0) p1"
    unfolding p1_def
    by (rule run_alone) (simp_all add: start_actors_def start_pool_def alone_def fits_def quiet new_channel_def)
  then obtain as1 where as1: "set as1 \<subseteq> {Step 0}" "actors_run as1 ?q0 = Some q1"
    unfolding q1_def using runs_to_actors by blast
  have p1: "jobs p1 = [Done]" "conn p1 = txs" "writing p1 = (\<lambda>_. True)" "holder p1 = Map.empty"
      "queue (chans p1 tx) = []" "places (chans p1 tx) = client_channel_places" "rx_open (chans p1 tx)" for tx
    by (simp_all add: p1_def after_def start_actors_def start_pool_def enqueue_def quiet new_channel_def)
  have end_reader: "actors_run [ReaderEnds 0, CleanUp 0] q1 = Some q2"
    using p1 by (simp add: q2_def q1_def p2_def start_actors_def)
  have "runs_to 0 p2 p3"
    unfolding p3_def
    by (rule run_alone [of _ "[]"]) (use p1 in \<open>simp_all add: p2_def alone_def fits_def run_cleanup balanced_cleanup\<close>)
  then obtain as2 where as2: "set as2 \<subseteq> {Step 0}" "actors_run as2 q2 = Some (q2\<lparr>core := p3\<rparr>)"
    using runs_to_actors [of 0 q2 p3] by (auto simp: q2_def)
  have p3: "jobs p3 = [Done]" "conn p3 = txs" "\<not> writing p3 (txs 0)" "queue (chans p3 tx) = []" "rx_open (chans p3 tx)" for tx
    using p1 by (simp_all add: p3_def p2_def after_def run_cleanup enqueue_def)
  have drop: "actors_run [DropRx 0] (q2\<lparr>core := p3\<rparr>) = Some (q2\<lparr>core := p4\<rparr>)"
    using p3 by (simp add: q2_def p4_def with_core_def)
  have "actors_stuck (q2\<lparr>core := p4\<rparr>)"
    unfolding actors_stuck_def
  proof
    fix a show "run_act a (q2\<lparr>core := p4\<rparr>) = None"
      using p3 by (cases a) (auto simp: q2_def p4_def with_core_def writer_breaks_def job_step_def recv_def close_rx_def)
  qed
  moreover have "actors_run (as1 @ [ReaderEnds 0, CleanUp 0] @ as2 @ [DropRx 0]) ?q0 = Some (q2\<lparr>core := p4\<rparr>)"
    by (rule actors_run_trans [OF as1(2) actors_run_trans [OF end_reader actors_run_trans [OF as2(2) drop]]])
  moreover have "list_all (\<lambda>a. \<not> write_fails a) (as1 @ [ReaderEnds 0, CleanUp 0] @ as2 @ [DropRx 0])"
    using as1(1) as2(1) by (auto simp: list_all_iff write_fails_def split: act.splits)
  ultimately show ?thesis by blast
qed

theorem every_schedule_finishes_witness:
  "\<exists>as q. actors_run as (start_actors demo_codec demo_order id service_state
       [(caller, \<lparr>avail = concat (map frame [[1]]), ends = None\<rparr>)]) = Some q \<and> actors_stuck q \<and>
     jobs (core q) ! 0 = Done \<and> \<not> rx_open (chans (core q) 0)"
proof -
  let ?r = "\<lparr>avail = concat (map frame [[1]]), ends = None\<rparr> :: reader"
  have bufs: "fst (read_all ?r) = [[1]]"
    using read_all_concat [of "[[1]]" "[]" None] by (simp add: read_all_empty packet_fits_def BUF_SIZE_eq)
  have "sent_to tx (snd (run_task (reader_loop demo_codec demo_order caller ?r) service_state)) = []" for tx
    using bufs by (simp add: reader_loop_eq dispatch_def run_handle_call run_call_activate Let_def service_state_def stopped_entry_def)
  then obtain as q where "actors_run as (start_actors demo_codec demo_order id service_state [(caller, ?r)]) = Some q"
      "list_all (\<lambda>a. \<not> write_fails a) as" "actors_stuck q"
    using lone_connection_schedule by blast
  with every_schedule_finishes [OF demo_call_known, of demo_order id] show ?thesis by fastforce
qed

end
