(* ===== verification/Activation.thy ===== *)
theory Activation
  imports Examples
begin

text \<open>
  Service activation in the running broker: calls for a stopped service start it once and wait in
  order, the worker that registers gets them in that order, a worker that disconnects makes the
  service startable again, and a service that never registers stays in its starting state.
\<close>

section \<open>A burst of calls\<close>

type_synonym call = "CallId \<times> string \<times> json \<times> ClientId"

text \<open>Calls of several clients for one object, handled one after the other.\<close>

definition handle_calls :: "codec \<Rightarrow> string \<Rightarrow> call list \<Rightarrow> task" where
  "handle_calls cd n cs = for_each (\<lambda>(ci, m, a, cid). handle_call cd ci n m a cid) cs"

definition call_requests :: "string \<Rightarrow> call list \<Rightarrow> RpcRequest list" where
  "call_requests n cs = map (\<lambda>(ci, m, a, cid). Call ci n m a) cs"

lemma handle_calls_simps [simp]:
  "handle_calls cd n [] = Done"
  "handle_calls cd n ((ci, m, a, cid) # cs) = seq (handle_call cd ci n m a cid) (handle_calls cd n cs)"
  by (simp_all add: handle_calls_def)

lemma run_queued_call:
  assumes "clients s cid \<noteq> None" "objects s n = None" "services s n = Some svc"
    and "\<forall>w. state svc \<noteq> Running w" and "run_task (handle_call cd ci n m a cid) s = (s', es)"
  shows "objects s' = objects s" "clients s' = clients s"
    "services s' = (services s)(n \<mapsto> svc\<lparr>state := Starting, pending_calls := pending_calls svc @ [Call ci n m a]\<rparr>)"
    "es = (if state svc = Stopped then [Spawned (spawn_service (service_name svc))] else [])"
  using assms by (auto simp: run_handle_call run_call_activate Let_def split: ServiceState.splits option.splits)

lemma run_burst:
  assumes "\<forall>(ci, m, a, cid) \<in> set cs. clients s cid \<noteq> None"
    and "objects s n = None" "services s n = Some svc" "state svc = Starting"
  shows "objects (fst (run_task (handle_calls cd n cs) s)) = objects s \<and>
    clients (fst (run_task (handle_calls cd n cs) s)) = clients s \<and>
    services (fst (run_task (handle_calls cd n cs) s)) =
      (services s)(n \<mapsto> svc\<lparr>pending_calls := pending_calls svc @ call_requests n cs\<rparr>) \<and>
    snd (run_task (handle_calls cd n cs) s) = []"
  using assms
proof (induction cs arbitrary: s svc)
  case Nil
  then show ?case by (simp add: call_requests_def fun_upd_idem)
next
  case (Cons c cs)
  obtain ci m a cid where c: "c = (ci, m, a, cid)" by (cases c) auto
  obtain s1 es1 where run: "run_task (handle_call cd ci n m a cid) s = (s1, es1)" by force
  have cid: "clients s cid \<noteq> None" and idle: "\<forall>w. state svc \<noteq> Running w"
    using Cons.prems(1,4) c by auto
  note q = run_queued_call [OF cid Cons.prems(2,3) idle run]
  let ?svc1 = "svc\<lparr>state := Starting, pending_calls := pending_calls svc @ [Call ci n m a]\<rparr>"
  have svc1: "?svc1 = svc\<lparr>pending_calls := pending_calls svc @ [Call ci n m a]\<rparr>"
    using Cons.prems(4) by (cases svc) simp
  have IH: "objects (fst (run_task (handle_calls cd n cs) s1)) = objects s1 \<and>
      clients (fst (run_task (handle_calls cd n cs) s1)) = clients s1 \<and>
      services (fst (run_task (handle_calls cd n cs) s1)) =
        (services s1)(n \<mapsto> ?svc1\<lparr>pending_calls := pending_calls ?svc1 @ call_requests n cs\<rparr>) \<and>
      snd (run_task (handle_calls cd n cs) s1) = []"
    by (rule Cons.IH) (use Cons.prems c q in auto)
  then show ?case
    using q Cons.prems(4) by (simp add: c run_seq run split_beta Let_def call_requests_def svc1)
qed

text \<open>The burst as a whole: one start, and the calls wait in their order.\<close>

lemma burst_starts_once:
  assumes "cs \<noteq> []" "\<forall>(ci, m, a, cid) \<in> set cs. clients s cid \<noteq> None"
    and "objects s n = None" "services s n = Some svc" "state svc = Stopped"
  shows "\<exists>s2. run_task (handle_calls cd n cs) s = (s2, [Spawned (spawn_service (service_name svc))]) \<and>
     clients s2 = clients s \<and> objects s2 = objects s \<and>
     services s2 n = Some (svc\<lparr>state := Starting, pending_calls := pending_calls svc @ call_requests n cs\<rparr>)"
proof -
  obtain c cs' where cs: "cs = c # cs'" using assms(1) by (cases cs) auto
  obtain ci m a cid where c: "c = (ci, m, a, cid)" by (cases c) auto
  obtain s1 es1 where run: "run_task (handle_call cd ci n m a cid) s = (s1, es1)" by force
  have cid: "clients s cid \<noteq> None" and idle: "\<forall>w. state svc \<noteq> Running w"
    using assms(2,5) cs c by auto
  note q = run_queued_call [OF cid assms(3,4) idle run]
  let ?svc1 = "svc\<lparr>state := Starting, pending_calls := pending_calls svc @ [Call ci n m a]\<rparr>"
  have "objects (fst (run_task (handle_calls cd n cs') s1)) = objects s1 \<and>
      clients (fst (run_task (handle_calls cd n cs') s1)) = clients s1 \<and>
      services (fst (run_task (handle_calls cd n cs') s1)) =
        (services s1)(n \<mapsto> ?svc1\<lparr>pending_calls := pending_calls ?svc1 @ call_requests n cs'\<rparr>) \<and>
      snd (run_task (handle_calls cd n cs') s1) = []"
    using run_burst [of cs' s1 n ?svc1 cd] assms(2,3) cs q by auto
  with q assms(5) show ?thesis
    by (cases svc) (auto simp: cs c run_seq run split_beta Let_def call_requests_def)
qed

section \<open>Properties\<close>

text \<open>However many calls arrive for a stopped service before its worker registers, the service is
  started exactly once, and the worker that registers receives exactly the waiting calls, oldest
  first, before its own acknowledgement; afterwards the service is running, owned and its queue is
  empty.\<close>

theorem burst_starts_once_and_flushes_in_order:
  assumes "cs \<noteq> []" "\<forall>(ci, m, a, cid) \<in> set cs. clients s cid \<noteq> None"
    and "objects s n = None" "services s n = Some svc" "state svc = Stopped"
    and "clients s w = Some wtx" and "\<forall>r. \<exists>b. req_to_vec cd r = Some b"
    and "resp_to_vec cd (Registered n) = Some ack"
    and "run_task (seq (handle_calls cd n cs) (handle_register_object cd n w)) s = (s', es)"
  shows "es = Spawned (spawn_service (service_name svc))
        # map (\<lambda>r. Sent wtx (Outgoing (the (req_to_vec cd r)))) (pending_calls svc @ call_requests n cs)
        @ [Sent wtx (Outgoing ack)]
    \<and> services s' n = Some (svc\<lparr>state := Running w, pending_calls := [], owner := Some w\<rparr>)
    \<and> objects s' n = Some w"
proof -
  obtain s2 where s2: "run_task (handle_calls cd n cs) s = (s2, [Spawned (spawn_service (service_name svc))])"
      "clients s2 = clients s"
      "services s2 n = Some (svc\<lparr>state := Starting, pending_calls := pending_calls svc @ call_requests n cs\<rparr>)"
    using burst_starts_once [OF assms(1-5)] by blast
  have enc: "to_client t w (req_to_vec cd r) = [Sent wtx (Outgoing (the (req_to_vec cd r)))]"
    if "clients t = clients s" for t r
    using assms(6,7) that by (metis option.sel to_client_simps(1))
  have ack: "to_client s2 w (resp_to_vec cd (Registered n)) = [Sent wtx (Outgoing ack)]"
    using assms(6,8) s2(2) by simp
  from assms(9) s2 ack show ?thesis
    by (cases svc) (auto simp: run_seq run_register_object enc concat_map_singleton Let_def comp_def)
qed

theorem burst_starts_once_and_flushes_in_order_witness:
  "snd (run_task (seq (handle_calls demo_codec ''math'' [(call_1, ''add'', JNull, caller), (call_1, ''add'', JNull, worker)])
      (handle_register_object demo_codec ''math'' worker)) service_state)
   = [Spawned (''/usr/bin/sudo'', [''/usr/bin/systemctl'', ''restart'', ''math.service'']),
      Sent 1 (Outgoing [1]), Sent 1 (Outgoing [1]), Sent 1 (Outgoing [12])]"
proof -
  let ?cs = "[(call_1, ''add'', JNull, caller), (call_1, ''add'', JNull, worker)]"
  have "\<forall>r. \<exists>b. req_to_vec demo_codec r = Some b" by (simp add: demo_codec_def)
  note this [simp]
  have "?cs \<noteq> []" "\<forall>(ci, m, a, cid) \<in> set ?cs. clients service_state cid \<noteq> None"
    "objects service_state ''math'' = None" "services service_state ''math'' = Some (stopped_entry ''math.service'')"
    "state (stopped_entry ''math.service'') = Stopped" "clients service_state worker = Some 1"
    by (simp_all add: service_state_def stopped_entry_def)
  from burst_starts_once_and_flushes_in_order
    [OF this \<open>\<forall>r. \<exists>b. req_to_vec demo_codec r = Some b\<close> demo_encodings(7) prod.collapse [symmetric]]
  show ?thesis
    by (simp add: stopped_entry_def call_requests_def spawn_service_def)
qed

text \<open>Events that register an object or a service of the given name.\<close>

fun registers :: "codec \<Rightarrow> string \<Rightarrow> event \<Rightarrow> bool" where
  "registers cd n (Packet c buf) \<longleftrightarrow>
     (case decode_packet cd buf of
        InRequest (RegisterObject n') \<Rightarrow> n' = n | InRequest (RegisterService n' _) \<Rightarrow> n' = n | _ \<Rightarrow> False)"
| "registers cd n _ \<longleftrightarrow> False"

definition starting :: "ServerState \<Rightarrow> string \<Rightarrow> bool" where
  "starting s n \<longleftrightarrow> (\<exists>svc. services s n = Some svc \<and> state svc = Starting)"

lemma starting_unowned:
  assumes "broker_ok s" "services s n = Some svc" "state svc = Starting"
  shows "objects s n = None" and "owner svc = None"
  using service_okD [OF broker_okD(4) [OF assms(1,2)]] assms(3) by (cases "owner svc"; auto)+

lemma starting_call:
  assumes ok: "broker_ok s" and st: "starting s n"
  shows "starting (fst (run_task (handle_call cd ci n' m a c) s)) n"
    and "snd (run_task (handle_call cd ci n m a c) s) = []"
proof -
  from st obtain svc where svc: "services s n = Some svc" "state svc = Starting"
    by (auto simp: starting_def)
  have "objects s n = None" by (rule starting_unowned [OF ok svc])
  with svc show "snd (run_task (handle_call cd ci n m a c) s) = []"
    by (auto simp: run_handle_call run_call_activate Let_def split: option.split)
  show "starting (fst (run_task (handle_call cd ci n' m a c) s)) n"
    using svc by (auto simp: starting_def run_handle_call run_call_activate Let_def
        split: option.split ServiceState.split)
qed

lemma starting_event:
  assumes ok: "broker_ok s" and st: "starting s n" and ev: "\<not> registers cd n ev"
  shows "starting (fst (run_task (event_task cd it ev) s)) n"
proof (cases ev)
  case (Packet c buf)
  show ?thesis
  proof (cases "decode_packet cd buf")
    case (InRequest req)
    with Packet ev st starting_call(1) [OF ok st] show ?thesis
      by (cases req)
        (auto simp: dispatch_def run_register_object run_register_service run_subscribe run_publish
          run_has_object starting_def split: option.split)
  qed (use Packet st in \<open>auto simp: dispatch_def run_response starting_def split: option.split\<close>)
next
  case (Disconnect c)
  from st obtain svc where svc: "services s n = Some svc" "state svc = Starting"
    by (auto simp: starting_def)
  with starting_unowned(2) [OF ok svc] Disconnect show ?thesis
    by (simp add: starting_def run_cleanup purge_services_def cleanup_service_def)
qed (use st in \<open>simp add: starting_def run_spawn_client\<close>)

text \<open>C29: Nothing but a registration under its name takes a service out of the starting state: through
  any history without one, disconnections included, it stays starting and nobody owns its object. A call
  for it that a connected client makes then is recorded as open and joins the end of the service's queue,
  with nothing else changed: no answer is sent and no further attempt is made to start the service. The
  call of a client that is no longer connected changes nothing.\<close>

theorem starting_service_waits_for_registration:
  assumes "reachable cd it s" "services s n = Some svc" "state svc = Starting"
    and "enabled_history cd it evs s" "\<forall>ev \<in> set evs. \<not> registers cd n ev"
    and "run_task (history cd it evs) s = (s', es)"
  shows "\<exists>svc'. services s' n = Some svc' \<and> state svc' = Starting \<and> objects s' n = None \<and>
    (\<forall>ci m a c. run_task (handle_call cd ci n m a c) s' =
       (case clients s' c of
          None \<Rightarrow> (s', [])
        | Some tx \<Rightarrow>
            (s'\<lparr>calls := (calls s')(ci \<mapsto> (c, tx)),
                services := (services s')(n \<mapsto> svc'\<lparr>pending_calls := pending_calls svc' @ [Call ci n m a]\<rparr>)\<rparr>, [])))"
proof -
  have "starting s n" using assms(2,3) by (simp add: starting_def)
  with assms(1,4,5) have "broker_ok (fst (run_task (history cd it evs) s)) \<and>
      starting (fst (run_task (history cd it evs) s)) n"
  proof (induction evs arbitrary: s)
    case Nil
    then show ?case by (simp add: reachable_ok)
  next
    case (Cons ev evs)
    have "broker_step cd it s (fst (run_task (event_task cd it ev) s))"
      using Cons.prems(2) by (intro broker_step.event [OF _ prod.collapse [symmetric]]) simp
    with Cons.prems show ?case
      using Cons.IH [OF reachable_step] starting_event [OF reachable_ok] by simp
  qed
  with assms(6) have ok: "broker_ok s'" and st: "starting s' n" by simp_all
  from st obtain svc' where svc': "services s' n = Some svc'" "state svc' = Starting"
    by (auto simp: starting_def)
  note free = starting_unowned(1) [OF ok this]
  with svc' have "run_task (handle_call cd ci n m a c) s' =
      (case clients s' c of
          None \<Rightarrow> (s', [])
        | Some tx \<Rightarrow>
            (s'\<lparr>calls := (calls s')(ci \<mapsto> (c, tx)),
                services := (services s')(n \<mapsto> svc'\<lparr>pending_calls := pending_calls svc' @ [Call ci n m a]\<rparr>)\<rparr>, []))" for ci m a c
    by (cases svc') (simp add: run_handle_call run_call_activate Let_def split: option.split)
  with svc' free show ?thesis by blast
qed

theorem starting_service_waits_for_registration_witness:
  "\<exists>s' svc'. s' = fst (run_task (history demo_codec demo_order [Packet caller [1], Disconnect caller])
        (fst (run_task (handle_call demo_codec call_1 ''math'' ''add'' JNull caller) service_state))) \<and>
     services s' ''math'' = Some svc' \<and> state svc' = Starting \<and>
     (\<forall>tx. clients s' worker = Some tx \<longrightarrow>
        pending_calls (the (services (fst (run_task (handle_call demo_codec call_1 ''math'' ''add'' JNull worker) s')) ''math''))
          = pending_calls svc' @ [Call call_1 ''math'' ''add'' JNull])"
proof -
  let ?s = "fst (run_task (handle_call demo_codec call_1 ''math'' ''add'' JNull caller) service_state)"
  let ?svc = "(stopped_entry ''math.service'')\<lparr>state := Starting, pending_calls := [Call call_1 ''math'' ''add'' JNull]\<rparr>"
  let ?evs = "[Packet caller [1], Disconnect caller]"
  have s: "?s = service_state\<lparr>calls := [call_1 \<mapsto> (caller, 2)], services := [''math'' \<mapsto> ?svc]\<rparr>"
    by (simp add: run_handle_call run_call_activate service_state_def stopped_entry_def Let_def)
  have "enabled service_state (Packet caller [1])" by (simp add: service_state_def)
  moreover have "run_task (event_task demo_codec demo_order (Packet caller [1])) service_state = (?s, [Spawned (spawn_service ''math.service'')])"
    by (simp add: dispatch_def run_handle_call run_call_activate service_state_def stopped_entry_def Let_def)
  ultimately have "reachable demo_codec demo_order ?s"
    by (blast intro: reachable_step service_reachable broker_step.event)
  moreover have "services ?s ''math'' = Some ?svc" "state ?svc = Starting"
    by (simp_all add: s)
  moreover have "enabled_history demo_codec demo_order ?evs ?s"
    by (simp add: s service_state_def dispatch_def run_handle_call run_call_activate Let_def stopped_entry_def)
  moreover have "\<forall>ev \<in> set ?evs. \<not> registers demo_codec ''math'' ev" by simp
  moreover define s' where "s' = fst (run_task (history demo_codec demo_order ?evs) ?s)"
  have h: "run_task (history demo_codec demo_order ?evs) ?s = (s', snd (run_task (history demo_codec demo_order ?evs) ?s))"
    unfolding s'_def by (rule prod.collapse [symmetric])
  ultimately obtain svc' where "services s' ''math'' = Some svc'" "state svc' = Starting"
      "\<forall>ci m a c. run_task (handle_call demo_codec ci ''math'' m a c) s' =
       (case clients s' c of
          None \<Rightarrow> (s', [])
        | Some tx \<Rightarrow>
            (s'\<lparr>calls := (calls s')(ci \<mapsto> (c, tx)),
                services := (services s')(''math'' \<mapsto> svc'\<lparr>pending_calls := pending_calls svc' @ [Call ci ''math'' m a]\<rparr>)\<rparr>, []))"
    using starting_service_waits_for_registration [OF _ _ _ _ _ h] by blast
  with s'_def show ?thesis by (intro exI [of _ s'] exI [of _ svc']) simp
qed

text \<open>C28: When the worker of a service disconnects, the service is stopped and unowned again, and the
  next call for it starts it once more, with that call alone in its queue.\<close>

theorem lost_worker_is_restarted:
  assumes "reachable cd it s" "services s n = Some svc" "owner svc = Some w"
    and "clients s c \<noteq> None" "c \<noteq> w"
    and "run_task (cleanup_client w) s = (s1, es1)"
    and "run_task (handle_call cd ci n m a c) s1 = (s2, es2)"
  shows "services s1 n = Some (svc\<lparr>owner := None, state := Stopped, pending_calls := []\<rparr>)
    \<and> es2 = [Spawned (spawn_service (service_name svc))]
    \<and> services s2 n = Some (svc\<lparr>owner := None, state := Starting, pending_calls := [Call ci n m a]\<rparr>)"
proof -
  have "objects s n = Some w"
    using broker_okD(4) [OF reachable_ok [OF assms(1)] assms(2)] assms(3) by (rule service_okD(1))
  then have gone: "objects s1 n = None" "clients s1 c \<noteq> None"
    and s1: "services s1 n = Some (svc\<lparr>owner := None, state := Stopped, pending_calls := []\<rparr>)"
    using assms(2-6) by (auto simp: run_cleanup purge_objects_def purge_clients_def purge_services_def
        cleanup_service_def map_retain_None)
  from run_queued_call [OF gone(2,1) s1 _ assms(7)] s1 show ?thesis
    by (cases svc) simp
qed

theorem lost_worker_is_restarted_witness:
  "snd (run_task (handle_call demo_codec call_1 ''math'' ''add'' JNull caller)
     (fst (run_task (cleanup_client worker) (fst (run_task (handle_register_object demo_codec ''math'' worker) service_state)))))
   = [Spawned (spawn_service ''math.service'')]"
proof -
  let ?s = "fst (run_task (handle_register_object demo_codec ''math'' worker) service_state)"
  let ?svc = "(stopped_entry ''math.service'')\<lparr>state := Running worker, owner := Some worker, pending_calls := []\<rparr>"
  have "enabled service_state (Packet worker [2])" by (simp add: service_state_def)
  moreover have "run_task (event_task demo_codec demo_order (Packet worker [2])) service_state = (?s, snd (run_task (handle_register_object demo_codec ''math'' worker) service_state))"
    by (simp add: dispatch_def)
  ultimately have "reachable demo_codec demo_order ?s"
    by (blast intro: reachable_step service_reachable broker_step.event)
  moreover have "services ?s ''math'' = Some ?svc" "owner ?svc = Some worker" "clients ?s caller \<noteq> None"
    by (simp_all add: service_state_def run_register_object)
  ultimately show ?thesis
    using lost_worker_is_restarted [OF _ _ _ _ _ prod.collapse [symmetric] prod.collapse [symmetric]]
    by (simp add: stopped_entry_def)
qed

end
