(* ===== verification/Worker.thy ===== *)
theory Worker
  imports Framing
begin

text \<open>
  The worker runtime, \<^verbatim>\<open>src/src/worker.rs\<close> on Unix: the builder, one connection (register every
  object, then answer calls until the stream ends, a write fails or a shutdown signal arrives), and
  the supervisor that connects again.

  Parameters: the shared objects, code of the crate's users, as functions of a state of their own;
  the order in which the object map is iterated; what each connection attempt yields, and when a
  shutdown signal wins the \<open>tokio::select!\<close>: after how many packets, if at all.
\<close>

section \<open>Objects and builder\<close>

type_synonym 'o shared_object = "'o \<Rightarrow> string \<Rightarrow> json \<Rightarrow> json \<times> 'o"

record 'o worker_builder =
  builder_objects :: "string \<rightharpoonup> 'o shared_object"
  shutdown_rx :: bool  \<comment> \<open>whether a watch channel for graceful shutdown is attached\<close>

definition new_builder :: "'o worker_builder" where
  "new_builder = \<lparr>builder_objects = Map.empty, shutdown_rx = False\<rparr>"

definition add_object :: "string \<Rightarrow> 'o shared_object \<Rightarrow> 'o worker_builder \<Rightarrow> 'o worker_builder" where
  "add_object name obj b = b\<lparr>builder_objects := (builder_objects b)(name \<mapsto> obj)\<rparr>"

definition with_graceful_shutdown :: "'o worker_builder \<Rightarrow> 'o worker_builder" where
  "with_graceful_shutdown b = b\<lparr>shutdown_rx := True\<rparr>"

section \<open>One connection\<close>

text \<open>The registrations, in the order \<open>ks\<close> of the keys; \<open>msg\<close> is the serialiser's error message.\<close>

fun register_all :: "codec \<Rightarrow> string \<Rightarrow> string list \<Rightarrow> writer \<Rightarrow> io_error option \<times> writer" where
  "register_all cd msg [] w = (None, w)"
| "register_all cd msg (name # ks) w =
     (case req_to_vec cd (RegisterObject name) of
        None \<Rightarrow> (Some (IoError InvalidData msg), w)
      | Some data \<Rightarrow>
          (case write_packet w data of
             (Some e, w') \<Rightarrow> (Some e, w')
           | (None, w') \<Rightarrow> register_all cd msg ks w'))"

text \<open>A packet: the answer to write, if there is one, and the objects' state afterwards.\<close>

definition worker_packet ::
    "codec \<Rightarrow> (string \<rightharpoonup> 'o shared_object) \<Rightarrow> bytes \<Rightarrow> 'o \<Rightarrow> bytes option \<times> 'o" where
  "worker_packet cd objs buf st =
     (case decode_packet cd buf of
        InRequest (Call call_id object_name method args) \<Rightarrow>
          (case objs object_name of
             None \<Rightarrow> (None, st)
           | Some obj \<Rightarrow>
               (case obj st method args of
                  (result, st') \<Rightarrow> (resp_to_vec cd (Result call_id object_name result), st')))
      | _ \<Rightarrow> (None, st))"

text \<open>
  The receive loop; \<open>stop = Some n\<close> when a shutdown signal wins after \<open>n\<close> more packets. The
  result is the error that ended the loop, if any.
\<close>

function worker_loop ::
    "codec \<Rightarrow> (string \<rightharpoonup> 'o shared_object) \<Rightarrow> nat option \<Rightarrow> reader \<Rightarrow> writer \<Rightarrow> 'o
      \<Rightarrow> io_error option \<times> writer \<times> 'o" where
  "worker_loop cd objs stop r w st =
     (if stop = Some 0 then (None, w, st)
      else case read_packet r of
        (Inl e, _) \<Rightarrow> (Some e, w, st)
      | (Inr buf, r') \<Rightarrow>
          (case worker_packet cd objs buf st of
             (None, st') \<Rightarrow> worker_loop cd objs (map_option (\<lambda>n. n - 1) stop) r' w st'
           | (Some resp_bytes, st') \<Rightarrow>
               (case write_packet w resp_bytes of
                  (Some e, w') \<Rightarrow> (Some e, w', st')
                | (None, w') \<Rightarrow> worker_loop cd objs (map_option (\<lambda>n. n - 1) stop) r' w' st')))"
  by pat_completeness auto
termination
  by (relation "measure (\<lambda>(cd, objs, stop, r, w, st). length (avail r))")
    (auto intro: read_packet_shrinks [OF sym])

declare worker_loop.simps [simp del]

definition run_worker ::
    "codec \<Rightarrow> string \<Rightarrow> string list \<Rightarrow> (string \<rightharpoonup> 'o shared_object) \<Rightarrow> nat option
      \<Rightarrow> io_error + (reader \<times> writer) \<Rightarrow> 'o \<Rightarrow> (io_error option \<times> writer option) \<times> 'o" where
  "run_worker cd msg ks objs stop connection st =
     (case connection of
        Inl e \<Rightarrow> ((Some e, None), st)
      | Inr (r, w) \<Rightarrow>
          (case register_all cd msg ks w of
             (Some e, w') \<Rightarrow> ((Some e, Some w'), st)
           | (None, w') \<Rightarrow>
               (case worker_loop cd objs stop r w' st of (err, w'', st') \<Rightarrow> ((err, Some w''), st'))))"

section \<open>The supervisor\<close>

text \<open>
  An attempt is what connecting yields, when the loop is stopped, and whether a shutdown signal
  arrives during the pause of two seconds after a failure. The result says whether the supervisor
  has ended, and after how many attempts.
\<close>

record attempt =
  connection :: "io_error + (reader \<times> writer)"
  stopped_after :: "nat option"
  stopped_in_pause :: bool

fun worker_supervisor ::
    "codec \<Rightarrow> string \<Rightarrow> string list \<Rightarrow> (string \<rightharpoonup> 'o shared_object) \<Rightarrow> attempt list \<Rightarrow> 'o
      \<Rightarrow> bool \<times> writer option list \<times> 'o" where
  "worker_supervisor cd msg ks objs [] st = (False, [], st)"
| "worker_supervisor cd msg ks objs (a # as) st =
     (case run_worker cd msg ks objs (stopped_after a) (connection a) st of
        ((None, out), st') \<Rightarrow> (True, [out], st')
      | ((Some e, out), st') \<Rightarrow>
          (if stopped_in_pause a then (True, [out], st')
           else case worker_supervisor cd msg ks objs as st' of
             (ended, outs, st'') \<Rightarrow> (ended, out # outs, st'')))"

section \<open>What a worker says\<close>

text \<open>
  The specification of a worker, on messages: a call of one of its objects is answered by exactly
  one result with the call's id and object, anything else by nothing.
\<close>

fun worker_answer :: "(string \<rightharpoonup> 'o shared_object) \<Rightarrow> incoming \<Rightarrow> 'o \<Rightarrow> RpcResponse option \<times> 'o" where
  "worker_answer objs (InRequest (Call ci n m a)) st =
     (case objs n of
        None \<Rightarrow> (None, st)
      | Some obj \<Rightarrow> (Some (Result ci n (fst (obj st m a))), snd (obj st m a)))"
| "worker_answer objs _ st = (None, st)"

fun worker_answers :: "(string \<rightharpoonup> 'o shared_object) \<Rightarrow> incoming list \<Rightarrow> 'o \<Rightarrow> RpcResponse list \<times> 'o" where
  "worker_answers objs [] st = ([], st)"
| "worker_answers objs (p # ps) st =
     (let (ans, st1) = worker_answer objs p st; (answers, st2) = worker_answers objs ps st1
      in ((case ans of None \<Rightarrow> answers | Some resp \<Rightarrow> resp # answers), st2))"

definition payload_ok :: "codec \<Rightarrow> RpcResponse \<Rightarrow> bool" where
  "payload_ok cd resp \<longleftrightarrow> (case resp_to_vec cd resp of None \<Rightarrow> False | Some b \<Rightarrow> packet_fits b)"

definition registration_ok :: "codec \<Rightarrow> string \<Rightarrow> bool" where
  "registration_ok cd n \<longleftrightarrow> (case req_to_vec cd (RegisterObject n) of None \<Rightarrow> False | Some b \<Rightarrow> packet_fits b)"

lemma worker_packet_answer:
  "worker_packet cd objs buf st =
     (case worker_answer objs (decode_packet cd buf) st of
        (None, st') \<Rightarrow> (None, st') | (Some resp, st') \<Rightarrow> (resp_to_vec cd resp, st'))"
  by (simp add: worker_packet_def split: incoming.split RpcRequest.split option.split prod.split)

lemma register_all_healthy:
  "list_all (registration_ok cd) ks \<Longrightarrow> room w = None \<Longrightarrow> flush_err w = None \<Longrightarrow>
   register_all cd msg ks w =
     (None, w\<lparr>sent := sent w @ concat (map (\<lambda>n. frame (the (req_to_vec cd (RegisterObject n)))) ks)\<rparr>)"
proof (induction ks arbitrary: w)
  case (Cons n ks)
  from Cons.prems obtain b where b: "req_to_vec cd (RegisterObject n) = Some b" "length b \<le> BUF_SIZE"
    by (auto simp: registration_ok_def packet_fits_def split: option.splits)
  with Cons show ?case by (simp add: write_packet_unlimited)
qed simp

lemma worker_loop_healthy:
  assumes "list_all (payload_ok cd) (fst (worker_answers objs (map (decode_packet cd) (fst (read_all r))) st))"
    and "room w = None" "flush_err w = None"
  shows "worker_loop cd objs None r w st =
     (Some (snd (read_all r)),
      w\<lparr>sent := sent w @ concat (map (\<lambda>resp. frame (the (resp_to_vec cd resp)))
          (fst (worker_answers objs (map (decode_packet cd) (fst (read_all r))) st)))\<rparr>,
      snd (worker_answers objs (map (decode_packet cd) (fst (read_all r))) st))"
  using assms
proof (induction r arbitrary: w st rule: read_all.induct)
  case (1 r)
  show ?case
  proof (cases "read_packet r")
    case (Pair res r')
    show ?thesis
    proof (cases res)
      case (Inl e)
      with Pair show ?thesis by (simp add: worker_loop.simps [of _ _ _ r] read_all_Err)
    next
      case (Inr buf)
      with Pair have all: "read_all r = (buf # fst (read_all r'), snd (read_all r'))"
        by (simp add: read_all_Ok)
      obtain ans st1 where ans: "worker_answer objs (decode_packet cd buf) st = (ans, st1)" by force
      note IH = 1(1) [OF Pair [symmetric] Inr]
      show ?thesis
      proof (cases ans)
        case None
        with IH [of st1 w] 1(2-) ans Pair Inr all show ?thesis
          by (simp add: worker_loop.simps [of _ _ _ r] worker_packet_answer split_beta)
      next
        case (Some resp)
        with 1(2) ans all obtain b where b: "resp_to_vec cd resp = Some b" "length b \<le> BUF_SIZE"
          by (auto simp: payload_ok_def packet_fits_def split_beta split: option.splits)
        with IH [of st1 "w\<lparr>sent := sent w @ frame b\<rparr>"] Some 1(2-) ans Pair Inr all show ?thesis
          by (simp add: worker_loop.simps [of _ _ _ r] worker_packet_answer split_beta write_packet_unlimited)
      qed
    qed
  qed
qed

end
