(* ===== verification/Worker_Protocol.thy ===== *)
theory Worker_Protocol
  imports Worker Examples
begin

text \<open>
  What the broker can rely on from a worker: one result per call of a known object, with the call's
  id; all objects registered again on every connection; and what happens to a result that no packet
  can hold.
\<close>

section \<open>Lemmas\<close>

lemma write_packet_grows: "write_packet w d = (res, w') \<Longrightarrow> \<exists>x. sent w' = sent w @ x"
  using write_all_prefix by (auto simp: write_packet_def write_all_def split: if_splits option.splits prod.splits)

lemma worker_loop_grows: "worker_loop cd objs stop r w st = (err, w', st') \<Longrightarrow> \<exists>x. sent w' = sent w @ x"
proof (induction cd objs stop r w st rule: worker_loop.induct)
  case (1 cd objs stop r w st)
  show ?case
  proof (cases "stop = Some 0")
    case True
    with "1.prems" show ?thesis by (simp add: worker_loop.simps [of _ _ _ r])
  next
    case False
    obtain res r' where rp: "read_packet r = (res, r')" by force
    show ?thesis
    proof (cases res)
      case (Inl e)
      with "1.prems" rp False show ?thesis by (simp add: worker_loop.simps [of _ _ _ r])
    next
      case (Inr buf)
      obtain ans st1 where wp: "worker_packet cd objs buf st = (ans, st1)" by force
      show ?thesis
      proof (cases ans)
        case None
        with "1.prems" "1.IH"(1) [OF False rp [symmetric] Inr wp [symmetric]] rp False Inr wp show ?thesis
          by (simp add: worker_loop.simps [of _ _ _ r])
      next
        case (Some b)
        obtain we w1 where wr: "write_packet w b = (we, w1)" by force
        obtain x where "sent w1 = sent w @ x" using write_packet_grows [OF wr] by blast
        with "1.prems" "1.IH"(2) [OF False rp [symmetric] Inr wp [symmetric] Some wr [symmetric]] rp False Inr wp Some wr
        show ?thesis
          by (cases we) (auto simp: worker_loop.simps [of _ _ _ r])
      qed
    qed
  qed
qed

definition registrations :: "codec \<Rightarrow> string list \<Rightarrow> bytes list" where
  "registrations cd ks = map (\<lambda>n. the (req_to_vec cd (RegisterObject n))) ks"

lemma registrations_fit: "list_all (registration_ok cd) ks \<Longrightarrow> list_all packet_fits (registrations cd ks)"
  by (auto simp: registrations_def list_all_iff registration_ok_def split: option.splits)

lemma register_all_frames:
  "list_all (registration_ok cd) ks \<Longrightarrow> room w = None \<Longrightarrow> flush_err w = None \<Longrightarrow>
   register_all cd msg ks w = (None, w\<lparr>sent := sent w @ concat (map frame (registrations cd ks))\<rparr>)"
  by (simp add: register_all_healthy registrations_def comp_def)

text \<open>One connection of a worker that nothing disturbs.\<close>

lemma run_worker_healthy:
  assumes "list_all (registration_ok cd) ks" and "list_all packet_fits ds"
    and "worker_answers objs (map (decode_packet cd) ds) st = (answers, st')" and "list_all (payload_ok cd) answers"
  shows "run_worker cd msg ks objs None (Inr (\<lparr>avail = concat (map frame ds), ends = e\<rparr>, open_writer)) st =
     ((Some (end_error e), Some (open_writer\<lparr>sent :=
        concat (map frame (registrations cd ks @ map (\<lambda>resp. the (resp_to_vec cd resp)) answers))\<rparr>)), st')"
proof -
  let ?r = "\<lparr>avail = concat (map frame ds), ends = e\<rparr>"
  let ?out = "map (\<lambda>resp. the (resp_to_vec cd resp)) answers"
  have r: "read_all ?r = (ds, end_error e)"
    using read_all_concat [OF assms(2), of "[]" e] by (simp add: read_all_empty)
  let ?w1 = "open_writer\<lparr>sent := concat (map frame (registrations cd ks))\<rparr>"
  have reg: "register_all cd msg ks open_writer = (None, ?w1)"
    using register_all_frames [OF assms(1), of open_writer msg] by simp
  have ok: "list_all (payload_ok cd) (fst (worker_answers objs (map (decode_packet cd) (fst (read_all ?r))) st))"
    using assms(3,4) r by simp
  from worker_loop_healthy [OF ok, of ?w1] have
    "worker_loop cd objs None ?r ?w1 st = (Some (end_error e), ?w1\<lparr>sent := sent ?w1 @ concat (map frame ?out)\<rparr>, st')"
    using r assms(3) by (simp add: comp_def)
  with reg show ?thesis by (simp add: run_worker_def)
qed

lemma worker_output_read:
  assumes "list_all (registration_ok cd) ks" and "list_all (payload_ok cd) answers"
  shows "read_all \<lparr>avail = concat (map frame (registrations cd ks @ map (\<lambda>resp. the (resp_to_vec cd resp)) answers)), ends = None\<rparr> =
     (registrations cd ks @ map (\<lambda>resp. the (resp_to_vec cd resp)) answers, eof_error)"
proof -
  have "list_all packet_fits (map (\<lambda>resp. the (resp_to_vec cd resp)) answers)"
    using assms(2) by (auto simp: list_all_iff payload_ok_def split: option.splits)
  with registrations_fit [OF assms(1)] show ?thesis
    using read_all_concat [of "registrations cd ks @ map (\<lambda>resp. the (resp_to_vec cd resp)) answers" "[]" None]
    by (simp add: read_all_empty end_error_def)
qed

section \<open>Properties\<close>

text \<open>
  C23: On a connection that accepts what is written, the peer of a worker reads the registration of
  every object and then exactly one result for each call of an object that the worker has, with the
  call's id and object and the value the object returned in the state that the calls before it left,
  in the order of the calls; other packets are not answered. The worker ends when the stream does.
\<close>

theorem worker_answers_each_call_once:
  assumes "list_all (registration_ok cd) ks" and "\<forall>d \<in> set ds. length d \<le> BUF_SIZE"
    and "worker_answers objs (map (decode_packet cd) ds) st = (answers, st')" and "list_all (payload_ok cd) answers"
  shows "\<exists>w. run_worker cd msg ks objs None (Inr (\<lparr>avail = concat (map frame ds), ends = e\<rparr>, open_writer)) st =
       ((Some (end_error e), Some w), st') \<and>
     read_all \<lparr>avail = sent w, ends = None\<rparr> =
       (registrations cd ks @ map (\<lambda>resp. the (resp_to_vec cd resp)) answers, eof_error)"
proof -
  have "list_all packet_fits ds" using assms(2) by (simp add: list_all_iff packet_fits_def)
  from run_worker_healthy [OF assms(1) this assms(3,4)] worker_output_read [OF assms(1,4)] show ?thesis by simp
qed

definition demo_objects :: "string \<rightharpoonup> nat shared_object" where
  "demo_objects = [''math'' \<mapsto> (\<lambda>st m a. (JNull, st + 1))]"

lemma demo_registration: "list_all (registration_ok demo_codec) [''math'']"
  by (simp add: registration_ok_def packet_fits_def BUF_SIZE_eq)

theorem worker_answers_each_call_once_witness:
  "\<exists>w. run_worker demo_codec ''e'' [''math''] demo_objects None
       (Inr (\<lparr>avail = concat (map frame [[1], [3], [1]]), ends = None\<rparr>, open_writer)) 0 =
       ((Some eof_error, Some w), 2) \<and>
     read_all \<lparr>avail = sent w, ends = None\<rparr> = ([[2], [10], [10]], eof_error)"
proof -
  have "worker_answers demo_objects (map (decode_packet demo_codec) [[1], [3], [1]]) 0 =
      ([Result call_1 ''math'' JNull, Result call_1 ''math'' JNull], 2)"
    by (simp add: demo_objects_def)
  from worker_answers_each_call_once [OF demo_registration _ this, where e = None and msg = "''e''"]
  show ?thesis
    by (simp add: payload_ok_def packet_fits_def BUF_SIZE_eq end_error_def registrations_def)
qed

text \<open>
  A result that does not fit a packet closes the worker's connection: nothing is written for the
  call, the error says why, and the calls behind it on the stream are not read, although the object's
  method has run. The supervisor will connect again, but no answer to this call is ever sent.
\<close>

theorem oversize_result_ends_worker:
  assumes "length d \<le> BUF_SIZE" and "decode_packet cd d = InRequest (Call ci n m a)"
    and "objs n = Some obj" and "resp_to_vec cd (Result ci n (fst (obj st m a))) = Some b" and "length b > BUF_SIZE"
  shows "worker_loop cd objs None \<lparr>avail = frame d @ rest, ends = e\<rparr> w st =
     (Some (oversize_write b), w, snd (obj st m a))"
proof -
  have "read_packet \<lparr>avail = frame d @ rest, ends = e\<rparr> = (Inr d, \<lparr>avail = rest, ends = e\<rparr>)"
    using read_packet_frame [OF assms(1), of rest "\<lparr>avail = [], ends = e\<rparr>"] by simp
  with assms show ?thesis
    by (simp add: worker_loop.simps [of _ _ _ "\<lparr>avail = frame d @ rest, ends = e\<rparr>"] worker_packet_def split_beta
        write_packet_def)
qed

text \<open>A codec with one result that is too long.\<close>

definition long_codec :: codec where
  "long_codec = demo_codec\<lparr>resp_to_vec := (\<lambda>_. Some (replicate (Suc BUF_SIZE) 0))\<rparr>"

theorem oversize_result_ends_worker_witness:
  "fst (worker_loop long_codec demo_objects None \<lparr>avail = frame [1] @ frame [1], ends = None\<rparr> open_writer 0) =
     Some (oversize_write (replicate (Suc BUF_SIZE) 0))"
proof -
  have "decode_packet long_codec [1] = InRequest (Call call_1 ''math'' ''add'' JNull)"
    by (simp add: long_codec_def decode_packet_def demo_codec_def)
  from oversize_result_ends_worker [OF _ this, of demo_objects _ 0 "replicate (Suc BUF_SIZE) 0" "frame [1]" None open_writer]
  show ?thesis by (simp add: demo_objects_def long_codec_def BUF_SIZE_eq del: replicate_Suc)
qed

text \<open>
  On every connection that the supervisor makes, not only on the first, the broker first reads
  the registration of each of the worker's objects, whatever the connections before it did and
  whenever a shutdown comes.
\<close>

theorem every_connection_registers_all:
  assumes "list_all (registration_ok cd) ks"
    and "worker_supervisor cd msg ks objs as st = (ended, outs, st')"
    and "i < length outs" and "connection (as ! i) = Inr (r, open_writer)"
  shows "\<exists>w later. outs ! i = Some w \<and>
     fst (read_all \<lparr>avail = sent w, ends = None\<rparr>) = registrations cd ks @ later"
  using assms(2-)
proof (induction as arbitrary: i st ended outs st')
  case (Cons a as)
  obtain err out st1 where run: "run_worker cd msg ks objs (stopped_after a) (connection a) st = ((err, out), st1)"
    by (metis prod.exhaust)
  show ?case
  proof (cases i)
    case 0
    let ?w1 = "open_writer\<lparr>sent := concat (map frame (registrations cd ks))\<rparr>"
    have "register_all cd msg ks open_writer = (None, ?w1)"
      using register_all_frames [OF assms(1), of open_writer msg] by (simp add: open_writer_def)
    moreover obtain e' w st2 where loop: "worker_loop cd objs (stopped_after a) r ?w1 st = (e', w, st2)"
      by (metis prod.exhaust)
    ultimately have out: "out = Some w"
      using run Cons.prems(3) 0 by (simp add: run_worker_def)
    obtain x where "sent w = concat (map frame (registrations cd ks)) @ x"
      using worker_loop_grows [OF loop] by auto
    with read_all_concat [OF registrations_fit [OF assms(1)], of x None]
    have "fst (read_all \<lparr>avail = sent w, ends = None\<rparr>) =
        registrations cd ks @ fst (read_all \<lparr>avail = x, ends = None\<rparr>)" by simp
    moreover have "outs ! 0 = out"
      using Cons.prems(1) run by (auto split: option.splits if_splits prod.splits)
    ultimately show ?thesis using out 0 by auto
  next
    case (Suc j)
    from Cons.prems(1,2) run Suc obtain outs1 where
      "worker_supervisor cd msg ks objs as st1 = (ended, outs1, st')" "outs = out # outs1" "j < length outs1"
      by (auto split: option.splits if_splits prod.splits)
    with Cons.IH [of st1 ended outs1 st' j] Cons.prems(3) Suc show ?thesis by simp
  qed
qed simp

definition demo_attempts :: "attempt list" where
  "demo_attempts =
     [\<lparr>connection = Inl eof_error, stopped_after = None, stopped_in_pause = False\<rparr>,
      \<lparr>connection = Inr (\<lparr>avail = [], ends = None\<rparr>, open_writer), stopped_after = Some 0, stopped_in_pause = False\<rparr>]"

theorem every_connection_registers_all_witness:
  "\<exists>w later. fst (snd (worker_supervisor demo_codec ''e'' [''math''] demo_objects demo_attempts 0)) ! 1 = Some w \<and>
     fst (read_all \<lparr>avail = sent w, ends = None\<rparr>) = [2] # later"
proof -
  let ?run = "worker_supervisor demo_codec ''e'' [''math''] demo_objects demo_attempts 0"
  have "length (fst (snd ?run)) = 2"
    by (simp add: demo_attempts_def run_worker_def write_packet_def write_all_def
        BUF_SIZE_eq open_writer_def worker_loop.simps)
  then have two: "1 < length (fst (snd ?run))" by simp
  have run: "?run = (fst ?run, fst (snd ?run), snd (snd ?run))" by simp
  have "connection (demo_attempts ! 1) = Inr (\<lparr>avail = [], ends = None\<rparr>, open_writer)"
    by (simp add: demo_attempts_def)
  from every_connection_registers_all [OF demo_registration run two this]
  show ?thesis by (simp add: registrations_def)
qed

end
