(* ===== verification/Started_Service.thy ===== *)
theory Started_Service
  imports Activation Worker_Protocol Pool
begin

text \<open>
  A service that is started by its callers, through all components: the calls of several clients for
  a stopped service, the command that starts its unit, the worker process that connects, registers
  and is handed the waiting calls, its answers on the wire, and their way back to the callers.
\<close>

section \<open>The broker's side\<close>

text \<open>The answers of one object to a list of calls.\<close>

fun object_answers :: "string \<Rightarrow> 'o shared_object \<Rightarrow> call list \<Rightarrow> 'o \<Rightarrow> RpcResponse list \<times> 'o" where
  "object_answers n obj [] st = ([], st)"
| "object_answers n obj ((ci, m, a, cid) # cs) st =
     (case obj st m a of
        (v, st1) \<Rightarrow> (case object_answers n obj cs st1 of (rs, st2) \<Rightarrow> (Result ci n v # rs, st2)))"

lemma worker_answers_calls:
  "worker_answers [n \<mapsto> obj] (map InRequest (call_requests n cs)) st = object_answers n obj cs st"
proof (induction cs arbitrary: st)
  case (Cons c cs)
  obtain ci m a cid where c: "c = (ci, m, a, cid)" by (cases c) auto
  have "call_requests n (c # cs) = Call ci n m a # call_requests n cs"
    by (simp add: c call_requests_def)
  with Cons.IH [of "snd (obj st m a)"] show ?case
    by (simp add: c split_beta Let_def)
qed (simp add: call_requests_def)

lemma worker_answers_end:
  "\<forall>r \<in> set tail. \<forall>st. worker_answer objs r st = (None, st) \<Longrightarrow>
   worker_answers objs (ps @ tail) st = worker_answers objs ps st"
proof (induction ps arbitrary: st)
  case Nil
  then show ?case by (induction tail) simp_all
next
  case (Cons p ps)
  then show ?case by (simp add: split_beta Let_def)
qed

text \<open>Each call of the burst is recorded with its caller.\<close>

lemma calls_handle_call:
  assumes "clients s cid = Some tx"
  shows "calls (fst (run_task (handle_call cd ci n m a cid) s)) = (calls s)(ci \<mapsto> (cid, tx))"
    and "clients (fst (run_task (handle_call cd ci n m a cid) s)) = clients s"
  using assms
  by (auto simp: run_handle_call run_call_activate Let_def split: option.split ServiceState.split)

lemma calls_burst:
  assumes "\<forall>(ci, m, a, cid) \<in> set cs. clients s cid \<noteq> None" and "distinct (map fst cs)"
  shows "clients (fst (run_task (handle_calls cd n cs) s)) = clients s \<and>
     (\<forall>(ci, m, a, cid) \<in> set cs. calls (fst (run_task (handle_calls cd n cs) s)) ci = Some (cid, the (clients s cid))) \<and>
     (\<forall>ci. ci \<notin> fst ` set cs \<longrightarrow> calls (fst (run_task (handle_calls cd n cs) s)) ci = calls s ci)"
  using assms
proof (induction cs arbitrary: s)
  case (Cons c cs)
  obtain ci m a cid where c: "c = (ci, m, a, cid)" by (cases c) auto
  with Cons.prems obtain tx where tx: "clients s cid = Some tx" by auto
  let ?s1 = "fst (run_task (handle_call cd ci n m a cid) s)"
  note one = calls_handle_call [OF tx, of cd ci n m a]
  have "\<forall>(ci, m, a, cid) \<in> set cs. clients ?s1 cid \<noteq> None" "distinct (map fst cs)"
    using Cons.prems one by (auto simp: c)
  note IH = Cons.IH [OF this]
  have run: "fst (run_task (handle_calls cd n (c # cs)) s) = fst (run_task (handle_calls cd n cs) ?s1)"
    by (simp add: c run_seq split_beta Let_def)
  have "ci \<notin> fst ` set cs" using Cons.prems(2) by (simp add: c)
  with IH one tx show ?case unfolding run by (force simp: c)
qed simp

text \<open>The answers go to the callers, in order, and close the calls.\<close>

lemma answers_reach_callers:
  assumes "\<forall>(ci, m, a, cid) \<in> set cs. calls s ci = Some (cid, the (clients s cid))" and "distinct (map fst cs)"
    and "\<forall>r \<in> set (fst (object_answers n obj cs st)). codec_resp cd r"
  shows "\<exists>s2. run_task (for_each (dispatch cd it w) (map (\<lambda>r. the (resp_to_vec cd r)) (fst (object_answers n obj cs st)))) s =
       (s2, map (\<lambda>((ci, m, a, cid), r). Sent (the (clients s cid)) (Outgoing (the (resp_to_vec cd r))))
          (zip cs (fst (object_answers n obj cs st)))) \<and>
     (\<forall>ci \<in> fst ` set cs. calls s2 ci = None) \<and> (\<forall>ci. calls s ci = None \<longrightarrow> calls s2 ci = None)"
  using assms
proof (induction cs arbitrary: s st)
  case (Cons c cs)
  obtain ci m a cid where c: "c = (ci, m, a, cid)" by (cases c) auto
  let ?v = "fst (obj st m a)" and ?st = "snd (obj st m a)"
  let ?r = "Result ci n ?v"
  let ?s1 = "s\<lparr>calls := (calls s)(ci := None)\<rparr>"
  have rs: "fst (object_answers n obj (c # cs) st) = ?r # fst (object_answers n obj cs ?st)"
    by (simp add: c split_beta)
  have "codec_resp cd ?r" using Cons.prems(3) unfolding rs by simp
  then obtain b where b: "resp_to_vec cd ?r = Some b" "decode_packet cd b = InResponse ?r"
    using decode_packet_response by (metis codec_resp_def)
  have first: "run_task (dispatch cd it w b) s = (?s1, [Sent (the (clients s cid)) (Outgoing b)])"
    using Cons.prems(1) b by (simp add: c dispatch_def run_response)
  have pre: "\<forall>(ci, m, a, cid) \<in> set cs. calls ?s1 ci = Some (cid, the (clients ?s1 cid))" "distinct (map fst cs)"
      "\<forall>r \<in> set (fst (object_answers n obj cs ?st)). codec_resp cd r"
    using Cons.prems by (force simp: c split_beta)+
  from Cons.IH [OF pre] obtain s2 where
    "run_task (for_each (dispatch cd it w) (map (\<lambda>r. the (resp_to_vec cd r)) (fst (object_answers n obj cs ?st)))) ?s1 =
       (s2, map (\<lambda>((ci, m, a, cid), r). Sent (the (clients s cid)) (Outgoing (the (resp_to_vec cd r))))
          (zip cs (fst (object_answers n obj cs ?st))))"
    "\<forall>ci \<in> fst ` set cs. calls s2 ci = None" "\<forall>ci. calls ?s1 ci = None \<longrightarrow> calls s2 ci = None" by auto
  with first b show ?case
    unfolding rs by (intro exI [of _ s2]) (simp add: c run_seq)
qed simp

section \<open>The wire\<close>

lemma writer_loop_packets:
  "list_all packet_fits ps \<Longrightarrow> sent (fst (writer_loop open_writer (map Outgoing ps))) = concat (map frame ps)"
proof -
  assume "list_all packet_fits ps"
  then have "wire_of (map Outgoing ps) = concat (map frame ps)"
    by (induction ps) simp_all
  then show ?thesis by (simp add: writer_loop_healthy)
qed

lemma sent_to_packets: "sent_to tx (map (\<lambda>p. Sent tx (Outgoing p)) ps) = map Outgoing ps"
  by (induction ps) simp_all

lemma to_client_packets:
  assumes "clients t w = Some tx" and "\<forall>r \<in> set rs. req_to_vec cd r = Some (the (req_to_vec cd r))"
  shows "concat (map (\<lambda>r. to_client t w (req_to_vec cd r)) rs) = map (\<lambda>p. Sent tx (Outgoing p)) (map (\<lambda>r. the (req_to_vec cd r)) rs)"
  using assms(2) by (induction rs) (auto simp: to_client_def assms(1) split: option.split)

text \<open>
  C4: clients that call a service which is not running all get their answers. However many of them
  call while it is stopped, its unit is started once; when the worker process connects and registers
  the object, the broker sends it the waiting calls in their order and then the acknowledgement; the
  worker reads these packets, runs the methods one after the other and writes its registration and
  one result per call; the broker hands each result to the caller it belongs to and no call stays open.
\<close>

theorem started_service_answers_everyone:
  assumes "services s n = Some svc" and "state svc = Stopped" and "pending_calls svc = []" and "objects s n = None"
    and "cs \<noteq> []" and "distinct (map fst cs)" and "\<forall>(ci, m, a, cid) \<in> set cs. clients s cid \<noteq> None \<and> cid \<noteq> ClientId uuid"
    and "\<forall>r \<in> set (RegisterObject n # call_requests n cs). codec_req cd r \<and> packet_fits (the (req_to_vec cd r))"
    and "object_answers n obj cs st = (results, st')"
    and "\<forall>r \<in> set (Registered n # results). codec_resp cd r \<and> packet_fits (the (resp_to_vec cd r))"
    and "run_task (seq (handle_calls cd n cs) (seq (spawn_client uuid wtx)
           (dispatch cd it (ClientId uuid) (the (req_to_vec cd (RegisterObject n)))))) s = (s1, es1)"
  shows "es1 = Spawned (spawn_service (service_name svc))
         # map (\<lambda>p. Sent wtx (Outgoing p)) (map (\<lambda>r. the (req_to_vec cd r)) (call_requests n cs) @ [the (resp_to_vec cd (Registered n))])
    \<and> (\<exists>w. run_worker cd msg [n] [n \<mapsto> obj] None
            (Inr (\<lparr>avail = sent (fst (writer_loop open_writer (sent_to wtx es1))), ends = e\<rparr>, open_writer)) st
          = ((Some (end_error e), Some w), st')
        \<and> read_all \<lparr>avail = sent w, ends = None\<rparr>
          = (the (req_to_vec cd (RegisterObject n)) # map (\<lambda>r. the (resp_to_vec cd r)) results, eof_error))
    \<and> (\<exists>s2. run_task (for_each (dispatch cd it (ClientId uuid)) (map (\<lambda>r. the (resp_to_vec cd r)) results)) s1
          = (s2, map (\<lambda>((ci, m, a, cid), r). Sent (the (clients s cid)) (Outgoing (the (resp_to_vec cd r)))) (zip cs results))
        \<and> (\<forall>ci \<in> fst ` set cs. calls s2 ci = None))"
proof -
  let ?w = "ClientId uuid" and ?enc = "\<lambda>r. the (req_to_vec cd r)" and ?out = "\<lambda>r. the (resp_to_vec cd r)"
  let ?ps = "map ?enc (call_requests n cs) @ [?out (Registered n)]"
  have connected: "\<forall>(ci, m, a, cid) \<in> set cs. clients s cid \<noteq> None" using assms(7) by auto
  obtain s0 where s0: "run_task (handle_calls cd n cs) s = (s0, [Spawned (spawn_service (service_name svc))])"
      "clients s0 = clients s" "objects s0 = objects s"
      "services s0 n = Some (svc\<lparr>state := Starting, pending_calls := pending_calls svc @ call_requests n cs\<rparr>)"
    using burst_starts_once [OF assms(5) connected assms(4,1,2)] by blast
  have req: "req_to_vec cd r = Some (?enc r)" "decode_packet cd (?enc r) = InRequest r" "packet_fits (?enc r)"
    if "r \<in> set (RegisterObject n # call_requests n cs)" for r
    using assms(8) that decode_packet_request by (fastforce simp: codec_req_def)+
  have resp: "resp_to_vec cd r = Some (?out r)" "decode_packet cd (?out r) = InResponse r" "packet_fits (?out r)"
    if "r \<in> set (Registered n # results)" for r
    using assms(10) that decode_packet_response by (fastforce simp: codec_resp_def)+
  let ?sc = "s0\<lparr>clients := (clients s0)(?w \<mapsto> wtx)\<rparr>"
  have flush: "concat (map (\<lambda>r. to_client ?sc ?w (req_to_vec cd r)) (call_requests n cs)) =
      map (\<lambda>p. Sent wtx (Outgoing p)) (map ?enc (call_requests n cs))"
    using req(1) by (intro to_client_packets) auto
  have reg: "run_task (dispatch cd it ?w (?enc (RegisterObject n))) ?sc =
     (fst (run_task (handle_register_object cd n ?w) ?sc),
      map (\<lambda>p. Sent wtx (Outgoing p)) (map ?enc (call_requests n cs)) @ to_client ?sc ?w (resp_to_vec cd (Registered n)))"
    using req(2) [of "RegisterObject n"] s0(4) flush assms(3) by (simp add: dispatch_def run_register_object)
  obtain ack where "resp_to_vec cd (Registered n) = Some ack" using resp(1) [of "Registered n"] by auto
  then have ack: "to_client ?sc ?w (resp_to_vec cd (Registered n)) = [Sent wtx (Outgoing (?out (Registered n)))]" by simp
  have es1: "es1 = Spawned (spawn_service (service_name svc)) # map (\<lambda>p. Sent wtx (Outgoing p)) ?ps"
    and s1: "s1 = fst (run_task (handle_register_object cd n ?w) ?sc)"
    using assms(11) s0(1) reg ack
    by (auto simp: run_seq run_spawn_client split_beta Let_def)
  have "list_all packet_fits ?ps"
    using req(3) resp(3) by (auto simp: list_all_iff)
  then have wire: "sent (fst (writer_loop open_writer (sent_to wtx es1))) = concat (map frame ?ps)"
    by (simp add: es1 sent_to_packets writer_loop_packets flip: map_append)
  have "req_to_vec cd (RegisterObject n) = Some (?enc (RegisterObject n))" by (rule req(1)) simp
  then have regs: "list_all (registration_ok cd) [n]" "registrations cd [n] = [?enc (RegisterObject n)]"
    using req(3) [of "RegisterObject n"] by (auto simp: registration_ok_def registrations_def split: option.splits)
  have payloads: "list_all (payload_ok cd) results"
  proof -
    have "payload_ok cd r" if "r \<in> set results" for r
    proof -
      from that obtain b where "resp_to_vec cd r = Some b" using resp(1) [of r] by auto
      with resp(3) [of r] that show ?thesis by (simp add: payload_ok_def)
    qed
    then show ?thesis by (simp add: list_all_iff)
  qed
  have decoded: "map (decode_packet cd) ?ps = map InRequest (call_requests n cs) @ [InResponse (Registered n)]"
    using req(2) resp(2) by simp
  have "worker_answers [n \<mapsto> obj] (map (decode_packet cd) ?ps) st = (results, st')"
    unfolding decoded using assms(9) by (simp add: worker_answers_end worker_answers_calls)
  note worker = run_worker_healthy [OF regs(1) \<open>list_all packet_fits ?ps\<close> this payloads, of msg e]
  have s1_clients: "clients s1 = (clients s)(?w \<mapsto> wtx)" and s1_calls: "calls s1 = calls s0"
    by (simp_all add: s1 s0(2) run_register_object)
  have cid: "the (clients s1 cid) = the (clients s cid)" if "(ci, m, a, cid) \<in> set cs" for ci m a cid
    using assms(7) that by (auto simp: s1_clients)
  have recorded: "\<forall>(ci, m, a, cid) \<in> set cs. calls s1 ci = Some (cid, the (clients s1 cid))"
    using calls_burst [OF connected assms(6), of cd n] s0(1) cid by (auto simp: s1_calls)
  have "\<forall>r \<in> set (fst (object_answers n obj cs st)). codec_resp cd r" using assms(9,10) by simp
  from answers_reach_callers [OF recorded assms(6) this, of it ?w] obtain s2 where
    s2: "run_task (for_each (dispatch cd it ?w) (map ?out results)) s1 =
       (s2, map (\<lambda>((ci, m, a, cid), r). Sent (the (clients s1 cid)) (Outgoing (?out r))) (zip cs results))"
      "\<forall>ci \<in> fst ` set cs. calls s2 ci = None"
    using assms(9) by auto
  have "map (\<lambda>((ci, m, a, cid), r). Sent (the (clients s1 cid)) (Outgoing (?out r))) (zip cs results) =
      map (\<lambda>((ci, m, a, cid), r). Sent (the (clients s cid)) (Outgoing (?out r))) (zip cs results)"
    using cid by (auto dest: set_zip_leftD)
  with s2 es1 worker worker_output_read [OF regs(1) payloads] show ?thesis
    unfolding wire regs(2) by auto
qed

text \<open>A codec for the conversation of two callers with a counter.\<close>

definition call_2 :: CallId where "call_2 = CallId ''2''"

definition counter :: "nat shared_object" where
  "counter st m a = (JNumber (NInt (int st)), Suc st)"

definition counter_codec :: codec where
  "counter_codec =
     \<lparr>req_to_vec = map_of [(RegisterObject ''math'', [1]), (Call call_1 ''math'' ''next'' JNull, [2]), (Call call_2 ''math'' ''next'' JNull, [3])],
      resp_to_vec = map_of [(Registered ''math'', [4]), (Result call_1 ''math'' (JNumber (NInt 7)), [5]), (Result call_2 ''math'' (JNumber (NInt 8)), [6])],
      req_from_slice = map_of [([1], RegisterObject ''math''), ([2], Call call_1 ''math'' ''next'' JNull), ([3], Call call_2 ''math'' ''next'' JNull)],
      resp_from_slice = map_of [([4], Registered ''math''), ([5], Result call_1 ''math'' (JNumber (NInt 7))), ([6], Result call_2 ''math'' (JNumber (NInt 8)))]\<rparr>"

theorem started_service_answers_everyone_witness:
  "\<exists>s1 es1 s2. run_task (seq (handle_calls counter_codec ''math'' [(call_1, ''next'', JNull, caller), (call_2, ''next'', JNull, worker)])
      (seq (spawn_client ''u'' 3) (dispatch counter_codec demo_order (ClientId ''u'') [1]))) service_state = (s1, es1) \<and>
    es1 = [Spawned (spawn_service ''math.service''), Sent 3 (Outgoing [2]), Sent 3 (Outgoing [3]), Sent 3 (Outgoing [4])] \<and>
    run_task (for_each (dispatch counter_codec demo_order (ClientId ''u'')) [[5], [6]]) s1
      = (s2, [Sent 2 (Outgoing [5]), Sent 1 (Outgoing [6])])"
proof -
  let ?cs = "[(call_1, ''next'', JNull, caller), (call_2, ''next'', JNull, worker)]"
  let ?results = "[Result call_1 ''math'' (JNumber (NInt 7)), Result call_2 ''math'' (JNumber (NInt 8))]"
  have service: "services service_state ''math'' = Some (stopped_entry ''math.service'')"
    "state (stopped_entry ''math.service'') = Stopped" "pending_calls (stopped_entry ''math.service'') = []"
    "objects service_state ''math'' = None"
    by (simp_all add: service_state_def stopped_entry_def)
  have callers: "?cs \<noteq> []" "distinct (map fst ?cs)"
    "\<forall>(ci, m, a, cid) \<in> set ?cs. clients service_state cid \<noteq> None \<and> cid \<noteq> ClientId ''u''"
    by (simp_all add: call_1_def call_2_def service_state_def caller_def worker_def)
  have requests: "\<forall>r \<in> set (RegisterObject ''math'' # call_requests ''math'' ?cs).
      codec_req counter_codec r \<and> packet_fits (the (req_to_vec counter_codec r))"
    by (simp add: call_requests_def codec_req_def counter_codec_def packet_fits_def BUF_SIZE_eq call_1_def call_2_def)
  have results: "object_answers ''math'' counter ?cs 7 = (?results, 9)"
    by (simp add: counter_def)
  have responses: "\<forall>r \<in> set (Registered ''math'' # ?results). codec_resp counter_codec r \<and> packet_fits (the (resp_to_vec counter_codec r))"
    by (simp add: codec_resp_def counter_codec_def packet_fits_def BUF_SIZE_eq call_1_def call_2_def)
  obtain s1 es1 where run: "run_task (seq (handle_calls counter_codec ''math'' ?cs) (seq (spawn_client ''u'' 3)
      (dispatch counter_codec demo_order (ClientId ''u'') (the (req_to_vec counter_codec (RegisterObject ''math'')))))) service_state = (s1, es1)"
    by force
  have bytes: "the (req_to_vec counter_codec (RegisterObject ''math'')) = [1]"
    "map (\<lambda>r. the (req_to_vec counter_codec r)) (call_requests ''math'' ?cs) = [[2], [3]]"
    "the (resp_to_vec counter_codec (Registered ''math'')) = [4]"
    "map (\<lambda>r. the (resp_to_vec counter_codec r)) ?results = [[5], [6]]"
    "map (\<lambda>((ci, m, a, cid), r). Sent (the (clients service_state cid)) (Outgoing (the (resp_to_vec counter_codec r)))) (zip ?cs ?results)
      = [Sent 2 (Outgoing [5]), Sent 1 (Outgoing [6])]" "service_name (stopped_entry ''math.service'') = ''math.service''"
    by (simp_all add: counter_codec_def call_requests_def call_1_def call_2_def service_state_def caller_def worker_def stopped_entry_def)
  note all = started_service_answers_everyone [OF service callers requests results responses run, unfolded bytes]
  from all [THEN conjunct2, THEN conjunct2] obtain s2 where
    "run_task (for_each (dispatch counter_codec demo_order (ClientId ''u'')) [[5], [6]]) s1
      = (s2, [Sent 2 (Outgoing [5]), Sent 1 (Outgoing [6])])" by blast
  with run [unfolded bytes(1)] all [THEN conjunct1] show ?thesis by auto
qed

end
