(* ===== verification/Bus.thy ===== *)
theory Bus
  imports Schedules Started_Service
begin

text \<open>
  Broker, worker and clients together, all concurrent. The broker is a pool whose connections start a
  handler for every packet that has arrived; the worker process takes its packets in order and
  answers them (\<^verbatim>\<open>src/src/worker.rs\<close>); the actor of a client sends its next request when the reply to
  the last one has come (\<^verbatim>\<open>src/src/client.rs\<close>). Packets are carried whole, which theory
  \<^verbatim>\<open>Lifecycle\<close> justifies, and every writer has the limit of \<open>write_packet\<close>: a request over it is
  refused to its caller, a result over it ends the worker's loop (\<open>worker_up\<close>), a message over it ends the writer
  of its connection. What a worker or a connection does after that is left to other theories.
\<close>

section \<open>The system\<close>

text \<open>
  Connection \<open>0\<close> is the worker's, the others are the clients'. \<open>inbox\<close> holds what a peer has sent and
  the broker has not read, \<open>to_ask\<close> the requests a client has still to make.
\<close>

record 'o bus =
  net :: pool
  inbox :: "nat \<Rightarrow> bytes list"
  worker_read :: nat
  worker_state :: 'o
  worker_up :: bool
  to_ask :: "nat \<Rightarrow> RpcRequest list"
  requests_made :: "nat \<Rightarrow> nat"

datatype bus_move = Broker move | Receive nat | Work | Ask nat

text \<open>
  A step of the broker: a task, or a writer with its next message. A packet over the limit is not written, and
  the writer loop ends.
\<close>

fun sized_step :: "move \<Rightarrow> pool \<Rightarrow> pool option" where
  "sized_step (Run i) p = pool_move (Run i) p"
| "sized_step (Deliver tx) p =
     (case recv (chans p tx) of
        None \<Rightarrow> None
      | Some (m, _) \<Rightarrow> if writable m then pool_move (Deliver tx) p else writer_breaks tx p)"
| "sized_step _ p = None"

fun bus_step ::
    "codec \<Rightarrow> (ClientId fset \<Rightarrow> ClientId list) \<Rightarrow> ClientId list \<Rightarrow> (string \<rightharpoonup> 'o shared_object) \<Rightarrow> bus_move \<Rightarrow> 'o bus
      \<Rightarrow> 'o bus option" where
  "bus_step cd it ds objs (Broker mv) b =
     map_option (\<lambda>p. b\<lparr>net := p\<rparr>) (sized_step mv (net b))"
| "bus_step cd it ds objs (Receive i) b =
     (if i < length ds \<and> jobs (net b) ! i = Done
      then case inbox b i of
             [] \<Rightarrow> None
           | buf # rest \<Rightarrow>
               Some (b\<lparr>net := (net b)\<lparr>jobs := (jobs (net b))[i := dispatch cd it (ds ! i) buf]\<rparr>,
                       inbox := (inbox b)(i := rest)\<rparr>)
      else None)"
| "bus_step cd it ds objs Work b =
     (let received = written (net b) (conn (net b) 0)
      in if worker_up b \<and> worker_read b < length received
         then case received ! worker_read b of
                ShutdownMsg \<Rightarrow> None
              | Outgoing buf \<Rightarrow>
                  (case worker_packet cd objs buf (worker_state b) of
                     (ans, st) \<Rightarrow>
                       let b' = b\<lparr>worker_read := Suc (worker_read b), worker_state := st\<rparr>
                       in case ans of
                            None \<Rightarrow> Some b'
                          | Some rb \<Rightarrow>
                              if packet_fits rb then Some (b'\<lparr>inbox := (inbox b)(0 := inbox b 0 @ [rb])\<rparr>)
                              else Some (b'\<lparr>worker_up := False\<rparr>))
         else None)"
| "bus_step cd it ds objs (Ask i) b =
     (if 0 < i \<and> i < length ds \<and> length (written (net b) (conn (net b) i)) = requests_made b i
      then case to_ask b i of
             [] \<Rightarrow> None
           | req # reqs \<Rightarrow>
               (case req_to_vec cd req of
                  None \<Rightarrow> Some (b\<lparr>to_ask := (to_ask b)(i := reqs)\<rparr>)
                | Some buf \<Rightarrow>
                    if packet_fits buf
                    then Some (b\<lparr>to_ask := (to_ask b)(i := reqs), requests_made := (requests_made b)(i := Suc (requests_made b i)),
                                 inbox := (inbox b)(i := inbox b i @ [buf])\<rparr>)
                    else Some (b\<lparr>to_ask := (to_ask b)(i := reqs)\<rparr>))
      else None)"

fun bus_run ::
    "codec \<Rightarrow> (ClientId fset \<Rightarrow> ClientId list) \<Rightarrow> ClientId list \<Rightarrow> (string \<rightharpoonup> 'o shared_object) \<Rightarrow> bus_move list \<Rightarrow> 'o bus
      \<Rightarrow> 'o bus option" where
  "bus_run cd it ds objs [] b = Some b"
| "bus_run cd it ds objs (mv # mvs) b =
     (case bus_step cd it ds objs mv b of None \<Rightarrow> None | Some b' \<Rightarrow> bus_run cd it ds objs mvs b')"

definition bus_start :: "(nat \<Rightarrow> ClientSender) \<Rightarrow> ServerState \<Rightarrow> nat \<Rightarrow> 'o \<Rightarrow> (nat \<Rightarrow> RpcRequest list) \<Rightarrow> 'o bus" where
  "bus_start txs s k st plan =
     \<lparr>net = start_pool txs s (replicate k Done), inbox = (\<lambda>_. []), worker_read = 0, worker_state = st, worker_up = True,
      to_ask = plan, requests_made = (\<lambda>_. 0)\<rparr>"

definition bus_stuck ::
    "codec \<Rightarrow> (ClientId fset \<Rightarrow> ClientId list) \<Rightarrow> ClientId list \<Rightarrow> (string \<rightharpoonup> 'o shared_object) \<Rightarrow> 'o bus \<Rightarrow> bool" where
  "bus_stuck cd it ds objs b \<longleftrightarrow> (\<forall>mv. bus_step cd it ds objs mv b = None)"

section \<open>What a handler has still to do\<close>

text \<open>
  Seen from outside a handler has at most two things to do: enter a call and forward it, or take a
  call out of the table and send the answer to whom it found there.
\<close>

datatype duty =
    Idle
  | Enter CallId ClientId ClientSender ClientMsg
  | TakeOut CallId ClientMsg
  | Deliver_To ClientSender ClientMsg

inductive duty_step :: "ClientSender \<Rightarrow> ServerState \<Rightarrow> duty \<Rightarrow> ServerState \<Rightarrow> duty \<Rightarrow> bool" for wtx where
  silent: "duty_step wtx s d s d"
| entered: "duty_step wtx s (Enter ci c ctx m) (s\<lparr>calls := (calls s)(ci \<mapsto> (c, ctx))\<rparr>) (Deliver_To wtx m)"
| taken_out: "duty_step wtx s (TakeOut ci m) (s\<lparr>calls := (calls s)(ci := None)\<rparr>)
     (case calls s ci of None \<Rightarrow> Idle | Some (_, tx) \<Rightarrow> Deliver_To tx m)"

inductive_cases duty_stepE: "duty_step wtx s d s' d'"

primrec performs :: "(ServerState \<Rightarrow> bool) \<Rightarrow> ClientSender \<Rightarrow> task \<Rightarrow> duty \<Rightarrow> bool" where
  "performs P wtx Done d \<longleftrightarrow> d = Idle"
| "performs P wtx (Lock m t) d \<longleftrightarrow> performs P wtx t d"
| "performs P wtx (Unlock m t) d \<longleftrightarrow> performs P wtx t d"
| "performs P wtx (Sync f) d \<longleftrightarrow>
     (\<forall>s. P s \<longrightarrow> (\<lambda>(s', b). \<exists>d'. b d' \<and> duty_step wtx s d s' d') (map_prod id (performs P wtx) (f s)))"
| "performs P wtx (Send tx m t) d \<longleftrightarrow> d = Deliver_To tx m \<and> performs P wtx t Idle"
| "performs P wtx (Spawn c t) d \<longleftrightarrow> False"

lemma performs_Sync [simp]:
  "performs P wtx (Sync f) d \<longleftrightarrow> (\<forall>s. P s \<longrightarrow> (\<exists>d'. performs P wtx (snd (f s)) d' \<and> duty_step wtx s d (fst (f s)) d'))"
  by (simp add: split_beta)

declare performs.simps(4) [simp del]

lemma performs_call:
  assumes "\<And>s. P s \<Longrightarrow> objects s n = Some w \<and> clients s w = Some wtx \<and> clients s c = Some ctx"
    and "decode_packet cd buf = InRequest (Call ci n m a)" and "req_to_vec cd (Call ci n m a) = Some b"
  shows "performs P wtx (dispatch cd it c buf) (Enter ci c ctx (Outgoing b))"
proof -
  let ?fwd = "Send wtx (Outgoing b) Done"
  have rec: "performs P wtx (seq (with_lock Calls (\<lambda>s. (s\<lparr>calls := (calls s)(ci \<mapsto> (c, ctx))\<rparr>, Done))) ?fwd)
      (Enter ci c ctx (Outgoing b))"
    by (auto simp: seq_with_lock with_lock_def intro!: exI [of _ "Deliver_To wtx (Outgoing b)"] entered)
  show ?thesis
    using assms rec by (auto simp: dispatch_def handle_call_def Let_def intro!: exI silent)
qed

lemma performs_result:
  assumes "decode_packet cd buf = InResponse (Result ci n v)" and "resp_to_vec cd (Result ci n v) = Some b"
  shows "performs P wtx (dispatch cd it c buf) (TakeOut ci (Outgoing b))"
proof -
  have "\<exists>d'. performs P wtx (case calls s ci of None \<Rightarrow> Done | Some (_, tx) \<Rightarrow> Send tx (Outgoing b) Done) d' \<and>
      duty_step wtx s (TakeOut ci (Outgoing b)) (s\<lparr>calls := (calls s)(ci := None)\<rparr>) d'" for s
    by (intro exI conjI, rule_tac [2] taken_out) (simp split: option.split)
  with assms show ?thesis
    by (simp add: dispatch_def handle_response_def forward_response_def with_lock_def cong: option.case_cong)
qed

text \<open>A move of a task, seen from outside.\<close>

lemma performs_job_step:
  assumes "performs P wtx (jobs p ! i) d" and "P (shared p)" and "i < length (jobs p)"
    and rx: "\<And>tx. rx_open (chans p tx)" and "job_step i p = Some p'"
  shows "\<exists>d' t. jobs p' = (jobs p)[i := t] \<and> performs P wtx t d' \<and>
     (accepted p' = accepted p \<and> duty_step wtx (shared p) d (shared p') d' \<or>
      (\<exists>tx m. d = Deliver_To tx m \<and> d' = Idle \<and> shared p' = shared p \<and>
         accepted p' = (accepted p)(tx := accepted p tx @ [m])))"
  using assms(5)
proof (cases rule: job_stepE)
  case (Sync f)
  with assms(1,2) obtain d' where "performs P wtx (snd (f (shared p))) d'" "duty_step wtx (shared p) d (fst (f (shared p))) d'"
    by auto
  with Sync show ?thesis
    by (intro exI [of _ d'] exI [of _ "snd (f (shared p))"]) (simp add: accepted_def fun_eq_iff)
next
  case (Send tx m t)
  with rx [of tx] have "snd (try_send m (chans p tx)) = (chans p tx)\<lparr>queue := queue (chans p tx) @ [m]\<rparr>"
    by (auto simp: try_send_def split: if_splits)
  with Send assms(1) show ?thesis
    by (intro exI [of _ Idle] exI [of _ t]) (auto simp: accepted_def fun_eq_iff)
qed (use assms(1) in \<open>auto simp: accepted_def fun_eq_iff intro: silent\<close>)

section \<open>The invariant\<close>

abbreviation caller_of :: "call \<Rightarrow> ClientId" where
  "caller_of x \<equiv> snd (snd (snd x))"

definition call_request :: "string \<Rightarrow> call \<Rightarrow> RpcRequest" where
  "call_request n x = (case x of (ci, m, a, d) \<Rightarrow> Call ci n m a)"

definition call_packet :: "codec \<Rightarrow> string \<Rightarrow> call \<Rightarrow> bytes" where
  "call_packet cd n x = the (req_to_vec cd (call_request n x))"

definition answer_packet :: "codec \<Rightarrow> RpcResponse \<Rightarrow> bytes" where
  "answer_packet cd r = the (resp_to_vec cd r)"

text \<open>The calls that are made, and the answers that a client gets of those that are given in order.\<close>

definition calls_made :: "ClientId list \<Rightarrow> (nat \<Rightarrow> call list) \<Rightarrow> call list" where
  "calls_made ds cs = concat (map cs [1..<length ds])"

definition answers_to :: "ClientId \<Rightarrow> call list \<Rightarrow> RpcResponse list \<Rightarrow> RpcResponse list" where
  "answers_to d xs rs = map snd (filter (\<lambda>(x, r). caller_of x = d) (zip xs rs))"

text \<open>
  The setting: the connections are those of \<open>s0\<close>, each with a channel of its own; the first has
  registered the object; the ids of calls are unique (the library draws them at random); calls and
  results survive encoding and decoding, and their packets keep to the limit that \<open>write_packet\<close> sets.
\<close>

definition wired ::
    "codec \<Rightarrow> string \<Rightarrow> 'o shared_object \<Rightarrow> ClientId list \<Rightarrow> ServerState \<Rightarrow> (nat \<Rightarrow> ClientSender) \<Rightarrow> (nat \<Rightarrow> call list) \<Rightarrow> bool" where
  "wired cd n obj ds s0 txs cs \<longleftrightarrow>
     ds \<noteq> [] \<and> distinct ds \<and> inj txs \<and> objects s0 n = Some (ds ! 0) \<and>
     (\<forall>i < length ds. clients s0 (ds ! i) = Some (txs i)) \<and>
     (\<forall>i < length ds. \<forall>x \<in> set (cs i). caller_of x = ds ! i) \<and>
     distinct (map fst (calls_made ds cs)) \<and>
     (\<forall>x \<in> set (calls_made ds cs). codec_req cd (call_request n x) \<and>
        (\<forall>st. codec_resp cd (Result (fst x) n (fst (obj st (fst (snd x)) (fst (snd (snd x)))))))) \<and>
     (\<forall>x \<in> set (calls_made ds cs). packet_fits (call_packet cd n x) \<and>
        (\<forall>st. packet_fits (answer_packet cd (Result (fst x) n (fst (obj st (fst (snd x)) (fst (snd (snd x)))))))))"

definition same_directory :: "ServerState \<Rightarrow> ServerState \<Rightarrow> bool" where
  "same_directory s0 s \<longleftrightarrow> objects s = objects s0 \<and> clients s = clients s0"

text \<open>
  \<open>served\<close> is the order in which the calls are forwarded, \<open>q\<close> the number of answers that have been
  delivered, \<open>rs\<close> the answers the worker has given.
\<close>

definition worker_side ::
    "codec \<Rightarrow> string \<Rightarrow> 'o shared_object \<Rightarrow> 'o \<Rightarrow> (call \<Rightarrow> ClientSender) \<Rightarrow> ClientMsg list \<Rightarrow> nat \<Rightarrow> nat \<Rightarrow> 'o \<Rightarrow> bytes list
      \<Rightarrow> duty \<Rightarrow> call list \<Rightarrow> nat \<Rightarrow> RpcResponse list \<Rightarrow> bool" where
  "worker_side cd n obj st0 txof acc len rd st inb d served q rs \<longleftrightarrow>
     (rs, st) = object_answers n obj (take rd served) st0 \<and> acc = map (Outgoing \<circ> call_packet cd n) served \<and>
     rd \<le> len \<and> len \<le> length served \<and>
     (if d = Idle then q \<le> rd \<and> inb = map (answer_packet cd) (drop q rs)
      else q < rd \<and> inb = map (answer_packet cd) (drop (Suc q) rs) \<and>
        (d = TakeOut (fst (served ! q)) (Outgoing (answer_packet cd (rs ! q))) \<or>
         d = Deliver_To (txof (served ! q)) (Outgoing (answer_packet cd (rs ! q)))))"

text \<open>What the connection of a client has to do for the call that its handler works on, if any.\<close>

definition owes ::
    "codec \<Rightarrow> string \<Rightarrow> ClientSender \<Rightarrow> ClientId \<Rightarrow> ClientSender \<Rightarrow> (CallId \<rightharpoonup> ClientId \<times> ClientSender) \<Rightarrow> duty \<Rightarrow> call list
      \<Rightarrow> bool" where
  "owes cd n wtx c tx tbl d pend \<longleftrightarrow>
     (case pend of
        [] \<Rightarrow> d = Idle
      | [x] \<Rightarrow> d = Enter (fst x) c tx (Outgoing (call_packet cd n x)) \<or>
          d = Deliver_To wtx (Outgoing (call_packet cd n x)) \<and> tbl (fst x) = Some (c, tx)
      | _ \<Rightarrow> False)"

definition client_side ::
    "codec \<Rightarrow> string \<Rightarrow> ClientSender \<Rightarrow> ClientId \<Rightarrow> ClientSender \<Rightarrow> call list \<Rightarrow> ClientMsg list \<Rightarrow> bytes list \<Rightarrow> RpcRequest list
      \<Rightarrow> nat \<Rightarrow> (CallId \<rightharpoonup> ClientId \<times> ClientSender) \<Rightarrow> duty \<Rightarrow> call list \<Rightarrow> nat \<Rightarrow> RpcResponse list \<Rightarrow> bool" where
  "client_side cd n wtx c tx xs acc inb reqs made tbl d served q rs \<longleftrightarrow>
     acc = map (Outgoing \<circ> answer_packet cd) (answers_to c (take q served) rs) \<and>
     (\<exists>pend ib ask. xs = filter (\<lambda>x. caller_of x = c) served @ pend @ ib @ ask \<and>
        inb = map (call_packet cd n) ib \<and> reqs = map (call_request n) ask \<and> made + length ask = length xs \<and>
        owes cd n wtx c tx tbl d pend)"

lemma client_sideI:
  assumes "acc = map (Outgoing \<circ> answer_packet cd) (answers_to c (take q served) rs)"
    and "xs = filter (\<lambda>x. caller_of x = c) served @ pend @ ib @ ask" and "inb = map (call_packet cd n) ib"
    and "reqs = map (call_request n) ask" and "made + length ask = length xs" and "owes cd n wtx c tx tbl d pend"
  shows "client_side cd n wtx c tx xs acc inb reqs made tbl d served q rs"
  using assms unfolding client_side_def by blast

lemma client_sideE:
  assumes "client_side cd n wtx c tx xs acc inb reqs made tbl d served q rs"
  obtains pend ib ask where "acc = map (Outgoing \<circ> answer_packet cd) (answers_to c (take q served) rs)"
    "xs = filter (\<lambda>x. caller_of x = c) served @ pend @ ib @ ask" "inb = map (call_packet cd n) ib"
    "reqs = map (call_request n) ask" "made + length ask = length xs" "owes cd n wtx c tx tbl d pend"
  using assms unfolding client_side_def by blast

lemma owes_simps [simp]:
  "owes cd n wtx c tx tbl d [] \<longleftrightarrow> d = Idle" "owes cd n wtx c tx tbl Idle pend \<longleftrightarrow> pend = []"
  "owes cd n wtx c tx tbl d [x] \<longleftrightarrow> d = Enter (fst x) c tx (Outgoing (call_packet cd n x)) \<or>
     d = Deliver_To wtx (Outgoing (call_packet cd n x)) \<and> tbl (fst x) = Some (c, tx)"
  by (auto simp: owes_def split: list.split)

lemma owes_busyE:
  assumes "owes cd n wtx c tx tbl d pend" and "d \<noteq> Idle"
  obtains x where "pend = [x]" "d = Enter (fst x) c tx (Outgoing (call_packet cd n x))"
  | x where "pend = [x]" "d = Deliver_To wtx (Outgoing (call_packet cd n x))" "tbl (fst x) = Some (c, tx)"
  using assms by (auto simp: owes_def split: list.splits)

fun taken :: "duty \<Rightarrow> nat" where
  "taken (Deliver_To _ _) = 1"
| "taken _ = 0"

definition table_side ::
    "(call \<Rightarrow> ClientSender) \<Rightarrow> (CallId \<rightharpoonup> ClientId \<times> ClientSender) \<Rightarrow> call list \<Rightarrow> nat \<Rightarrow> bool" where
  "table_side txof tbl served q \<longleftrightarrow>
     (\<forall>x \<in> set (drop q served). tbl (fst x) = Some (caller_of x, txof x)) \<and>
     (\<forall>x \<in> set (take q served). tbl (fst x) = None)"

definition channel_of :: "ServerState \<Rightarrow> call \<Rightarrow> ClientSender" where
  "channel_of s0 x = the (clients s0 (caller_of x))"

definition mechanics :: "ClientId list \<Rightarrow> ServerState \<Rightarrow> (nat \<Rightarrow> ClientSender) \<Rightarrow> pool \<Rightarrow> duty list \<Rightarrow> bool" where
  "mechanics ds s0 txs p du \<longleftrightarrow>
     length (jobs p) = length ds \<and> length du = length ds \<and> conn p = txs \<and> same_directory s0 (shared p) \<and>
     (\<forall>tx. rx_open (chans p tx) \<and> writing p tx \<and> list_all writable (queue (chans p tx))) \<and> has_places p \<and> follows (same_directory s0) p \<and> finite (busy p) \<and>
     (\<forall>i < length ds. performs (same_directory s0) (txs 0) (jobs p ! i) (du ! i))"

definition bus_inv ::
    "codec \<Rightarrow> string \<Rightarrow> 'o shared_object \<Rightarrow> ClientId list \<Rightarrow> ServerState \<Rightarrow> (nat \<Rightarrow> ClientSender) \<Rightarrow> (nat \<Rightarrow> call list) \<Rightarrow> 'o
      \<Rightarrow> 'o bus \<Rightarrow> duty list \<Rightarrow> call list \<Rightarrow> nat \<Rightarrow> RpcResponse list \<Rightarrow> bool" where
  "bus_inv cd n obj ds s0 txs cs st0 b du served q rs \<longleftrightarrow>
     mechanics ds s0 txs (net b) du \<and> worker_up b \<and>
     worker_side cd n obj st0 (channel_of s0) (accepted (net b) (txs 0)) (length (written (net b) (txs 0)))
       (worker_read b) (worker_state b) (inbox b 0) (du ! 0) served q rs \<and>
     (\<forall>i. 0 < i \<and> i < length ds \<longrightarrow>
        client_side cd n (txs 0) (ds ! i) (txs i) (cs i) (accepted (net b) (txs i)) (inbox b i) (to_ask b i)
          (requests_made b i) (calls (shared (net b))) (du ! i) served q rs) \<and>
     table_side (channel_of s0) (calls (shared (net b))) served (q + taken (du ! 0)) \<and>
     distinct (map fst served) \<and> set served \<subseteq> set (calls_made ds cs)"

section \<open>Facts of the setting\<close>

lemma made_by: "0 < i \<Longrightarrow> i < length ds \<Longrightarrow> x \<in> set (cs i) \<Longrightarrow> x \<in> set (calls_made ds cs)"
  by (auto simp: calls_made_def)

lemma wiredD:
  assumes "wired cd n obj ds s0 txs cs"
  shows wired_caller: "i < length ds \<Longrightarrow> x \<in> set (cs i) \<Longrightarrow> caller_of x = ds ! i"
    and wired_nth: "i < length ds \<Longrightarrow> j < length ds \<Longrightarrow> ds ! i = ds ! j \<Longrightarrow> i = j"
    and wired_client: "i < length ds \<Longrightarrow> clients s0 (ds ! i) = Some (txs i)"
    and wired_object: "objects s0 n = Some (ds ! 0)" and wired_nonempty: "0 < length ds" and wired_inj: "inj txs"
    and wired_ids: "distinct (map fst (calls_made ds cs))"
    and wired_call: "x \<in> set (calls_made ds cs) \<Longrightarrow> codec_req cd (call_request n x)"
    and wired_result: "x \<in> set (calls_made ds cs) \<Longrightarrow>
      codec_resp cd (Result (fst x) n (fst (obj st (fst (snd x)) (fst (snd (snd x))))))"
    and wired_call_fits: "x \<in> set (calls_made ds cs) \<Longrightarrow> packet_fits (call_packet cd n x)"
    and wired_result_fits: "x \<in> set (calls_made ds cs) \<Longrightarrow>
      packet_fits (answer_packet cd (Result (fst x) n (fst (obj st (fst (snd x)) (fst (snd (snd x)))))))"
  using assms by (simp_all add: wired_def nth_eq_iff_index_eq)

lemma made_by_someone:
  assumes "wired cd n obj ds s0 txs cs" and "x \<in> set (calls_made ds cs)"
  obtains i where "0 < i" "i < length ds" "x \<in> set (cs i)" "caller_of x = ds ! i"
proof -
  from assms(2) obtain i where "0 < i" "i < length ds" "x \<in> set (cs i)" by (auto simp: calls_made_def Suc_le_eq)
  with wired_caller [OF assms(1)] that show ?thesis by blast
qed

lemma calls_unique:
  assumes "wired cd n obj ds s0 txs cs" and "x \<in> set (calls_made ds cs)" and "y \<in> set (calls_made ds cs)" and "fst x = fst y"
  shows "x = y"
  by (rule inj_onD [OF _ assms(4,2,3)]) (use wired_ids [OF assms(1)] in \<open>simp add: distinct_map\<close>)

lemma distinct_client:
  assumes "wired cd n obj ds s0 txs cs" and "0 < i" "i < length ds"
  shows "distinct (cs i)"
proof -
  have "distinct (concat (map cs [1..<length ds]))"
    using wired_ids [OF assms(1)] by (simp add: calls_made_def distinct_map)
  then show ?thesis using assms(2,3) by (auto simp: distinct_concat_iff)
qed

text \<open>A call that is not forwarded yet has an id of its own.\<close>

lemma pending_fresh:
  assumes w: "wired cd n obj ds s0 txs cs" and i: "0 < i" "i < length ds"
    and x: "cs i = filter (\<lambda>x. caller_of x = ds ! i) served @ x # rest"
    and y: "y \<in> set served" "set served \<subseteq> set (calls_made ds cs)"
  shows "fst x \<noteq> fst y"
proof
  assume id: "fst x = fst y"
  have xi: "x \<in> set (cs i)" by (simp add: x)
  then have "x \<in> set (calls_made ds cs)" by (rule made_by [OF i])
  with id y have "x = y" by (intro calls_unique [OF w]) auto
  with wired_caller [OF w i(2) xi] y have "x \<in> set (filter (\<lambda>x. caller_of x = ds ! i) served)" by simp
  with distinct_client [OF w i] show False by (simp add: x)
qed

lemma others_differ:
  assumes w: "wired cd n obj ds s0 txs cs" and ij: "0 < i" "i < length ds" "0 < j" "j < length ds" "i \<noteq> j"
    and x: "x \<in> set (cs i)" and y: "y \<in> set (cs j)"
  shows "fst x \<noteq> fst y"
proof
  assume "fst x = fst y"
  then have "x = y" by (intro calls_unique [OF w] made_by [of i] made_by [of j]) (use ij x y in auto)
  with wired_caller [OF w ij(2) x] wired_caller [OF w ij(4) y] wired_nth [OF w ij(2,4)] ij(5) show False by simp
qed

lemma call_packet_decodes:
  assumes "wired cd n obj ds s0 txs cs" and "x \<in> set (calls_made ds cs)"
  shows "req_to_vec cd (call_request n x) = Some (call_packet cd n x)"
    and "decode_packet cd (call_packet cd n x) = InRequest (call_request n x)"
proof -
  have ok: "codec_req cd (call_request n x)" using assms by (rule wired_call)
  then show "req_to_vec cd (call_request n x) = Some (call_packet cd n x)"
    by (auto simp: codec_req_def call_packet_def)
  with ok show "decode_packet cd (call_packet cd n x) = InRequest (call_request n x)"
    by (rule decode_packet_request)
qed

text \<open>The answer to a call in a state of the object.\<close>

definition answer_of :: "string \<Rightarrow> 'o shared_object \<Rightarrow> call \<Rightarrow> 'o \<Rightarrow> RpcResponse" where
  "answer_of n obj x st = Result (fst x) n (fst (obj st (fst (snd x)) (fst (snd (snd x)))))"

lemma answer_packet_decodes:
  assumes "wired cd n obj ds s0 txs cs" and "x \<in> set (calls_made ds cs)"
  shows "resp_to_vec cd (answer_of n obj x st) = Some (answer_packet cd (answer_of n obj x st))"
    and "decode_packet cd (answer_packet cd (answer_of n obj x st)) = InResponse (answer_of n obj x st)"
proof -
  have ok: "codec_resp cd (answer_of n obj x st)" using wired_result [OF assms] by (simp add: answer_of_def)
  then show "resp_to_vec cd (answer_of n obj x st) = Some (answer_packet cd (answer_of n obj x st))"
    by (auto simp: codec_resp_def answer_packet_def)
  with ok show "decode_packet cd (answer_packet cd (answer_of n obj x st)) = InResponse (answer_of n obj x st)"
    by (rule decode_packet_response)
qed

lemma object_answers_Cons:
  "object_answers n obj (x # xs) st =
     (let st1 = snd (obj st (fst (snd x)) (fst (snd (snd x))));
          (rs, st2) = object_answers n obj xs st1
      in (answer_of n obj x st # rs, st2))"
  by (cases x) (simp add: answer_of_def split_beta Let_def)

lemma object_answers_length: "length (fst (object_answers n obj xs st)) = length xs"
  by (induction xs arbitrary: st) (simp_all add: object_answers_Cons split_beta Let_def del: object_answers.simps(2))

lemma object_answers_snoc:
  "object_answers n obj (xs @ [x]) st =
     (let (rs, st1) = object_answers n obj xs st
      in (rs @ [answer_of n obj x st1], snd (obj st1 (fst (snd x)) (fst (snd (snd x))))))"
  by (induction xs arbitrary: st) (simp_all add: object_answers_Cons split_beta Let_def del: object_answers.simps(2))

lemma object_answers_nth:
  "q < length xs \<Longrightarrow> \<exists>st1. fst (object_answers n obj xs st) ! q = answer_of n obj (xs ! q) st1"
proof (induction xs rule: rev_induct)
  case (snoc x xs)
  then show ?case
    by (auto simp: object_answers_snoc split_beta Let_def nth_append object_answers_length less_Suc_eq)
qed simp

lemma answers_to_snoc:
  "length xs \<le> length rs \<Longrightarrow> answers_to d xs (rs @ [r]) = answers_to d xs rs"
  by (simp add: answers_to_def zip_append2)

lemma answers_to_Suc:
  assumes "q < length xs" and "q < length rs"
  shows "answers_to d (take (Suc q) xs) rs = answers_to d (take q xs) rs @ (if caller_of (xs ! q) = d then [rs ! q] else [])"
proof -
  have "zip (take k xs) rs = take k (zip xs rs)" for k
    by (rule nth_equalityI) auto
  moreover have "take (Suc q) (zip xs rs) = take q (zip xs rs) @ [(xs ! q, rs ! q)]"
    using assms by (simp add: take_Suc_conv_app_nth)
  ultimately show ?thesis by (simp add: answers_to_def)
qed

end
