(* ===== verification/Bus_Protocol.thy ===== *)
theory Bus_Protocol
  imports Bus
begin

text \<open>
  The moves of broker, worker and clients keep the invariant of theory \<^verbatim>\<open>Bus\<close>; its runs are finite, and
  where nothing moves any more every call is answered as if the object had served them one after the
  other.
\<close>

section \<open>The worker's side\<close>

lemma worker_forward:
  "worker_side cd n obj st0 txof acc len rd st inb d served q rs \<Longrightarrow>
   worker_side cd n obj st0 txof (acc @ [Outgoing (call_packet cd n x)]) len rd st inb d (served @ [x]) q rs"
  by (auto simp: worker_side_def nth_append)

lemma worker_written:
  "worker_side cd n obj st0 txof acc len rd st inb d served q rs \<Longrightarrow> len \<le> len' \<Longrightarrow> len' \<le> length acc \<Longrightarrow>
   worker_side cd n obj st0 txof acc len' rd st inb d served q rs"
  by (auto simp: worker_side_def)

lemma worker_bounds:
  assumes "worker_side cd n obj st0 txof acc len rd st inb d served q rs"
  shows "length rs = rd" and "rd \<le> length served" and "q + taken d \<le> length served" and "q \<le> rd"
proof -
  from assms have "rs = fst (object_answers n obj (take rd served) st0)" and le: "rd \<le> length served"
    by (auto simp: worker_side_def dest: sym [of "(_, _)"])
  then show "length rs = rd" by (simp add: object_answers_length)
  show "rd \<le> length served" by (fact le)
  show "q + taken d \<le> length served" "q \<le> rd"
    using assms by (cases d; auto simp: worker_side_def)+
qed

lemma worker_takes_out:
  assumes "worker_side cd n obj st0 txof acc len rd st inb (TakeOut ci m) served q rs"
  shows "ci = fst (served ! q) \<and> q < length served \<and>
     worker_side cd n obj st0 txof acc len rd st inb (Deliver_To (txof (served ! q)) m) served q rs"
  using assms by (auto simp: worker_side_def)

lemma worker_answer_of:
  assumes "worker_side cd n obj st0 txof acc len rd st inb d served q rs" and "k < length rs"
  shows "\<exists>st1. rs ! k = answer_of n obj (served ! k) st1"
proof -
  have len: "length rs = rd" "rd \<le> length served" using worker_bounds [OF assms(1)] by simp_all
  from assms(1) have "rs = fst (object_answers n obj (take rd served) st0)"
    by (auto simp: worker_side_def dest: sym [of "(_, _)"])
  with object_answers_nth [of k "take rd served" n obj st0] len assms(2) show ?thesis by auto
qed

lemma worker_delivers:
  assumes "worker_side cd n obj st0 txof acc len rd st inb (Deliver_To tx m) served q rs"
  shows "tx = txof (served ! q) \<and> m = Outgoing (answer_packet cd (rs ! q)) \<and> q < length served \<and> q < length rs \<and>
     worker_side cd n obj st0 txof acc len rd st inb Idle served (Suc q) rs"
  using assms worker_bounds(1) [OF assms] by (auto simp: worker_side_def)

lemma worker_receives:
  assumes "worker_side cd n obj st0 txof acc len rd st (buf # rest) Idle served q rs"
  shows "\<exists>st1. q < length served \<and> rs ! q = answer_of n obj (served ! q) st1 \<and> buf = answer_packet cd (rs ! q) \<and>
     worker_side cd n obj st0 txof acc len rd st rest (TakeOut (fst (served ! q)) (Outgoing buf)) served q rs"
proof -
  have len: "length rs = rd" using worker_bounds(1) [OF assms] .
  from assms have q: "buf # rest = map (answer_packet cd) (drop q rs)" "q \<le> rd" "rd \<le> length served"
    by (auto simp: worker_side_def)
  from q(1) have q2: "q < length rs" by (metis drop_all leI list.distinct(1) list.map(1))
  then have d: "drop q rs = rs ! q # drop (Suc q) rs" by (simp add: Cons_nth_drop_Suc)
  obtain st1 where "rs ! q = answer_of n obj (served ! q) st1" using worker_answer_of [OF assms q2] by blast
  with q d q2 len assms show ?thesis by (auto simp: worker_side_def)
qed

lemma worker_works:
  assumes w: "worker_side cd n obj st0 txof acc len rd st inb d served q rs" and "rd < len"
  shows "acc ! rd = Outgoing (call_packet cd n (served ! rd)) \<and> rd < length served \<and>
     worker_side cd n obj st0 txof acc len (Suc rd) (snd (obj st (fst (snd (served ! rd))) (fst (snd (snd (served ! rd))))))
       (inb @ [answer_packet cd (answer_of n obj (served ! rd) st)]) d served q (rs @ [answer_of n obj (served ! rd) st])"
proof -
  note len = worker_bounds [OF w]
  from w assms(2) have r: "rd < length served" and rs: "object_answers n obj (take rd served) st0 = (rs, st)"
    by (auto simp: worker_side_def)
  then have "object_answers n obj (take (Suc rd) served) st0 =
      (rs @ [answer_of n obj (served ! rd) st], snd (obj st (fst (snd (served ! rd))) (fst (snd (snd (served ! rd))))))"
    by (simp add: take_Suc_conv_app_nth object_answers_snoc Let_def)
  with w assms(2) len r show ?thesis
    by (auto simp: worker_side_def nth_append)
qed

section \<open>The clients' sides\<close>

lemma client_table:
  assumes "client_side cd n wtx c tx xs acc inb reqs made tbl d served q rs"
    and "\<And>x rest. xs = filter (\<lambda>x. caller_of x = c) served @ x # rest \<Longrightarrow> tbl' (fst x) = tbl (fst x)"
  shows "client_side cd n wtx c tx xs acc inb reqs made tbl' d served q rs"
  using assms(1)
proof (rule client_sideE)
  fix pend ib ask
  assume *: "xs = filter (\<lambda>x. caller_of x = c) served @ pend @ ib @ ask" "owes cd n wtx c tx tbl d pend"
  with assms(2) have "owes cd n wtx c tx tbl' d pend"
    by (cases "d = Idle") (auto elim!: owes_busyE)
  with * show "acc = map (Outgoing \<circ> answer_packet cd) (answers_to c (take q served) rs) \<Longrightarrow> inb = map (call_packet cd n) ib \<Longrightarrow>
      reqs = map (call_request n) ask \<Longrightarrow> made + length ask = length xs \<Longrightarrow> ?thesis"
    by (intro client_sideI)
qed

lemma client_enters:
  assumes "client_side cd n wtx c tx xs acc inb reqs made tbl (Enter ci c' ctx m) served q rs"
  shows "c' = c \<and> ctx = tx \<and> (\<exists>x rest. xs = filter (\<lambda>x. caller_of x = c) served @ x # rest \<and> ci = fst x) \<and>
     client_side cd n wtx c tx xs acc inb reqs made (tbl(ci \<mapsto> (c, tx))) (Deliver_To wtx m) served q rs"
  using assms
proof (rule client_sideE)
  fix pend ib ask
  assume *: "xs = filter (\<lambda>x. caller_of x = c) served @ pend @ ib @ ask" "owes cd n wtx c tx tbl (Enter ci c' ctx m) pend"
    "acc = map (Outgoing \<circ> answer_packet cd) (answers_to c (take q served) rs)" "inb = map (call_packet cd n) ib"
    "reqs = map (call_request n) ask" "made + length ask = length xs"
  from *(2) obtain x where x: "pend = [x]" "Enter ci c' ctx m = Enter (fst x) c tx (Outgoing (call_packet cd n x))"
    by (auto elim!: owes_busyE)
  then have "owes cd n wtx c tx (tbl(ci \<mapsto> (c, tx))) (Deliver_To wtx m) pend" by simp
  with * have "client_side cd n wtx c tx xs acc inb reqs made (tbl(ci \<mapsto> (c, tx))) (Deliver_To wtx m) served q rs"
    by (intro client_sideI)
  with x *(1) show ?thesis by (intro conjI exI [of _ x] exI [of _ "ib @ ask"]) simp_all
qed

lemma client_forwards:
  assumes "client_side cd n wtx c tx xs acc inb reqs made tbl (Deliver_To tx' m) served q rs"
    and "\<forall>x \<in> set xs. caller_of x = c" and "q \<le> length served"
  shows "\<exists>x rest. xs = filter (\<lambda>x. caller_of x = c) served @ x # rest \<and> tx' = wtx \<and>
     m = Outgoing (call_packet cd n x) \<and> tbl (fst x) = Some (c, tx) \<and>
     client_side cd n wtx c tx xs acc inb reqs made tbl Idle (served @ [x]) q rs"
  using assms(1)
proof (rule client_sideE)
  fix pend ib ask
  assume *: "acc = map (Outgoing \<circ> answer_packet cd) (answers_to c (take q served) rs)"
    "xs = filter (\<lambda>x. caller_of x = c) served @ pend @ ib @ ask" "inb = map (call_packet cd n) ib"
    "reqs = map (call_request n) ask" "made + length ask = length xs" "owes cd n wtx c tx tbl (Deliver_To tx' m) pend"
  from *(6) obtain x where x: "pend = [x]" "Deliver_To tx' m = Deliver_To wtx (Outgoing (call_packet cd n x))"
      "tbl (fst x) = Some (c, tx)" by (auto elim!: owes_busyE)
  have "x \<in> set xs" by (simp add: *(2) x(1))
  with assms(2) have c: "caller_of x = c" by blast
  have "client_side cd n wtx c tx xs acc inb reqs made tbl Idle (served @ [x]) q rs"
  proof (rule client_sideI [where pend = "[]" and ib = ib and ask = ask, OF _ _ *(3-5)])
    show "acc = map (Outgoing \<circ> answer_packet cd) (answers_to c (take q (served @ [x])) rs)"
      using *(1) assms(3) by simp
    show "xs = filter (\<lambda>x. caller_of x = c) (served @ [x]) @ [] @ ib @ ask"
      using *(2) c by (simp add: x(1))
  qed simp
  with x *(2) show ?thesis by (intro exI [of _ x] exI [of _ "ib @ ask"]) simp
qed

lemma client_other_forwards:
  assumes "client_side cd n wtx c tx xs acc inb reqs made tbl d served q rs" and "caller_of x \<noteq> c" and "q \<le> length served"
  shows "client_side cd n wtx c tx xs acc inb reqs made tbl d (served @ [x]) q rs"
  using assms unfolding client_side_def by simp

lemma client_answered:
  assumes "client_side cd n wtx c tx xs acc inb reqs made tbl d served q rs" and "q < length served" "q < length rs"
  shows "client_side cd n wtx c tx xs
     (acc @ (if caller_of (served ! q) = c then [Outgoing (answer_packet cd (rs ! q))] else [])) inb reqs made tbl d served (Suc q) rs"
  using assms unfolding client_side_def by (auto simp: answers_to_Suc)

lemma client_more_answers:
  assumes "client_side cd n wtx c tx xs acc inb reqs made tbl d served q rs" and "q \<le> length rs"
  shows "client_side cd n wtx c tx xs acc inb reqs made tbl d served q (rs @ [r])"
  using assms unfolding client_side_def by (simp add: answers_to_snoc)

lemma client_receives:
  assumes "client_side cd n wtx c tx xs acc (buf # rest) reqs made tbl Idle served q rs"
  shows "\<exists>x. x \<in> set xs \<and> buf = call_packet cd n x \<and>
     client_side cd n wtx c tx xs acc rest reqs made tbl (Enter (fst x) c tx (Outgoing buf)) served q rs"
  using assms
proof (rule client_sideE)
  fix pend ib ask
  assume *: "acc = map (Outgoing \<circ> answer_packet cd) (answers_to c (take q served) rs)"
    "xs = filter (\<lambda>x. caller_of x = c) served @ pend @ ib @ ask" "buf # rest = map (call_packet cd n) ib"
    "reqs = map (call_request n) ask" "made + length ask = length xs" "owes cd n wtx c tx tbl Idle pend"
  from *(3) obtain x ib' where x: "ib = x # ib'" "buf = call_packet cd n x" "rest = map (call_packet cd n) ib'"
    by (cases ib) simp_all
  have "client_side cd n wtx c tx xs acc rest reqs made tbl (Enter (fst x) c tx (Outgoing buf)) served q rs"
    by (rule client_sideI [where pend = "[x]" and ib = ib' and ask = ask]) (use * x in simp_all)
  with x *(2) show ?thesis by (intro exI [of _ x]) simp
qed

lemma client_asks:
  assumes "client_side cd n wtx c tx xs acc inb (req # reqs) made tbl d served q rs"
  shows "\<exists>x. x \<in> set xs \<and> req = call_request n x \<and>
     client_side cd n wtx c tx xs acc (inb @ [call_packet cd n x]) reqs (Suc made) tbl d served q rs"
  using assms
proof (rule client_sideE)
  fix pend ib ask
  assume *: "acc = map (Outgoing \<circ> answer_packet cd) (answers_to c (take q served) rs)"
    "xs = filter (\<lambda>x. caller_of x = c) served @ pend @ ib @ ask" "inb = map (call_packet cd n) ib"
    "req # reqs = map (call_request n) ask" "made + length ask = length xs" "owes cd n wtx c tx tbl d pend"
  from *(4) obtain x ask' where x: "ask = x # ask'" "req = call_request n x" "reqs = map (call_request n) ask'"
    by (cases ask) simp_all
  have "client_side cd n wtx c tx xs acc (inb @ [call_packet cd n x]) reqs (Suc made) tbl d served q rs"
    by (rule client_sideI [where pend = pend and ib = "ib @ [x]" and ask = ask']) (use * x in simp_all)
  with x *(2) show ?thesis by (intro exI [of _ x]) simp
qed

section \<open>The table of calls\<close>

lemma table_forward:
  "table_side txof tbl served q \<Longrightarrow> q \<le> length served \<Longrightarrow> tbl (fst x) = Some (caller_of x, txof x) \<Longrightarrow>
   table_side txof tbl (served @ [x]) q"
  by (auto simp: table_side_def)

lemma table_enter:
  assumes "table_side txof tbl served q" and "\<And>y. y \<in> set served \<Longrightarrow> fst y \<noteq> ci"
  shows "table_side txof (tbl(ci := e)) served q"
proof -
  have "fst y \<noteq> ci" if "y \<in> set (drop q served) \<or> y \<in> set (take q served)" for y
    using that assms(2) [of y] by (auto dest: in_set_dropD in_set_takeD)
  with assms(1) show ?thesis unfolding table_side_def by (intro conjI ballI) simp_all
qed

lemma table_take_out:
  assumes "table_side txof tbl served q" and q: "q < length served" and ids: "distinct (map fst served)"
  shows "tbl (fst (served ! q)) = Some (caller_of (served ! q), txof (served ! q)) \<and>
     table_side txof (tbl(fst (served ! q) := None)) served (Suc q)"
proof -
  let ?x = "served ! q"
  have split: "served = take q served @ ?x # drop (Suc q) served" using q by (rule id_take_nth_drop)
  have "distinct (map fst (take q served @ ?x # drop (Suc q) served))" using ids by (simp flip: split)
  then have fresh: "fst y \<noteq> fst ?x" if "y \<in> set (drop (Suc q) served)" for y
  proof -
    have "fst ?x \<notin> fst ` set (drop (Suc q) served)"
      using \<open>distinct (map fst (take q served @ ?x # drop (Suc q) served))\<close> by simp
    with imageI [OF that, of fst] show ?thesis by metis
  qed
  from assms(1) q show ?thesis
    using fresh by (auto simp: table_side_def take_Suc_conv_app_nth simp flip: Cons_nth_drop_Suc)
qed

section \<open>The mechanics of the pool\<close>

lemma accepted_jobs [simp]: "accepted (p\<lparr>jobs := ts\<rparr>) tx = accepted p tx"
  by (simp add: accepted_def)

lemma same_directory_calls [simp]: "same_directory s0 (s\<lparr>calls := c\<rparr>) = same_directory s0 s"
  by (simp add: same_directory_def)

lemma duty_step_directory: "duty_step wtx s d s' d' \<Longrightarrow> same_directory s0 s \<Longrightarrow> same_directory s0 s'"
  by (auto elim: duty_stepE)

lemma queue_accepted:
  "accepted p' = accepted p \<Longrightarrow> written p' = written p \<Longrightarrow> queue (chans p' tx) = queue (chans p tx)"
  by (metis accepted_def same_append_eq)

lemma queue_accepted_snoc:
  assumes "accepted p' = (accepted p)(y := accepted p y @ [m])" and "written p' = written p"
  shows "queue (chans p' tx) = queue (chans p tx) @ (if tx = y then [m] else [])"
  using fun_cong [OF assms(1), of tx] assms(2) by (simp add: accepted_def split: if_splits)

lemma mechanics_run:
  assumes m: "mechanics ds s0 txs p du" and i: "i < length ds" and step: "job_step i p = Some p'"
    and fits: "\<forall>tx msg. du ! i = Deliver_To tx msg \<longrightarrow> writable msg"
  shows "\<exists>d'. mechanics ds s0 txs p' (du[i := d']) \<and> written p' = written p \<and>
     (accepted p' = accepted p \<and> duty_step (txs 0) (shared p) (du ! i) (shared p') d' \<or>
      (\<exists>tx m. du ! i = Deliver_To tx m \<and> d' = Idle \<and> shared p' = shared p \<and>
         accepted p' = (accepted p)(tx := accepted p tx @ [m])))"
proof -
  from m i have p: "performs (same_directory s0) (txs 0) (jobs p ! i) (du ! i)" "same_directory s0 (shared p)"
      "i < length (jobs p)" "\<And>tx. rx_open (chans p tx)"
    by (auto simp: mechanics_def)
  from performs_job_step [OF p step] obtain d' t where t: "jobs p' = (jobs p)[i := t]"
      "performs (same_directory s0) (txs 0) t d'" and
    eff: "accepted p' = accepted p \<and> duty_step (txs 0) (shared p) (du ! i) (shared p') d' \<or>
      (\<exists>tx m. du ! i = Deliver_To tx m \<and> d' = Idle \<and> shared p' = shared p \<and>
         accepted p' = (accepted p)(tx := accepted p tx @ [m]))" by blast
  note frame = job_step_frame [OF step]
  have "list_all writable (queue (chans p' tx))" for tx
    using eff
  proof (elim disjE exE conjE)
    assume "accepted p' = accepted p"
    with frame m show ?thesis by (simp add: queue_accepted [of p' p] mechanics_def)
  next
    fix y msg assume "du ! i = Deliver_To y msg" "accepted p' = (accepted p)(y := accepted p y @ [msg])"
    with frame m fits show ?thesis by (simp add: queue_accepted_snoc [of p' p] mechanics_def)
  qed
  moreover have "same_directory s0 (shared p')" using eff p(2) by (auto dest: duty_step_directory)
  moreover have "follows (same_directory s0) p'"
    by (rule follows_job_step [OF _ p(3) step]) (use m in \<open>simp add: mechanics_def\<close>)
  moreover have "finite (busy p')"
  proof (rule finite_busy_move)
    show "finite (busy p)" using m by (simp add: mechanics_def)
    show "pool_move (Run i) p = Some p'" using p(3) step by simp
  qed
  ultimately have "mechanics ds s0 txs p' (du[i := d'])"
    using m i t frame job_step_rx_open [OF step] by (auto simp: mechanics_def nth_list_update)
  with eff frame show ?thesis by blast
qed

lemma mechanics_deliver:
  assumes m: "mechanics ds s0 txs p du" and step: "pool_move (Deliver tx) p = Some p'"
  shows "mechanics ds s0 txs p' du \<and> accepted p' = accepted p \<and> shared p' = shared p \<and>
     length (written p y) \<le> length (written p' y) \<and> length (written p' y) \<le> length (accepted p y)"
proof -
  from step obtain x c where x: "recv (chans p tx) = Some (x, c)" and
    p': "p' = p\<lparr>chans := (chans p)(tx := c), written := (written p)(tx := written p tx @ [x])\<rparr>"
    by (auto split: if_splits option.splits)
  from x have q: "queue (chans p tx) = x # queue c" by (intro mpsc.pop_some [THEN conjunct1])
  have "follows (same_directory s0) p'" "finite (busy p')"
    using m follows_move [OF _ step] finite_busy_move [OF _ step] by (simp_all add: mechanics_def)
  moreover have "has_places p'"
    using m q recv_places [OF x] by (auto simp: mechanics_def p' has_places_def dest: spec [of _ tx])
  ultimately have "mechanics ds s0 txs p' du"
    using m q recv_places [OF x] by (auto simp: mechanics_def p' dest: spec [of _ tx])
  moreover have "accepted p' = accepted p" using q by (auto simp: accepted_def p' fun_eq_iff)
  ultimately show ?thesis using q by (simp add: p' accepted_def)
qed

lemma mechanics_receive:
  assumes m: "mechanics ds s0 txs p du" and i: "i < length ds" "jobs p ! i = Done"
    and t: "performs (same_directory s0) (txs 0) t d" "disciplined (same_directory s0) t []"
  shows "mechanics ds s0 txs (p\<lparr>jobs := (jobs p)[i := t]\<rparr>) (du[i := d])"
proof -
  from m have f: "follows (same_directory s0) p" and len: "length (jobs p) = length ds" by (simp_all add: mechanics_def)
  with i obtain held where "holds_exactly p i held" "disciplined (same_directory s0) (jobs p ! i) held"
    by (metis followsD)
  with i have "holds_exactly p i []" by simp
  then have "follows (same_directory s0) (p\<lparr>jobs := (jobs p)[i := t]\<rparr>)"
    using f i len t m by (intro followsI_update [OF f, where i = i and t = t and held = "[]"])
      (auto simp: mechanics_def holds_exactly_def)
  with m i t show ?thesis
    by (auto simp: mechanics_def nth_list_update has_places_def busy_def)
qed

section \<open>The moves keep the invariant\<close>

lemma bus_invI:
  assumes "mechanics ds s0 txs (net b) du" and "worker_up b"
    and "worker_side cd n obj st0 (channel_of s0) (accepted (net b) (txs 0)) (length (written (net b) (txs 0)))
       (worker_read b) (worker_state b) (inbox b 0) (du ! 0) served q rs"
    and "\<And>i. 0 < i \<Longrightarrow> i < length ds \<Longrightarrow>
        client_side cd n (txs 0) (ds ! i) (txs i) (cs i) (accepted (net b) (txs i)) (inbox b i) (to_ask b i)
          (requests_made b i) (calls (shared (net b))) (du ! i) served q rs"
    and "table_side (channel_of s0) (calls (shared (net b))) served (q + taken (du ! 0))"
    and "distinct (map fst served)" and "set served \<subseteq> set (calls_made ds cs)"
  shows "bus_inv cd n obj ds s0 txs cs st0 b du served q rs"
  using assms by (simp add: bus_inv_def)

lemma bus_invD:
  assumes "bus_inv cd n obj ds s0 txs cs st0 b du served q rs"
  shows inv_mechanics: "mechanics ds s0 txs (net b) du" and inv_up: "worker_up b"
    and inv_worker: "worker_side cd n obj st0 (channel_of s0) (accepted (net b) (txs 0)) (length (written (net b) (txs 0)))
       (worker_read b) (worker_state b) (inbox b 0) (du ! 0) served q rs"
    and inv_client: "0 < i \<Longrightarrow> i < length ds \<Longrightarrow>
        client_side cd n (txs 0) (ds ! i) (txs i) (cs i) (accepted (net b) (txs i)) (inbox b i) (to_ask b i)
          (requests_made b i) (calls (shared (net b))) (du ! i) served q rs"
    and inv_table: "table_side (channel_of s0) (calls (shared (net b))) served (q + taken (du ! 0))"
    and inv_ids: "distinct (map fst served)" and inv_made: "set served \<subseteq> set (calls_made ds cs)"
  using assms by (simp_all add: bus_inv_def)

text \<open>The channel of a caller.\<close>

lemma channel_of_caller:
  assumes "wired cd n obj ds s0 txs cs" and "x \<in> set (calls_made ds cs)"
  obtains i where "0 < i" "i < length ds" "x \<in> set (cs i)" "caller_of x = ds ! i" "channel_of s0 x = txs i"
  using made_by_someone [OF assms] wired_client [OF assms(1)] by (metis channel_of_def option.sel)

lemma mechanics_length: "mechanics ds s0 txs p du \<Longrightarrow> length du = length ds \<and> length (jobs p) = length ds \<and> conn p = txs"
  by (simp add: mechanics_def)

lemma inv_worker_run:
  assumes w: "wired cd n obj ds s0 txs cs" and inv: "bus_inv cd n obj ds s0 txs cs st0 b du served q rs"
    and step: "job_step 0 (net b) = Some p'"
  shows "\<exists>du q. bus_inv cd n obj ds s0 txs cs st0 (b\<lparr>net := p'\<rparr>) du served q rs"
proof -
  note ne = wired_nonempty [OF w]
  note len = mechanics_length [OF inv_mechanics [OF inv]]
  have fits: "\<forall>tx msg. du ! 0 = Deliver_To tx msg \<longrightarrow> writable msg"
  proof (intro allI impI)
    fix tx msg assume d: "du ! 0 = Deliver_To tx msg"
    from worker_delivers [OF inv_worker [OF inv, unfolded d]] have *: "msg = Outgoing (answer_packet cd (rs ! q))"
      "q < length served" "q < length rs" by blast+
    from worker_answer_of [OF inv_worker [OF inv] *(3)] obtain st1 where "rs ! q = answer_of n obj (served ! q) st1" by blast
    moreover have "served ! q \<in> set (calls_made ds cs)" using inv_made [OF inv] nth_mem [OF *(2)] by blast
    ultimately show "writable msg" using wired_result_fits [OF w] by (simp add: *(1) writable_def answer_of_def split_beta)
  qed
  from mechanics_run [OF inv_mechanics [OF inv] ne step fits] obtain d' where
    m: "mechanics ds s0 txs p' (du[0 := d'])" "written p' = written (net b)" and
    eff: "accepted p' = accepted (net b) \<and> duty_step (txs 0) (shared (net b)) (du ! 0) (shared p') d' \<or>
      (\<exists>tx m. du ! 0 = Deliver_To tx m \<and> d' = Idle \<and> shared p' = shared (net b) \<and>
         accepted p' = (accepted (net b))(tx := accepted (net b) tx @ [m]))" by blast
  note worker = inv_worker [OF inv]
  from eff show ?thesis
  proof (elim disjE exE conjE)
    assume acc: "accepted p' = accepted (net b)" and "duty_step (txs 0) (shared (net b)) (du ! 0) (shared p') d'"
    from this(2) show ?thesis
    proof (cases rule: duty_step.cases)
      case silent
      with m acc inv have "bus_inv cd n obj ds s0 txs cs st0 (b\<lparr>net := p'\<rparr>) du served q rs"
        by (simp add: bus_inv_def)
      then show ?thesis by blast
    next
      case (entered ci c ctx msg)
      with worker show ?thesis by (simp add: worker_side_def)
    next
      case (taken_out ci msg)
      have d0: "du ! 0 = TakeOut ci msg" by (fact taken_out)
      from worker_takes_out [OF worker [unfolded d0]] have ci: "ci = fst (served ! q)" and q: "q < length served"
        and side: "worker_side cd n obj st0 (channel_of s0) (accepted (net b) (txs 0)) (length (written (net b) (txs 0)))
          (worker_read b) (worker_state b) (inbox b 0) (Deliver_To (channel_of s0 (served ! q)) msg) served q rs" by blast+
      have "table_side (channel_of s0) (calls (shared (net b))) served q"
        using inv_table [OF inv] by (simp add: d0)
      note table = table_take_out [OF this q inv_ids [OF inv]]
      have d': "d' = Deliver_To (channel_of s0 (served ! q)) msg" using taken_out table ci by simp
      have "bus_inv cd n obj ds s0 txs cs st0 (b\<lparr>net := p'\<rparr>) (du[0 := d']) served q rs"
      proof (rule bus_invI)
        fix i assume i: "0 < i" "i < length ds"
        have "client_side cd n (txs 0) (ds ! i) (txs i) (cs i) (accepted (net b) (txs i)) (inbox b i) (to_ask b i)
          (requests_made b i) (calls (shared p')) (du ! i) served q rs"
          by (rule client_table [OF inv_client [OF inv i]])
            (use pending_fresh [OF w i _ nth_mem [OF q] inv_made [OF inv]] in \<open>simp add: taken_out ci\<close>)
        with acc i show "client_side cd n (txs 0) (ds ! i) (txs i) (cs i) (accepted (net (b\<lparr>net := p'\<rparr>)) (txs i))
          (inbox (b\<lparr>net := p'\<rparr>) i) (to_ask (b\<lparr>net := p'\<rparr>) i) (requests_made (b\<lparr>net := p'\<rparr>) i)
          (calls (shared (net (b\<lparr>net := p'\<rparr>)))) (du[0 := d'] ! i) served q rs" by simp
      qed (use m acc side table d' taken_out ci len ne inv_up [OF inv] inv_ids [OF inv] inv_made [OF inv] in simp_all)
      then show ?thesis by blast
    qed
  next
    fix tx msg
    assume d: "du ! 0 = Deliver_To tx msg" and eff: "d' = Idle" "shared p' = shared (net b)"
      "accepted p' = (accepted (net b))(tx := accepted (net b) tx @ [msg])"
    from worker_delivers [OF worker [unfolded d]] have tx: "tx = channel_of s0 (served ! q)"
      "msg = Outgoing (answer_packet cd (rs ! q))" and q: "q < length served" "q < length rs"
      and side: "worker_side cd n obj st0 (channel_of s0) (accepted (net b) (txs 0)) (length (written (net b) (txs 0)))
          (worker_read b) (worker_state b) (inbox b 0) Idle served (Suc q) rs" by blast+
    have "served ! q \<in> set (calls_made ds cs)" using inv_made [OF inv] nth_mem [OF q(1)] by blast
    then obtain j where j: "0 < j" "j < length ds" "caller_of (served ! q) = ds ! j" "tx = txs j"
      by (metis channel_of_caller [OF w] tx(1))
    have other: "txs j \<noteq> txs i" "ds ! j \<noteq> ds ! i" if "j \<noteq> i" "i < length ds" for i
      using that j wired_inj [OF w] wired_nth [OF w j(2) that(2)] by (auto dest: injD)
    have "bus_inv cd n obj ds s0 txs cs st0 (b\<lparr>net := p'\<rparr>) (du[0 := d']) served (Suc q) rs"
    proof (rule bus_invI)
      fix i assume i: "0 < i" "i < length ds"
      have "accepted p' (txs i) = accepted (net b) (txs i) @
          (if caller_of (served ! q) = ds ! i then [Outgoing (answer_packet cd (rs ! q))] else [])"
        using other [of i] i j by (cases "j = i") (auto simp: eff tx(2))
      with client_answered [OF inv_client [OF inv i] q] i eff
      show "client_side cd n (txs 0) (ds ! i) (txs i) (cs i) (accepted (net (b\<lparr>net := p'\<rparr>)) (txs i))
          (inbox (b\<lparr>net := p'\<rparr>) i) (to_ask (b\<lparr>net := p'\<rparr>) i) (requests_made (b\<lparr>net := p'\<rparr>) i)
          (calls (shared (net (b\<lparr>net := p'\<rparr>)))) (du[0 := d'] ! i) served (Suc q) rs" by simp
    qed (use m eff side d other [of 0] j ne len inv_table [OF inv] inv_up [OF inv] inv_ids [OF inv] inv_made [OF inv] in \<open>simp_all split: if_splits\<close>)
    then show ?thesis by blast
  qed
qed

lemma inv_client_run:
  assumes w: "wired cd n obj ds s0 txs cs" and inv: "bus_inv cd n obj ds s0 txs cs st0 b du served q rs"
    and i: "0 < i" "i < length ds" and step: "job_step i (net b) = Some p'"
  shows "\<exists>du served. bus_inv cd n obj ds s0 txs cs st0 (b\<lparr>net := p'\<rparr>) du served q rs"
proof -
  note ne = wired_nonempty [OF w]
  note len = mechanics_length [OF inv_mechanics [OF inv]]
  have fits: "\<forall>tx msg. du ! i = Deliver_To tx msg \<longrightarrow> writable msg"
  proof (intro allI impI)
    fix tx msg assume "du ! i = Deliver_To tx msg"
    with inv_client [OF inv i] obtain x where "msg = Outgoing (call_packet cd n x)" "x \<in> set (cs i)"
      by (auto elim!: client_sideE owes_busyE)
    with wired_call_fits [OF w made_by [where cs = cs, OF i]] show "writable msg" by (simp add: writable_def)
  qed
  from mechanics_run [OF inv_mechanics [OF inv] i(2) step fits] obtain d' where
    m: "mechanics ds s0 txs p' (du[i := d'])" "written p' = written (net b)" and
    eff: "accepted p' = accepted (net b) \<and> duty_step (txs 0) (shared (net b)) (du ! i) (shared p') d' \<or>
      (\<exists>tx m. du ! i = Deliver_To tx m \<and> d' = Idle \<and> shared p' = shared (net b) \<and>
         accepted p' = (accepted (net b))(tx := accepted (net b) tx @ [m]))" by blast
  note client = inv_client [OF inv i]
  have callers: "\<forall>x \<in> set (cs i). caller_of x = ds ! i" using wired_caller [OF w i(2)] by blast
  from eff show ?thesis
  proof (elim disjE exE conjE)
    assume acc: "accepted p' = accepted (net b)" and "duty_step (txs 0) (shared (net b)) (du ! i) (shared p') d'"
    from this(2) show ?thesis
    proof (cases rule: duty_step.cases)
      case silent
      with m acc inv have "bus_inv cd n obj ds s0 txs cs st0 (b\<lparr>net := p'\<rparr>) du served q rs"
        by (simp add: bus_inv_def)
      then show ?thesis by blast
    next
      case (taken_out ci msg)
      with client show ?thesis by (auto elim!: client_sideE owes_busyE)
    next
      case (entered ci c ctx msg)
      have di: "du ! i = Enter ci c ctx msg" by (fact entered)
      from client_enters [OF client [unfolded di]] obtain x rest where
        x: "cs i = filter (\<lambda>x. caller_of x = ds ! i) served @ x # rest" "ci = fst x" and c: "c = ds ! i" "ctx = txs i"
        and side: "client_side cd n (txs 0) (ds ! i) (txs i) (cs i) (accepted (net b) (txs i)) (inbox b i) (to_ask b i)
          (requests_made b i) ((calls (shared (net b)))(ci \<mapsto> (ds ! i, txs i))) (Deliver_To (txs 0) msg) served q rs" by blast
      note fresh = pending_fresh [OF w i x(1) _ inv_made [OF inv]]
      have tbl: "calls (shared p') = (calls (shared (net b)))(ci \<mapsto> (ds ! i, txs i))" using entered c by simp
      have "bus_inv cd n obj ds s0 txs cs st0 (b\<lparr>net := p'\<rparr>) (du[i := d']) served q rs"
      proof (rule bus_invI)
        fix j assume j: "0 < j" "j < length ds"
        have "client_side cd n (txs 0) (ds ! j) (txs j) (cs j) (accepted (net b) (txs j)) (inbox b j) (to_ask b j)
          (requests_made b j) (calls (shared p')) (du[i := d'] ! j) served q rs"
        proof (cases "j = i")
          case True
          with side i len entered c show ?thesis by (simp add: tbl)
        next
          case False
          have "client_side cd n (txs 0) (ds ! j) (txs j) (cs j) (accepted (net b) (txs j)) (inbox b j) (to_ask b j)
            (requests_made b j) (calls (shared p')) (du ! j) served q rs"
          proof (rule client_table [OF inv_client [OF inv j]])
            fix y rest' assume "cs j = filter (\<lambda>x. caller_of x = ds ! j) served @ y # rest'"
            then have "y \<in> set (cs j)" by simp
            moreover have "x \<in> set (cs i)" by (simp add: x(1))
            ultimately have "fst x \<noteq> fst y" using False by (intro others_differ [OF w i j]) auto
            then show "calls (shared p') (fst y) = calls (shared (net b)) (fst y)" by (simp add: tbl x(2))
          qed
          with False show ?thesis by simp
        qed
        with acc show "client_side cd n (txs 0) (ds ! j) (txs j) (cs j) (accepted (net (b\<lparr>net := p'\<rparr>)) (txs j))
          (inbox (b\<lparr>net := p'\<rparr>) j) (to_ask (b\<lparr>net := p'\<rparr>) j) (requests_made (b\<lparr>net := p'\<rparr>) j)
          (calls (shared (net (b\<lparr>net := p'\<rparr>)))) (du[i := d'] ! j) served q rs" by simp
      next
        show "table_side (channel_of s0) (calls (shared (net (b\<lparr>net := p'\<rparr>)))) served (q + taken (du[i := d'] ! 0))"
          using table_enter [OF inv_table [OF inv], of ci] fresh i by (force simp: tbl x(2))
      qed (use m acc inv_worker [OF inv] i inv_up [OF inv] inv_ids [OF inv] inv_made [OF inv] in simp_all)
      then show ?thesis by blast
    qed
  next
    fix tx msg
    assume d: "du ! i = Deliver_To tx msg" and eff: "d' = Idle" "shared p' = shared (net b)"
      "accepted p' = (accepted (net b))(tx := accepted (net b) tx @ [msg])"
    note bounds = worker_bounds [OF inv_worker [OF inv]]
    have q: "q \<le> length served" using bounds by simp
    from client_forwards [OF client [unfolded d] callers q] obtain x rest where
      x: "cs i = filter (\<lambda>x. caller_of x = ds ! i) served @ x # rest" "tx = txs 0" "msg = Outgoing (call_packet cd n x)"
        "calls (shared (net b)) (fst x) = Some (ds ! i, txs i)"
      and side: "client_side cd n (txs 0) (ds ! i) (txs i) (cs i) (accepted (net b) (txs i)) (inbox b i) (to_ask b i)
          (requests_made b i) (calls (shared (net b))) Idle (served @ [x]) q rs" by blast
    have xi: "x \<in> set (cs i)" by (simp add: x(1))
    then have caller: "caller_of x = ds ! i" using callers by blast
    then have chan: "channel_of s0 x = txs i" using wired_client [OF w i(2)] by (simp add: channel_of_def)
    note fresh = pending_fresh [OF w i x(1) _ inv_made [OF inv]]
    have other: "txs 0 \<noteq> txs j" if "0 < j" for j
      using that wired_inj [OF w] by (auto dest: injD)
    have "bus_inv cd n obj ds s0 txs cs st0 (b\<lparr>net := p'\<rparr>) (du[i := d']) (served @ [x]) q rs"
    proof (rule bus_invI)
      show "worker_side cd n obj st0 (channel_of s0) (accepted (net (b\<lparr>net := p'\<rparr>)) (txs 0))
        (length (written (net (b\<lparr>net := p'\<rparr>)) (txs 0))) (worker_read (b\<lparr>net := p'\<rparr>)) (worker_state (b\<lparr>net := p'\<rparr>))
        (inbox (b\<lparr>net := p'\<rparr>) 0) (du[i := d'] ! 0) (served @ [x]) q rs"
        using worker_forward [OF inv_worker [OF inv], of x] i by (simp add: m eff x(2,3))
    next
      fix j assume j: "0 < j" "j < length ds"
      have "client_side cd n (txs 0) (ds ! j) (txs j) (cs j) (accepted (net b) (txs j)) (inbox b j) (to_ask b j)
          (requests_made b j) (calls (shared (net b))) (du[i := d'] ! j) (served @ [x]) q rs"
      proof (cases "j = i")
        case True
        with side i len eff show ?thesis by simp
      next
        case False
        with wired_nth [OF w i(2) j(2)] caller have "caller_of x \<noteq> ds ! j" by auto
        from client_other_forwards [OF inv_client [OF inv j] this q] False show ?thesis by simp
      qed
      with other [OF j(1)] show "client_side cd n (txs 0) (ds ! j) (txs j) (cs j) (accepted (net (b\<lparr>net := p'\<rparr>)) (txs j))
          (inbox (b\<lparr>net := p'\<rparr>) j) (to_ask (b\<lparr>net := p'\<rparr>) j) (requests_made (b\<lparr>net := p'\<rparr>) j)
          (calls (shared (net (b\<lparr>net := p'\<rparr>)))) (du[i := d'] ! j) (served @ [x]) q rs" by (simp add: eff x(2))
    next
      show "table_side (channel_of s0) (calls (shared (net (b\<lparr>net := p'\<rparr>)))) (served @ [x]) (q + taken (du[i := d'] ! 0))"
        using table_forward [OF inv_table [OF inv] bounds(3), of x] i by (simp add: eff x(4) caller chan)
      show "distinct (map fst (served @ [x]))"
        using inv_ids [OF inv] fresh by force
      show "set (served @ [x]) \<subseteq> set (calls_made ds cs)"
        using inv_made [OF inv] made_by [where cs = cs, OF i xi] by simp
    qed (use m inv_up [OF inv] in simp_all)
    then show ?thesis by blast
  qed
qed

lemma inv_deliver:
  assumes inv: "bus_inv cd n obj ds s0 txs cs st0 b du served q rs" and step: "pool_move (Deliver tx) (net b) = Some p'"
  shows "bus_inv cd n obj ds s0 txs cs st0 (b\<lparr>net := p'\<rparr>) du served q rs"
proof -
  note m = mechanics_deliver [OF inv_mechanics [OF inv] step]
  have "worker_side cd n obj st0 (channel_of s0) (accepted (net b) (txs 0)) (length (written p' (txs 0)))
       (worker_read b) (worker_state b) (inbox b 0) (du ! 0) served q rs"
    by (rule worker_written [OF inv_worker [OF inv]]) (use m [of "txs 0"] in simp_all)
  with m inv show ?thesis by (simp add: bus_inv_def)
qed

text \<open>The handlers of the setting are disciplined: no call is for an unknown object.\<close>

lemma disciplined_call:
  assumes w: "wired cd n obj ds s0 txs cs" and i: "i < length ds" and x: "x \<in> set (calls_made ds cs)"
  shows "disciplined (same_directory s0) (dispatch cd it (ds ! i) (call_packet cd n x)) []"
    and "performs (same_directory s0) (txs 0) (dispatch cd it (ds ! i) (call_packet cd n x))
      (Enter (fst x) (ds ! i) (txs i) (Outgoing (call_packet cd n x)))"
proof -
  obtain ci m a d where x': "x = (ci, m, a, d)" by (cases x) auto
  note dec = call_packet_decodes [OF w x, unfolded x' call_request_def split_conv]
  have dir: "objects s n = Some (ds ! 0) \<and> clients s (ds ! 0) = Some (txs 0) \<and> clients s (ds ! i) = Some (txs i)"
    if "same_directory s0 s" for s
    using that wired_object [OF w] wired_client [OF w wired_nonempty [OF w]] wired_client [OF w i]
    by (simp add: same_directory_def)
  then show "disciplined (same_directory s0) (dispatch cd it (ds ! i) (call_packet cd n x)) []"
    using dec by (auto simp: x' dispatch_def handle_call_def Let_def less_mutex_def seq_with_lock)
  show "performs (same_directory s0) (txs 0) (dispatch cd it (ds ! i) (call_packet cd n x))
      (Enter (fst x) (ds ! i) (txs i) (Outgoing (call_packet cd n x)))"
    using performs_call [of "same_directory s0" n "ds ! 0" "txs 0" "ds ! i" "txs i" cd _ ci m a] dir dec by (simp add: x')
qed

lemma disciplined_result:
  assumes w: "wired cd n obj ds s0 txs cs" and x: "x \<in> set (calls_made ds cs)"
  shows "disciplined (same_directory s0) (dispatch cd it c (answer_packet cd (answer_of n obj x st))) []"
    and "performs (same_directory s0) wtx (dispatch cd it c (answer_packet cd (answer_of n obj x st)))
      (TakeOut (fst x) (Outgoing (answer_packet cd (answer_of n obj x st))))"
proof -
  note dec = answer_packet_decodes [OF w x, of st]
  from dec(2) show "disciplined (same_directory s0) (dispatch cd it c (answer_packet cd (answer_of n obj x st))) []"
    by (auto simp: answer_of_def dispatch_def handle_response_def forward_response_def split: option.split)
  show "performs (same_directory s0) wtx (dispatch cd it c (answer_packet cd (answer_of n obj x st)))
      (TakeOut (fst x) (Outgoing (answer_packet cd (answer_of n obj x st))))"
    using dec unfolding answer_of_def by (intro performs_result)
qed

lemma mechanics_idle: "mechanics ds s0 txs p du \<Longrightarrow> i < length ds \<Longrightarrow> jobs p ! i = Done \<Longrightarrow> du ! i = Idle"
  by (auto simp: mechanics_def)

lemma inv_receive_worker:
  assumes w: "wired cd n obj ds s0 txs cs" and inv: "bus_inv cd n obj ds s0 txs cs st0 b du served q rs"
    and idle: "jobs (net b) ! 0 = Done" and inb: "inbox b 0 = buf # rest"
  shows "\<exists>du. bus_inv cd n obj ds s0 txs cs st0
     (b\<lparr>net := (net b)\<lparr>jobs := (jobs (net b))[0 := dispatch cd it (ds ! 0) buf]\<rparr>, inbox := (inbox b)(0 := rest)\<rparr>) du served q rs"
proof -
  note ne = wired_nonempty [OF w]
  note m = inv_mechanics [OF inv]
  have d: "du ! 0 = Idle" by (rule mechanics_idle [OF m ne idle])
  from worker_receives [OF inv_worker [OF inv, unfolded d inb]] obtain st1 where
    q: "q < length served" "buf = answer_packet cd (answer_of n obj (served ! q) st1)" and
    side: "worker_side cd n obj st0 (channel_of s0) (accepted (net b) (txs 0)) (length (written (net b) (txs 0)))
       (worker_read b) (worker_state b) rest (TakeOut (fst (served ! q)) (Outgoing buf)) served q rs" by auto
  let ?du = "du[0 := TakeOut (fst (served ! q)) (Outgoing buf)]"
  have x: "served ! q \<in> set (calls_made ds cs)" using inv_made [OF inv] nth_mem [OF q(1)] by blast
  have "mechanics ds s0 txs ((net b)\<lparr>jobs := (jobs (net b))[0 := dispatch cd it (ds ! 0) buf]\<rparr>) ?du"
    unfolding q(2) by (rule mechanics_receive [OF m ne idle disciplined_result(2,1) [OF w x]])
  then have "bus_inv cd n obj ds s0 txs cs st0
     (b\<lparr>net := (net b)\<lparr>jobs := (jobs (net b))[0 := dispatch cd it (ds ! 0) buf]\<rparr>, inbox := (inbox b)(0 := rest)\<rparr>) ?du served q rs"
    using side d ne mechanics_length [OF m] inv_client [OF inv] inv_table [OF inv] inv_up [OF inv] inv_ids [OF inv] inv_made [OF inv]
    by (intro bus_invI) simp_all
  then show ?thesis by blast
qed

lemma inv_receive_client:
  assumes w: "wired cd n obj ds s0 txs cs" and inv: "bus_inv cd n obj ds s0 txs cs st0 b du served q rs"
    and i: "0 < i" "i < length ds" and idle: "jobs (net b) ! i = Done" and inb: "inbox b i = buf # rest"
  shows "\<exists>du. bus_inv cd n obj ds s0 txs cs st0
     (b\<lparr>net := (net b)\<lparr>jobs := (jobs (net b))[i := dispatch cd it (ds ! i) buf]\<rparr>, inbox := (inbox b)(i := rest)\<rparr>) du served q rs"
proof -
  note m = inv_mechanics [OF inv]
  have d: "du ! i = Idle" by (rule mechanics_idle [OF m i(2) idle])
  from client_receives [OF inv_client [OF inv i, unfolded d inb]] obtain x where
    x: "x \<in> set (cs i)" "buf = call_packet cd n x" and
    side: "client_side cd n (txs 0) (ds ! i) (txs i) (cs i) (accepted (net b) (txs i)) rest (to_ask b i)
          (requests_made b i) (calls (shared (net b))) (Enter (fst x) (ds ! i) (txs i) (Outgoing buf)) served q rs" by blast
  let ?du = "du[i := Enter (fst x) (ds ! i) (txs i) (Outgoing buf)]"
  have made: "x \<in> set (calls_made ds cs)" by (rule made_by [where cs = cs, OF i x(1)])
  have "mechanics ds s0 txs ((net b)\<lparr>jobs := (jobs (net b))[i := dispatch cd it (ds ! i) buf]\<rparr>) ?du"
    unfolding x(2) by (rule mechanics_receive [OF m i(2) idle disciplined_call(2,1) [OF w i(2) made]])
  moreover have "client_side cd n (txs 0) (ds ! j) (txs j) (cs j) (accepted (net b) (txs j)) (((inbox b)(i := rest)) j) (to_ask b j)
          (requests_made b j) (calls (shared (net b))) (?du ! j) served q rs" if j: "0 < j" "j < length ds" for j
    using side inv_client [OF inv j] i mechanics_length [OF m] by (cases "j = i") simp_all
  ultimately have "bus_inv cd n obj ds s0 txs cs st0
     (b\<lparr>net := (net b)\<lparr>jobs := (jobs (net b))[i := dispatch cd it (ds ! i) buf]\<rparr>, inbox := (inbox b)(i := rest)\<rparr>) ?du served q rs"
    using i inv_worker [OF inv] inv_table [OF inv] inv_up [OF inv] inv_ids [OF inv] inv_made [OF inv]
    by (intro bus_invI) simp_all
  then show ?thesis by blast
qed

lemma work_step:
  assumes w: "wired cd n obj ds s0 txs cs" and objs: "objs n = Some obj"
    and inv: "bus_inv cd n obj ds s0 txs cs st0 b du served q rs" and step: "bus_step cd it ds objs Work b = Some b'"
  defines "x \<equiv> served ! worker_read b"
  shows "worker_read b < length (written (net b) (txs 0)) \<and>
     b' = b\<lparr>worker_read := Suc (worker_read b), worker_state := snd (obj (worker_state b) (fst (snd x)) (fst (snd (snd x)))),
       inbox := (inbox b)(0 := inbox b 0 @ [answer_packet cd (answer_of n obj x (worker_state b))])\<rparr>"
proof -
  note m = mechanics_length [OF inv_mechanics [OF inv]]
  let ?k = "worker_read b"
  from step m have k: "?k < length (written (net b) (txs 0))" by (auto simp: Let_def split: if_splits)
  note works = worker_works [OF inv_worker [OF inv] k]
  then have "written (net b) (txs 0) ! ?k = Outgoing (call_packet cd n x)" and x: "?k < length served"
    using k by (simp_all add: accepted_def nth_append x_def)
  moreover have made: "x \<in> set (calls_made ds cs)" using inv_made [OF inv] nth_mem [OF x] unfolding x_def by blast
  moreover have "worker_packet cd objs (call_packet cd n x) (worker_state b) =
      (Some (answer_packet cd (answer_of n obj x (worker_state b))),
       snd (obj (worker_state b) (fst (snd x)) (fst (snd (snd x)))))"
    using call_packet_decodes(2) [OF w made] answer_packet_decodes(1) [OF w made, of "worker_state b"] objs
    by (cases x) (simp add: worker_packet_def call_request_def answer_of_def split_beta)
  moreover have "packet_fits (answer_packet cd (answer_of n obj x (worker_state b)))"
    using wired_result_fits [OF w made] by (simp add: answer_of_def split_beta)
  ultimately show ?thesis using step k m inv_up [OF inv] by (simp add: Let_def)
qed

lemma inv_work:
  assumes w: "wired cd n obj ds s0 txs cs" and objs: "objs n = Some obj"
    and inv: "bus_inv cd n obj ds s0 txs cs st0 b du served q rs" and step: "bus_step cd it ds objs Work b = Some b'"
  shows "\<exists>rs. bus_inv cd n obj ds s0 txs cs st0 b' du served q rs"
proof -
  let ?x = "served ! worker_read b"
  note b' = work_step [where objs = objs, OF w objs inv step]
  note works = worker_works [OF inv_worker [OF inv] b' [THEN conjunct1]]
  have q: "q \<le> length rs" using worker_bounds [OF inv_worker [OF inv]] by simp
  have "bus_inv cd n obj ds s0 txs cs st0 b' du served q (rs @ [answer_of n obj ?x (worker_state b)])"
    using inv_mechanics [OF inv] works client_more_answers [OF inv_client [OF inv] q]
      inv_table [OF inv] inv_up [OF inv] inv_ids [OF inv] inv_made [OF inv]
    by (intro bus_invI) (simp_all add: b')
  then show ?thesis by blast
qed

lemma ask_step:
  assumes w: "wired cd n obj ds s0 txs cs" and inv: "bus_inv cd n obj ds s0 txs cs st0 b du served q rs"
    and step: "bus_step cd it ds objs (Ask i) b = Some b'"
  shows "\<exists>x reqs. 0 < i \<and> i < length ds \<and> to_ask b i = call_request n x # reqs \<and>
     client_side cd n (txs 0) (ds ! i) (txs i) (cs i) (accepted (net b) (txs i)) (inbox b i @ [call_packet cd n x]) reqs
          (Suc (requests_made b i)) (calls (shared (net b))) (du ! i) served q rs \<and>
     b' = b\<lparr>to_ask := (to_ask b)(i := reqs), requests_made := (requests_made b)(i := Suc (requests_made b i)),
       inbox := (inbox b)(i := inbox b i @ [call_packet cd n x])\<rparr>"
proof -
  from step obtain req reqs where i: "0 < i" "i < length ds" and req: "to_ask b i = req # reqs"
    by (auto split: if_splits list.splits)
  from client_asks [OF inv_client [OF inv i, unfolded req]] obtain x where
    x: "x \<in> set (cs i)" "req = call_request n x" and
    side: "client_side cd n (txs 0) (ds ! i) (txs i) (cs i) (accepted (net b) (txs i)) (inbox b i @ [call_packet cd n x]) reqs
          (Suc (requests_made b i)) (calls (shared (net b))) (du ! i) served q rs" by blast
  note made = made_by [where cs = cs, OF i x(1)]
  from step i req x(2) call_packet_decodes(1) [OF w made] wired_call_fits [OF w made]
  have "b' = b\<lparr>to_ask := (to_ask b)(i := reqs), requests_made := (requests_made b)(i := Suc (requests_made b i)),
       inbox := (inbox b)(i := inbox b i @ [call_packet cd n x])\<rparr>"
    by (simp split: if_splits)
  with i req x(2) side show ?thesis by (intro exI [of _ x] exI [of _ reqs]) simp
qed

lemma inv_ask:
  assumes w: "wired cd n obj ds s0 txs cs" and inv: "bus_inv cd n obj ds s0 txs cs st0 b du served q rs"
    and step: "bus_step cd it ds objs (Ask i) b = Some b'"
  shows "bus_inv cd n obj ds s0 txs cs st0 b' du served q rs"
proof -
  from ask_step [OF w inv step] obtain x reqs where i: "0 < i" "i < length ds" and
    side: "client_side cd n (txs 0) (ds ! i) (txs i) (cs i) (accepted (net b) (txs i)) (inbox b i @ [call_packet cd n x]) reqs
          (Suc (requests_made b i)) (calls (shared (net b))) (du ! i) served q rs" and
    b': "b' = b\<lparr>to_ask := (to_ask b)(i := reqs), requests_made := (requests_made b)(i := Suc (requests_made b i)),
       inbox := (inbox b)(i := inbox b i @ [call_packet cd n x])\<rparr>" by blast
  have "client_side cd n (txs 0) (ds ! j) (txs j) (cs j) (accepted (net b') (txs j)) (inbox b' j) (to_ask b' j)
          (requests_made b' j) (calls (shared (net b'))) (du ! j) served q rs" if j: "0 < j" "j < length ds" for j
    using side inv_client [OF inv j] by (cases "j = i") (simp_all add: b')
  then show ?thesis
    using i inv_mechanics [OF inv] inv_worker [OF inv] inv_table [OF inv] inv_up [OF inv] inv_ids [OF inv] inv_made [OF inv]
    by (intro bus_invI) (simp_all add: b')
qed

lemma broker_step_pool:
  assumes "mechanics ds s0 txs p du" and "sized_step mv p = Some p'"
  shows "ordinary mv \<and> pool_move mv p = Some p'"
proof (cases mv)
  case (Deliver tx)
  with assms(2) obtain m c where m: "recv (chans p tx) = Some (m, c)" by (auto split: option.splits)
  then have "queue (chans p tx) = m # queue c" by (rule mpsc.pop_some [THEN conjunct1])
  with assms(1) have "writable m" by (auto simp: mechanics_def dest: spec [of _ tx])
  with assms(2) m Deliver show ?thesis by simp
qed (use assms(2) in simp_all)

lemma sized_step_none: "sized_step mv p = None \<Longrightarrow> ordinary mv \<Longrightarrow> pool_move mv p = None"
  by (cases mv) (auto simp: writer_breaks_def split: option.splits if_splits)

lemma inv_step:
  assumes w: "wired cd n obj ds s0 txs cs" and objs: "objs n = Some obj"
    and inv: "bus_inv cd n obj ds s0 txs cs st0 b du served q rs" and step: "bus_step cd it ds objs mv b = Some b'"
  shows "\<exists>du served q rs. bus_inv cd n obj ds s0 txs cs st0 b' du served q rs"
proof (cases mv)
  case (Broker pm)
  with step obtain p' where "sized_step pm (net b) = Some p'" and b': "b' = b\<lparr>net := p'\<rparr>" by auto
  with broker_step_pool [OF inv_mechanics [OF inv]] have p': "ordinary pm" "pool_move pm (net b) = Some p'" "b' = b\<lparr>net := p'\<rparr>"
    by blast+
  show ?thesis
  proof (cases pm)
    case (Run i)
    with p' mechanics_length [OF inv_mechanics [OF inv]] have "i < length ds" "job_step i (net b) = Some p'"
      by (auto split: if_splits)
    with inv_worker_run [OF w inv] inv_client_run [OF w inv] p'(3) show ?thesis by (cases "i = 0") blast+
  next
    case (Deliver tx)
    with inv_deliver [OF inv] p' show ?thesis by blast
  qed (use p'(1) in simp_all)
next
  case (Receive i)
  with step obtain buf rest where *: "i < length ds" "jobs (net b) ! i = Done" "inbox b i = buf # rest"
    "b' = b\<lparr>net := (net b)\<lparr>jobs := (jobs (net b))[i := dispatch cd it (ds ! i) buf]\<rparr>, inbox := (inbox b)(i := rest)\<rparr>"
    by (auto split: if_splits list.splits)
  with inv_receive_worker [OF w inv, of buf rest it] inv_receive_client [OF w inv, of i buf rest it] show ?thesis
    by (cases "i = 0") blast+
next
  case Work
  with inv_work [where objs = objs, OF w objs inv] step show ?thesis by blast
next
  case (Ask i)
  with inv_ask [OF w inv] step show ?thesis by blast
qed

text \<open>The system with its invariant, in the sense of theory \<^verbatim>\<open>Broker\<close>.\<close>

definition bus_ok ::
    "codec \<Rightarrow> string \<Rightarrow> 'o shared_object \<Rightarrow> ClientId list \<Rightarrow> ServerState \<Rightarrow> (nat \<Rightarrow> ClientSender) \<Rightarrow> (nat \<Rightarrow> call list) \<Rightarrow> 'o
      \<Rightarrow> 'o bus \<Rightarrow> bool" where
  "bus_ok cd n obj ds s0 txs cs st0 b \<longleftrightarrow>
     wired cd n obj ds s0 txs cs \<and> (\<exists>du served q rs. bus_inv cd n obj ds s0 txs cs st0 b du served q rs)"

definition bus_moves ::
    "codec \<Rightarrow> (ClientId fset \<Rightarrow> ClientId list) \<Rightarrow> ClientId list \<Rightarrow> (string \<rightharpoonup> 'o shared_object) \<Rightarrow> 'o bus \<Rightarrow> 'o bus \<Rightarrow> bool" where
  "bus_moves cd it ds objs b b' \<longleftrightarrow> (\<exists>mv. bus_step cd it ds objs mv b = Some b')"

interpretation bus: invariant_system
  "bus_ok cd n obj ds s0 txs cs st0" "\<lambda>b b'. objs n = Some obj \<and> bus_moves cd it ds objs b b'" "bus_ok cd n obj ds s0 txs cs st0"
  for cd n obj ds s0 txs cs st0 objs it
  by unfold_locales (auto simp: bus_ok_def bus_moves_def dest: inv_step)

lemma bus_run_moves: "bus_run cd it ds objs mvs b = Some b' \<Longrightarrow> (bus_moves cd it ds objs)\<^sup>*\<^sup>* b b'"
proof (induction mvs arbitrary: b)
  case (Cons mv mvs)
  then obtain b1 where "bus_step cd it ds objs mv b = Some b1" "bus_run cd it ds objs mvs b1 = Some b'"
    by (auto split: option.splits)
  with Cons.IH show ?case by (auto simp: bus_moves_def intro: converse_rtranclp_into_rtranclp)
qed simp

lemma ok_run:
  assumes "bus_ok cd n obj ds s0 txs cs st0 b" and "objs n = Some obj" and "bus_run cd it ds objs mvs b = Some b'"
  shows "bus_ok cd n obj ds s0 txs cs st0 b'"
proof -
  have "(\<lambda>b b'. objs n = Some obj \<and> bus_moves cd it ds objs b b')\<^sup>*\<^sup>* b b'"
    using bus_run_moves [OF assms(3)] by (rule rtranclp_mono [THEN predicate2D, rotated]) (auto simp: assms(2))
  with assms(1) show ?thesis by (rule bus.good_reachable)
qed

lemma ok_start:
  assumes w: "wired cd n obj ds s0 txs cs"
  shows "bus_ok cd n obj ds s0 txs cs st0 (bus_start txs s0 (length ds) st0 (\<lambda>i. map (call_request n) (cs i)))"
proof -
  let ?p = "start_pool txs s0 (replicate (length ds) Done)"
  have "follows (same_directory s0) ?p"
    by (rule lock_order.good_start) (simp add: fresh_pool_def start_pool_def same_directory_def list_all_iff)
  then have "mechanics ds s0 txs ?p (replicate (length ds) Idle)"
    using start_pool_places [of txs s0 "replicate (length ds) Done"]
    by (simp add: mechanics_def) (simp add: start_pool_def same_directory_def new_channel_def)
  moreover have acc: "accepted ?p tx = []" "written ?p tx = []" for tx
    by (simp_all add: start_pool_def accepted_def new_channel_def)
  moreover have "client_side cd n (txs 0) (ds ! i) (txs i) (cs i) [] [] (map (call_request n) (cs i)) 0 tbl Idle [] 0 []" for i tbl
    by (rule client_sideI [where pend = "[]" and ib = "[]" and ask = "cs i"]) (simp_all add: answers_to_def)
  ultimately have "bus_inv cd n obj ds s0 txs cs st0 (bus_start txs s0 (length ds) st0 (\<lambda>i. map (call_request n) (cs i)))
      (replicate (length ds) Idle) [] 0 []"
    using wired_nonempty [OF w] by (intro bus_invI) (simp_all add: bus_start_def worker_side_def table_side_def)
  with w show ?thesis unfolding bus_ok_def by blast
qed

section \<open>Runs are finite\<close>

definition work_left :: "nat \<Rightarrow> nat \<Rightarrow> 'o bus \<Rightarrow> nat" where
  "work_left k made b =
     2 * (\<Sum>i < k. length (to_ask b i)) + (\<Sum>i < k. length (inbox b i)) + 2 * (made - worker_read b)"

definition bus_order :: "nat \<Rightarrow> nat \<Rightarrow> ('o bus \<times> 'o bus) set" where
  "bus_order k made = inv_image (less_than <*lex*> pool_order) (\<lambda>b. (work_left k made b, net b))"

lemma wf_bus_order: "wf (bus_order k made)"
  unfolding bus_order_def by (intro wf_inv_image wf_lex_prod wf_less_than wf_pool_order)

lemma sum_update:
  fixes f :: "nat \<Rightarrow> nat"
  assumes "i < k" shows "(\<Sum>j < k. (f(i := v)) j) + f i = (\<Sum>j < k. f j) + v"
  using assms sum.remove [of "{..<k}" i "f(i := v)"] sum.remove [of "{..<k}" i f] by simp

lemma length_sum_update:
  fixes g :: "nat \<Rightarrow> 'a list"
  shows "i < k \<Longrightarrow> (\<Sum>j < k. length ((g(i := ys)) j)) + length (g i) = (\<Sum>j < k. length (g j)) + length ys"
  using sum_update [of i k "\<lambda>j. length (g j)" "length ys"] by (simp add: if_distrib fun_upd_def cong: if_cong)

lemma served_bound:
  assumes "bus_inv cd n obj ds s0 txs cs st0 b du served q rs"
  shows "length served \<le> length (calls_made ds cs)"
proof -
  have "distinct served" using inv_ids [OF assms] by (simp add: distinct_map)
  then have "length served = card (set served)" by (simp add: distinct_card)
  also have "\<dots> \<le> card (set (calls_made ds cs))" using inv_made [OF assms] by (intro card_mono) simp_all
  finally show ?thesis using card_length [of "calls_made ds cs"] by simp
qed

lemma bus_step_decreases:
  assumes ok: "bus_ok cd n obj ds s0 txs cs st0 b" and objs: "objs n = Some obj" and step: "bus_step cd it ds objs mv b = Some b'"
  shows "(b', b) \<in> bus_order (length ds) (length (calls_made ds cs))"
proof -
  from ok obtain du served q rs where w: "wired cd n obj ds s0 txs cs" and inv: "bus_inv cd n obj ds s0 txs cs st0 b du served q rs"
    unfolding bus_ok_def by blast
  note ne = wired_nonempty [OF w]
  let ?k = "length ds" and ?N = "length (calls_made ds cs)"
  show ?thesis
  proof (cases mv)
    case (Broker pm)
    with step obtain p' where "sized_step pm (net b) = Some p'" and "b' = b\<lparr>net := p'\<rparr>" by auto
    with broker_step_pool [OF inv_mechanics [OF inv]] have p': "ordinary pm" "pool_move pm (net b) = Some p'" "b' = b\<lparr>net := p'\<rparr>"
      by blast+
    have "finite (busy (net b))" using inv_mechanics [OF inv] by (simp add: mechanics_def)
    with p' have "(p', net b) \<in> pool_order" by (intro ordinary_step_decreases) (auto simp: ordinary_step_def)
    then show ?thesis by (simp add: bus_order_def p'(3) work_left_def)
  next
    case (Receive i)
    with step obtain buf rest where *: "i < length ds" "inbox b i = buf # rest"
      "b' = b\<lparr>net := (net b)\<lparr>jobs := (jobs (net b))[i := dispatch cd it (ds ! i) buf]\<rparr>, inbox := (inbox b)(i := rest)\<rparr>"
      by (auto split: if_splits list.splits)
    with length_sum_update [of i ?k "inbox b" rest] show ?thesis by (simp add: bus_order_def work_left_def)
  next
    case Work
    note b' = work_step [where objs = objs, OF w objs inv step [unfolded Work]]
    from worker_works [OF inv_worker [OF inv] b' [THEN conjunct1]] served_bound [OF inv] have N: "worker_read b < ?N" by simp
    then have "1 + 2 * (?N - Suc (worker_read b)) < 2 * (?N - worker_read b)" by arith
    with length_sum_update [of 0 ?k "inbox b" "inbox b 0 @
        [answer_packet cd (answer_of n obj (served ! worker_read b) (worker_state b))]"] ne N
    show ?thesis by (simp add: bus_order_def work_left_def b')
  next
    case (Ask i)
    from ask_step [OF w inv step [unfolded Ask]] obtain x reqs where *: "i < length ds" "to_ask b i = call_request n x # reqs"
      "b' = b\<lparr>to_ask := (to_ask b)(i := reqs), requests_made := (requests_made b)(i := Suc (requests_made b i)),
         inbox := (inbox b)(i := inbox b i @ [call_packet cd n x])\<rparr>" by blast
    with length_sum_update [of i ?k "inbox b" "inbox b i @ [call_packet cd n x]"] length_sum_update [of i ?k "to_ask b" reqs]
    show ?thesis by (simp add: bus_order_def work_left_def)
  qed
qed

lemma complete_run:
  "bus_ok cd n obj ds s0 txs cs st0 b \<Longrightarrow> objs n = Some obj \<Longrightarrow>
   \<exists>mvs b'. bus_run cd it ds objs mvs b = Some b' \<and> bus_stuck cd it ds objs b'"
proof (induction b rule: wf_induct_rule [OF wf_bus_order [of "length ds" "length (calls_made ds cs)"]])
  case (1 b)
  show ?case
  proof (cases "bus_stuck cd it ds objs b")
    case True
    then show ?thesis by (intro exI [of _ "[]"]) simp
  next
    case False
    then obtain mv b1 where mv: "bus_step cd it ds objs mv b = Some b1" by (auto simp: bus_stuck_def)
    then have "bus_run cd it ds objs [mv] b = Some b1" by simp
    then have "bus_ok cd n obj ds s0 txs cs st0 b1" by (rule ok_run [where objs = objs, OF 1(2,3)])
    with 1(1) [OF bus_step_decreases [where objs = objs, OF 1(2,3) mv] _ 1(3)] obtain mvs b' where
      "bus_run cd it ds objs mvs b1 = Some b'" "bus_stuck cd it ds objs b'" by blast
    with mv show ?thesis by (intro exI [of _ "mv # mvs"] exI [of _ b']) simp
  qed
qed

definition bus_for_ever ::
    "codec \<Rightarrow> (ClientId fset \<Rightarrow> ClientId list) \<Rightarrow> ClientId list \<Rightarrow> (string \<rightharpoonup> 'o shared_object) \<Rightarrow> 'o bus \<Rightarrow> bool" where
  "bus_for_ever cd it ds objs b \<longleftrightarrow> (\<exists>bs. bs 0 = b \<and> (\<forall>k. \<exists>mv. bus_step cd it ds objs mv (bs k) = Some (bs (Suc k))))"

lemma runs_finite:
  assumes ok: "bus_ok cd n obj ds s0 txs cs st0 b" and objs: "objs n = Some obj"
  shows "\<not> bus_for_ever cd it ds objs b"
proof
  assume "bus_for_ever cd it ds objs b"
  then obtain bs where 0: "bs 0 = b" and step: "\<And>k. \<exists>mv. bus_step cd it ds objs mv (bs k) = Some (bs (Suc k))"
    by (auto simp: bus_for_ever_def)
  have "bus_ok cd n obj ds s0 txs cs st0 (bs k)" for k
  proof (induction k)
    case (Suc k)
    obtain mv where "bus_step cd it ds objs mv (bs k) = Some (bs (Suc k))" using step by blast
    then have "bus_run cd it ds objs [mv] (bs k) = Some (bs (Suc k))" by simp
    with Suc objs show ?case by (rule ok_run)
  qed (simp add: 0 ok)
  with step objs have "(bs (Suc k), bs k) \<in> bus_order (length ds) (length (calls_made ds cs))" for k
    by (meson bus_step_decreases)
  with wf_bus_order show False by (metis wf_iff_no_infinite_down_chain)
qed

section \<open>Where nothing moves any more\<close>

lemma stuck_idle:
  assumes inv: "bus_inv cd n obj ds s0 txs cs st0 b du served q rs" and stuck: "bus_stuck cd it ds objs b"
  shows "\<forall>i < length ds. jobs (net b) ! i = Done \<and> du ! i = Idle \<and> inbox b i = []" and "accepted (net b) tx = written (net b) tx"
proof -
  note m = inv_mechanics [OF inv]
  have "stuck (net b)"
    unfolding stuck_def
  proof (intro allI impI)
    fix mv assume "ordinary mv"
    moreover have "bus_step cd it ds objs (Broker mv) b = None" using stuck unfolding bus_stuck_def by blast
    ultimately show "pool_move mv (net b) = None" by (simp add: sized_step_none)
  qed
  with m have idle: "(\<forall>t \<in> set (jobs (net b)). t = Done) \<and> busy (net b) = {}"
    by (intro stuck_done) (auto simp: mechanics_def)
  then show "accepted (net b) tx = written (net b) tx" by (auto simp: accepted_def busy_def)
  show "\<forall>i < length ds. jobs (net b) ! i = Done \<and> du ! i = Idle \<and> inbox b i = []"
  proof (intro allI impI)
    fix i assume i: "i < length ds"
    with idle mechanics_length [OF m] have finished: "jobs (net b) ! i = Done" by simp
    moreover have "bus_step cd it ds objs (Receive i) b = None" using stuck unfolding bus_stuck_def by blast
    ultimately show "jobs (net b) ! i = Done \<and> du ! i = Idle \<and> inbox b i = []"
      using i mechanics_idle [OF m i] by (simp split: list.splits)
  qed
qed

lemma answers_to_length:
  "length rs = length xs \<Longrightarrow> length (answers_to d xs rs) = length (filter (\<lambda>x. caller_of x = d) xs)"
proof (induction rs xs rule: list_induct2)
  case (Cons r rs x xs)
  then show ?case by (cases x) (simp add: answers_to_def)
qed (simp add: answers_to_def)

lemma stuck_served:
  assumes w: "wired cd n obj ds s0 txs cs" and objs: "objs n = Some obj"
    and inv: "bus_inv cd n obj ds s0 txs cs st0 b du served q rs" and stuck: "bus_stuck cd it ds objs b"
  shows "(rs, worker_state b) = object_answers n obj served st0 \<and>
     (\<forall>x \<in> set served. calls (shared (net b)) (fst x) = None) \<and>
     (\<forall>i. 0 < i \<and> i < length ds \<longrightarrow> filter (\<lambda>x. caller_of x = ds ! i) served = cs i \<and>
        written (net b) (txs i) = map (Outgoing \<circ> answer_packet cd) (answers_to (ds ! i) served rs))"
proof -
  note idle = stuck_idle [OF inv stuck]
  note ne = wired_nonempty [OF w]
  note m = mechanics_length [OF inv_mechanics [OF inv]]
  have d0: "du ! 0 = Idle" "inbox b 0 = []" using idle(1) ne by auto
  note worker = inv_worker [OF inv, unfolded d0 idle(2)]
  note bounds = worker_bounds [OF worker]
  have "\<not> worker_read b < length (written (net b) (txs 0))"
  proof
    assume k: "worker_read b < length (written (net b) (txs 0))"
    with worker_works [OF worker k] have "bus_step cd it ds objs Work b \<noteq> None"
      using m inv_up [OF inv] by (simp add: Let_def split: prod.split option.split)
    with stuck show False unfolding bus_stuck_def by metis
  qed
  with worker have read: "worker_read b = length served" by (auto simp: worker_side_def)
  with worker have rs: "(rs, worker_state b) = object_answers n obj served st0" by (auto simp: worker_side_def)
  from worker bounds(1,4) read have q: "q = length served" by (auto simp: worker_side_def)
  have clients: "filter (\<lambda>x. caller_of x = ds ! i) served = cs i \<and>
      written (net b) (txs i) = map (Outgoing \<circ> answer_packet cd) (answers_to (ds ! i) served rs)"
    if i: "0 < i" "i < length ds" for i
  proof -
    have "du ! i = Idle" "inbox b i = []" using idle(1) i by auto
    note side = inv_client [OF inv i, unfolded this idle(2)]
    from side show ?thesis
    proof (rule client_sideE)
      fix pend ib ask
      assume *: "written (net b) (txs i) = map (Outgoing \<circ> answer_packet cd) (answers_to (ds ! i) (take q served) rs)"
        "cs i = filter (\<lambda>x. caller_of x = ds ! i) served @ pend @ ib @ ask" "[] = map (call_packet cd n) ib"
        "to_ask b i = map (call_request n) ask" "requests_made b i + length ask = length (cs i)"
        "owes cd n (txs 0) (ds ! i) (txs i) (calls (shared (net b))) Idle pend"
      have made: "requests_made b i = length (written (net b) (txs i))"
        using * answers_to_length [of rs served "ds ! i"] bounds(1) read by (simp add: q)
      have "ask = []"
      proof (rule ccontr)
        assume "ask \<noteq> []"
        then obtain x ask' where x: "ask = x # ask'" by (cases ask) auto
        have "x \<in> set (cs i)" by (simp add: *(2) x)
        from call_packet_decodes(1) [OF w made_by [where cs = cs, OF i this]] *(4) x made m i
        have "bus_step cd it ds objs (Ask i) b \<noteq> None" by simp
        with stuck show False unfolding bus_stuck_def by metis
      qed
      with * show ?thesis by (simp add: q)
    qed
  qed
  have "\<forall>x \<in> set served. calls (shared (net b)) (fst x) = None"
    using inv_table [OF inv] d0 q by (simp add: table_side_def)
  with rs clients show ?thesis by blast
qed

text \<open>
  C2: Broker, worker and clients together answer every call that fits, as one object would that serves the calls
  one after the other. Several clients, each waiting for the reply before its next call, use an
  object of a connected worker; broker tasks, writers, worker and clients run in any order. No
  schedule is infinite; there is one that comes to an end; and whichever does has served all calls in
  some order that keeps the order of each client, each client has received exactly the results of its
  own calls, in its order, with the values and the final state of the object that this serial order
  gives, and no call is left open. This is for calls and results whose packets fit the limit of
  \<open>write_packet\<close> (a hypothesis of \<open>wired\<close>, for every state of the object): a longer request is
  refused by its own client, and a longer result ends the worker's loop or a writer of the broker, so
  that its caller gets no answer.
\<close>

theorem concurrent_calls_are_serial:
  assumes "wired cd n obj ds s0 txs cs" and "objs n = Some obj"
  shows "let b0 = bus_start txs s0 (length ds) st0 (\<lambda>i. map (call_request n) (cs i))
     in \<not> bus_for_ever cd it ds objs b0 \<and>
        (\<exists>mvs b. bus_run cd it ds objs mvs b0 = Some b \<and> bus_stuck cd it ds objs b) \<and>
        (\<forall>mvs b. bus_run cd it ds objs mvs b0 = Some b \<and> bus_stuck cd it ds objs b \<longrightarrow>
           (\<exists>order rs. mset order = mset (calls_made ds cs) \<and> (rs, worker_state b) = object_answers n obj order st0 \<and>
              (\<forall>i. 0 < i \<and> i < length ds \<longrightarrow> filter (\<lambda>x. caller_of x = ds ! i) order = cs i \<and>
                 written (net b) (txs i) = map (Outgoing \<circ> answer_packet cd) (answers_to (ds ! i) order rs)) \<and>
              (\<forall>x \<in> set order. calls (shared (net b)) (fst x) = None)))"
proof -
  let ?b0 = "bus_start txs s0 (length ds) st0 (\<lambda>i. map (call_request n) (cs i))"
  note ok = ok_start [OF assms(1), of st0]
  have "\<exists>order rs. mset order = mset (calls_made ds cs) \<and> (rs, worker_state b) = object_answers n obj order st0 \<and>
              (\<forall>i. 0 < i \<and> i < length ds \<longrightarrow> filter (\<lambda>x. caller_of x = ds ! i) order = cs i \<and>
                 written (net b) (txs i) = map (Outgoing \<circ> answer_packet cd) (answers_to (ds ! i) order rs)) \<and>
              (\<forall>x \<in> set order. calls (shared (net b)) (fst x) = None)"
    if run: "bus_run cd it ds objs mvs ?b0 = Some b" "bus_stuck cd it ds objs b" for mvs b
  proof -
    from ok_run [where objs = objs, OF ok assms(2) run(1)] obtain du served q rs where
      inv: "bus_inv cd n obj ds s0 txs cs st0 b du served q rs" by (auto simp: bus_ok_def)
    note end_state = stuck_served [where objs = objs, OF assms inv run(2)]
    have "set (calls_made ds cs) \<subseteq> set served"
    proof
      fix x assume "x \<in> set (calls_made ds cs)"
      then obtain i where "0 < i" "i < length ds" "x \<in> set (cs i)" by (rule made_by_someone [OF assms(1)])
      with end_state have "x \<in> set (filter (\<lambda>x. caller_of x = ds ! i) served)" by simp
      then show "x \<in> set served" by simp
    qed
    with inv_made [OF inv] have "mset served = mset (calls_made ds cs)"
      using inv_ids [OF inv] wired_ids [OF assms(1)] by (intro set_eq_iff_mset_eq_distinct [THEN iffD1]) (auto simp: distinct_map)
    with end_state show ?thesis by blast
  qed
  then show ?thesis
    unfolding Let_def using runs_finite [where objs = objs, OF ok assms(2)] complete_run [where objs = objs, OF ok assms(2)] by blast
qed

theorem concurrent_calls_are_serial_witness:
  "\<exists>mvs b. bus_run demo_codec demo_order [worker, caller] demo_objects mvs
       (bus_start Suc demo_state 2 (0 :: nat) (\<lambda>i. if i = 1 then [Call call_1 ''math'' ''add'' JNull] else [])) = Some b \<and>
     written (net b) 2 = [Outgoing [10]] \<and> worker_state b = 1 \<and> calls (shared (net b)) call_1 = None"
proof -
  let ?x = "(call_1, ''add'', JNull, caller)"
  let ?cs = "\<lambda>i. if i = (1 :: nat) then [?x] else []"
  let ?obj = "\<lambda>st m a. (JNull, st + 1) :: json \<times> nat"
  let ?b0 = "bus_start Suc demo_state (length [worker, caller]) (0 :: nat) (\<lambda>i. map (call_request ''math'') (?cs i))"
  have made: "calls_made [worker, caller] ?cs = [?x]" by (simp add: calls_made_def upt_rec)
  have wired: "wired demo_codec ''math'' ?obj [worker, caller] demo_state Suc ?cs"
    unfolding wired_def made
    by (auto simp: demo_state_def less_Suc_eq codec_req_def codec_resp_def call_request_def demo_codec_def
      call_packet_def answer_packet_def packet_fits_def BUF_SIZE_eq)
  have obj: "demo_objects ''math'' = Some ?obj" by (simp add: demo_objects_def)
  note main = concurrent_calls_are_serial [where it = demo_order and objs = demo_objects and ?st0.0 = 0, OF wired obj, unfolded Let_def]
  then obtain mvs b where run: "bus_run demo_codec demo_order [worker, caller] demo_objects mvs ?b0 = Some b"
      "bus_stuck demo_codec demo_order [worker, caller] demo_objects b" by blast
  with main obtain order rs where order: "mset order = mset [?x]" and rs: "(rs, worker_state b) = object_answers ''math'' ?obj order 0"
    and client: "\<forall>i. 0 < i \<and> i < length [worker, caller] \<longrightarrow> filter (\<lambda>x. caller_of x = [worker, caller] ! i) order = ?cs i \<and>
        written (net b) (Suc i) = map (Outgoing \<circ> answer_packet demo_codec) (answers_to ([worker, caller] ! i) order rs)"
    and closed: "\<forall>x \<in> set order. calls (shared (net b)) (fst x) = None"
    unfolding made by blast
  from order have order': "order = [?x]" by simp
  from rs have rs': "rs = [Result call_1 ''math'' JNull]" "worker_state b = 1" by (simp_all add: order')
  from client [rule_format, of 1] have "written (net b) 2 = [Outgoing [10]]"
    by (simp add: order' rs' answers_to_def answer_packet_def numeral_2_eq_2)
  moreover have "(\<lambda>i. map (call_request ''math'') (?cs i)) = (\<lambda>i. if i = 1 then [Call call_1 ''math'' ''add'' JNull] else [])"
    by (auto simp: call_request_def)
  ultimately show ?thesis
    using run rs' closed by (intro exI [of _ mvs] exI [of _ b]) (simp add: order' numeral_2_eq_2)
qed

end
