(* ===== verification/Races.thy ===== *)
theory Races
  imports Interleaving
begin

text \<open>
  Registrations that meet other handlers. \<open>handle_register_object\<close> enters the owner of an object and
  updates the service entry under two different mutexes, and \<open>handle_call\<close> looks at the two maps one
  after the other as well: what each of them sees need not belong together.
\<close>

section \<open>Tasks that run for a while\<close>

lemma sent_each_bound: "length (sent_to x (concat (map (\<lambda>r. to_client s w (f r)) rs))) \<le> length rs"
proof (induction rs)
  case (Cons r rs)
  have "length (sent_to x (to_client s w (f r))) \<le> 1"
    by (simp add: to_client_def split: option.split)
  with Cons show ?case by simp
qed simp


text \<open>Some schedule in which no writer ends leads from one pool to the other.\<close>

definition leads_to :: "pool \<Rightarrow> pool \<Rightarrow> bool" where
  "leads_to p q \<longleftrightarrow> (\<exists>mvs. list_all ordinary mvs \<and> pool_run mvs p = Some q)"

lemma leads_to_runs: "runs_to i p q \<Longrightarrow> leads_to p q"
  unfolding runs_to_def leads_to_def list_all_iff by (metis empty_iff insert_iff ordinary_simps(1) subsetD)

lemma leads_to_trans [trans]: "leads_to p q \<Longrightarrow> leads_to q r \<Longrightarrow> leads_to p r"
  unfolding leads_to_def by (metis list_all_append pool_run_trans)

lemma runs_then [trans]: "leads_to p q \<Longrightarrow> runs_to i q r \<Longrightarrow> leads_to p r"
  by (blast intro: leads_to_trans leads_to_runs)

lemma spawned_to_client [simp]: "spawned (to_client s c m) = []"
  by (simp add: to_client_def split: option.split)

lemma spawned_each [simp]: "spawned (concat (map (\<lambda>r. to_client s w (f r)) rs)) = []"
  by (induction rs) simp_all

lemma runs_to_moves: "pool_run (replicate k (Run i)) p = Some q \<Longrightarrow> runs_to i p q"
  unfolding runs_to_def by (intro exI [of _ "replicate k (Run i)"]) auto

section \<open>The two halves of a registration\<close>

text \<open>What \<open>handle_register_object\<close> does once it has entered the owner of the object.\<close>

definition finish_registration :: "codec \<Rightarrow> string \<Rightarrow> ClientId \<Rightarrow> task" where
  "finish_registration cd n w =
     with_lock ServicesM (\<lambda>s.
       case services s n of
         Some svc \<Rightarrow>
           (s\<lparr>services := (services s)(n \<mapsto> svc\<lparr>state := Running w, owner := Some w, pending_calls := []\<rparr>)\<rparr>,
            seq (for_each (\<lambda>req. send_to_client w (req_to_vec cd req)) (pending_calls svc))
              (send_to_client w (resp_to_vec cd (Registered n))))
       | None \<Rightarrow> (s, send_to_client w (resp_to_vec cd (Registered n))))"

lemma register_object_halves:
  "handle_register_object cd n w =
     seq (with_lock Objects (\<lambda>s. (s\<lparr>objects := (objects s)(n \<mapsto> w)\<rparr>, Done))) (finish_registration cd n w)"
  by (simp add: handle_register_object_def finish_registration_def Let_def cong: option.case_cong)

lemma balanced_finish_registration: "balanced [] (finish_registration cd n w) []"
  by (auto simp: finish_registration_def split: option.split
      intro!: balanced_seq [of "[]"] balanced_for_each balanced_send_to_client)

definition waiting_calls :: "ServerState \<Rightarrow> string \<Rightarrow> RpcRequest list" where
  "waiting_calls s n = (case services s n of None \<Rightarrow> [] | Some svc \<Rightarrow> pending_calls svc)"

lemma run_finish_registration:
  "run_task (finish_registration cd n w) s =
     (s\<lparr>services := (case services s n of
            None \<Rightarrow> services s
          | Some svc \<Rightarrow> (services s)(n \<mapsto> svc\<lparr>state := Running w, owner := Some w, pending_calls := []\<rparr>))\<rparr>,
      concat (map (\<lambda>req. to_client s w (req_to_vec cd req)) (waiting_calls s n))
      @ to_client s w (resp_to_vec cd (Registered n)))"
  by (simp add: finish_registration_def waiting_calls_def task_run Let_def to_client_def split: option.split)

lemma sent_finish_bound:
  "length (sent_to x (snd (run_task (finish_registration cd n w) s))) \<le> Suc (length (waiting_calls s n))"
proof -
  have "length (sent_to x (to_client s w (resp_to_vec cd (Registered n)))) \<le> 1"
    by (simp add: to_client_def split: option.split)
  then show ?thesis
    using sent_each_bound [of x s w "req_to_vec cd" "waiting_calls s n"]
    by (simp add: run_finish_registration)
qed

text \<open>Nobody else moves and no mutex is taken: the task of a registration runs to its end.\<close>

lemma finish_alone:
  assumes "holder p = Map.empty" and "i < length (jobs p)" and "jobs p ! i = finish_registration cd n w"
    and "\<forall>x. length (queue (chans p x)) + length (waiting_calls (shared p) n) < places (chans p x)"
  shows "runs_to i p (after i (finish_registration cd n w) Done p)"
proof (rule run_alone [OF balanced_finish_registration])
  show "fits (snd (run_task (finish_registration cd n w) (shared p))) (chans p)"
    unfolding fits_def
  proof
    fix x
    show "length (queue (chans p x)) + length (sent_to x (snd (run_task (finish_registration cd n w) (shared p))))
        \<le> places (chans p x)"
      using assms(4) sent_finish_bound [of x cd n w "shared p"] by (auto dest!: spec [of _ x])
  qed
qed (use assms in \<open>simp_all add: alone_def\<close>)

lemma enter_owner:
  assumes "holder p = Map.empty" and "i < length (jobs p)" and "jobs p ! i = handle_register_object cd n w"
  shows "runs_to i p (p\<lparr>shared := (shared p)\<lparr>objects := (objects (shared p))(n \<mapsto> w)\<rparr>,
     jobs := (jobs p)[i := finish_registration cd n w]\<rparr>)"
  by (rule runs_to_moves [of 3])
    (use assms in \<open>simp add: numeral_eq_Suc job_step_def register_object_halves with_lock_def fun_eq_iff\<close>)

section \<open>A call that meets a registration\<close>

text \<open>The first half of \<open>handle_call\<close>, which has seen no owner of the object.\<close>

lemma call_sees_no_owner:
  assumes "objects (shared p) n = None" and "clients (shared p) c = Some tx"
    and "holder p = Map.empty" and "jobs p = handle_call cd ci n m a c # ts"
  shows "runs_to 0 p (p\<lparr>shared := (shared p)\<lparr>calls := (calls (shared p))(ci \<mapsto> (c, tx))\<rparr>,
     jobs := call_activate cd ci n m a c # ts\<rparr>)"
  by (rule runs_to_moves [of 8])
    (use assms in \<open>simp add: numeral_eq_Suc job_step_def handle_call_def Let_def with_lock_def fun_eq_iff\<close>)

lemma activate_finds_running:
  assumes "services (shared p) n = Some svc" and "state svc = Running w"
    and "holder p = Map.empty" and "jobs p = call_activate cd ci n m a c # ts"
  shows "runs_to 0 p (p\<lparr>jobs := Done # ts\<rparr>)"
  by (rule runs_to_moves [of 3])
    (use assms in \<open>simp add: numeral_eq_Suc job_step_def call_activate_def fun_eq_iff\<close>)

text \<open>
  A call that is handled while the worker of its object registers can be lost, although handled in
  either order the worker would get it. The handler of the call has seen no owner; the registration
  enters the owner, takes the calls that wait and marks the service as running; the handler then finds
  a running service and does nothing. Both tasks finish, the worker has got the calls that waited before
  and its acknowledgement and nothing else, the caller has got nothing, and its call stays open.
\<close>

theorem call_lost_during_registration:
  assumes "objects s n = None" and "services s n = Some svc"
    and "clients s c = Some tx" and "clients s w = Some wtx"
    and "req_to_vec cd (Call ci n m a) = Some b" and "length (pending_calls svc) < client_channel_places"
  shows "\<exists>mvs p. list_all ordinary mvs \<and>
     pool_run mvs (start_pool txs s [handle_call cd ci n m a c, handle_register_object cd n w]) = Some p \<and>
     jobs p = [Done, Done] \<and> commands p = [] \<and> calls (shared p) ci = Some (c, tx) \<and>
     map_option pending_calls (services (shared p) n) = Some [] \<and>
     (\<forall>x. accepted p x = sent_to x (snd (run_task (handle_register_object cd n w) s))) \<and>
     (state svc = Starting \<longrightarrow>
       Sent wtx (Outgoing b) \<in> set (snd (run_task (seq (handle_call cd ci n m a c) (handle_register_object cd n w)) s))) \<and>
     Sent wtx (Outgoing b) \<in> set (snd (run_task (seq (handle_register_object cd n w) (handle_call cd ci n m a c)) s))"
proof -
  let ?p0 = "start_pool txs s [handle_call cd ci n m a c, handle_register_object cd n w]"
  let ?s1 = "s\<lparr>calls := (calls s)(ci \<mapsto> (c, tx))\<rparr>"
  let ?s2 = "?s1\<lparr>objects := (objects s)(n \<mapsto> w)\<rparr>"
  let ?p1 = "?p0\<lparr>shared := ?s1, jobs := [call_activate cd ci n m a c, handle_register_object cd n w]\<rparr>"
  let ?p2 = "?p1\<lparr>shared := ?s2, jobs := [call_activate cd ci n m a c, finish_registration cd n w]\<rparr>"
  let ?p3 = "after 1 (finish_registration cd n w) Done ?p2"
  have "leads_to ?p0 ?p1"
    by (rule leads_to_runs [of 0])
      (use call_sees_no_owner [of ?p0 n c tx cd ci m a] assms(1,3) in \<open>simp add: start_pool_def\<close>)
  also have "runs_to 1 ?p1 ?p2"
    using enter_owner [of ?p1 1 cd n w] by (simp add: start_pool_def)
  also have "runs_to 1 ?p2 ?p3"
    using finish_alone [of ?p2 1 cd n w] assms(2,6) by (simp add: start_pool_def waiting_calls_def new_channel_def)
  also have "runs_to 0 ?p3 (?p3\<lparr>jobs := [Done, Done]\<rparr>)"
    using activate_finds_running [of ?p3 n _ w cd ci m a c "[Done]"] assms(2)
    by (simp add: after_def start_pool_def run_finish_registration)
  finally obtain mvs where mvs: "list_all ordinary mvs" "pool_run mvs ?p0 = Some (?p3\<lparr>jobs := [Done, Done]\<rparr>)"
    by (auto simp: leads_to_def)
  have same: "snd (run_task (finish_registration cd n w) ?s2) = snd (run_task (handle_register_object cd n w) s)"
    by (simp add: run_finish_registration run_register_object waiting_calls_def to_client_def)
  have "accepted (?p3\<lparr>jobs := [Done, Done]\<rparr>) x = sent_to x (snd (run_task (handle_register_object cd n w) s))" for x
    using same by (simp add: after_def accepted_def start_pool_def enqueue_def new_channel_def)
  moreover have "commands ?p3 = []" "calls (shared ?p3) ci = Some (c, tx)"
      "map_option pending_calls (services (shared ?p3) n) = Some []"
    using assms(2) by (simp_all add: after_def start_pool_def run_finish_registration)
  moreover have "Sent wtx (Outgoing b) \<in> set (snd (run_task (seq (handle_register_object cd n w) (handle_call cd ci n m a c)) s))"
    using assms by (simp add: run_seq run_register_object run_handle_call Let_def split_beta)
  moreover have "state svc = Starting \<longrightarrow>
       Sent wtx (Outgoing b) \<in> set (snd (run_task (seq (handle_call cd ci n m a c) (handle_register_object cd n w)) s))"
    using assms by (simp add: run_seq run_register_object run_handle_call run_call_activate Let_def split_beta)
  ultimately show ?thesis
    using mvs by (intro exI [of _ mvs] exI [of _ "?p3\<lparr>jobs := [Done, Done]\<rparr>"]) simp
qed

definition starting_state :: ServerState where
  "starting_state = service_state\<lparr>services := [''math'' \<mapsto> (stopped_entry ''math.service'')\<lparr>state := Starting\<rparr>]\<rparr>"

theorem call_lost_during_registration_witness:
  "\<exists>mvs p. pool_run mvs (start_pool id starting_state
       [handle_call demo_codec call_1 ''math'' ''add'' JNull caller, handle_register_object demo_codec ''math'' worker]) = Some p \<and>
     jobs p = [Done, Done] \<and> calls (shared p) call_1 = Some (caller, 2) \<and> accepted p 1 = [Outgoing [12]] \<and> accepted p 2 = []"
proof -
  have state: "objects starting_state ''math'' = None" "clients starting_state caller = Some 2" "clients starting_state worker = Some 1"
      "services starting_state ''math'' = Some ((stopped_entry ''math.service'')\<lparr>state := Starting\<rparr>)"
      "length (pending_calls ((stopped_entry ''math.service'')\<lparr>state := Starting\<rparr>)) < client_channel_places"
    by (simp_all add: starting_state_def service_state_def stopped_entry_def client_channel_places_def)
  have "snd (run_task (handle_register_object demo_codec ''math'' worker) starting_state) = [Sent 1 (Outgoing [12])]"
    using state by (simp add: run_register_object stopped_entry_def)
  then have "sent_to 1 (snd (run_task (handle_register_object demo_codec ''math'' worker) starting_state)) = [Outgoing [12]]"
      "sent_to 2 (snd (run_task (handle_register_object demo_codec ''math'' worker) starting_state)) = []"
    by simp_all
  with call_lost_during_registration [OF state(1,4,2,3) demo_encodings(1) state(5), of id]
  show ?thesis by metis
qed

section \<open>Two registrations of one object\<close>







end
