(* ===== verification/Pubsub.thy ===== *)
theory Pubsub
  imports Examples
begin

text \<open>
  Publish and subscribe, and the broker as an abstract registry: who is connected, who owns an
  object, who listens to what, which calls are open. Every event of the broker acts on the
  abstraction as its specification says.
\<close>

section \<open>Publishing\<close>

text \<open>What the standard library promises of \<open>HashSet::iter\<close>: every element once, in some order.\<close>

definition iter_ok :: "(ClientId fset \<Rightarrow> ClientId list) \<Rightarrow> bool" where
  "iter_ok it \<longleftrightarrow> (\<forall>S. distinct (it S) \<and> set (it S) = fset S)"

lemma iter_ok_demo: "iter_ok demo_order"
  by (simp add: iter_ok_def demo_order_def sorted_list_of_fset.rep_eq)

lemma set_map_filter: "set (List.map_filter f xs) = {y. \<exists>x \<in> set xs. f x = Some y}"
  by (induction xs) (auto simp: map_filter_simps split: option.splits)

lemma distinct_map_filter:
  assumes "distinct xs" "\<And>x y z. x \<in> set xs \<Longrightarrow> y \<in> set xs \<Longrightarrow> f x = Some z \<Longrightarrow> f y = Some z \<Longrightarrow> x = y"
  shows "distinct (List.map_filter f xs)"
  using assms by (induction xs) (auto simp: map_filter_simps set_map_filter split: option.splits)

lemma length_map_filter_total:
  "\<forall>x \<in> set xs. f x \<noteq> None \<Longrightarrow> length (List.map_filter f xs) = length xs"
  by (induction xs) (auto simp: map_filter_simps)

lemma set_subscriber_list:
  "iter_ok it \<Longrightarrow> set (subscriber_list it s n t) = fset (subscribers (subscriptions s) n t)"
  by (auto simp: subscriber_list_def subscribers_def iter_ok_def split: option.split)

lemma distinct_subscriber_list: "iter_ok it \<Longrightarrow> distinct (subscriber_list it s n t)"
  by (auto simp: subscriber_list_def iter_ok_def split: option.split)

text \<open>C12: Publishing sends the event to every subscriber of that object and topic exactly once, to
  nobody else, and changes no state: in a reachable state every subscriber is connected, so there
  are as many messages as subscribers and each goes to a subscriber's own channel.\<close>

theorem publish_reaches_each_subscriber_once:
  assumes "reachable cd it s" "iter_ok it" "resp_to_vec cd (Event n t a) = Some b"
    and "run_task (handle_publish cd it n t a) s = (s', es)"
  shows "s' = s \<and> distinct es
    \<and> set es = {Sent tx (Outgoing b) | c tx. c |\<in>| subscribers (subscriptions s) n t \<and> clients s c = Some tx}
    \<and> length es = fcard (subscribers (subscriptions s) n t)"
proof -
  have ok: "broker_ok s" using assms(1) by (rule reachable_ok)
  let ?l = "subscriber_list it s n t"
  let ?txs = "List.map_filter (clients s) ?l"
  have es: "s' = s" "es = map (\<lambda>tx. Sent tx (Outgoing b)) ?txs"
    using assms(3,4) by (auto simp: run_publish)
  note l = set_subscriber_list [OF assms(2), of s n t] distinct_subscriber_list [OF assms(2), of s n t]
  have "\<forall>c \<in> set ?l. clients s c \<noteq> None"
    using broker_okD(2) [OF ok] l(1) by auto
  then have "length ?txs = length ?l" by (rule length_map_filter_total)
  also have "\<dots> = fcard (subscribers (subscriptions s) n t)"
    using l by (metis distinct_card fcard.rep_eq)
  finally have len: "length ?txs = fcard (subscribers (subscriptions s) n t)" .
  have "distinct ?txs"
    by (rule distinct_map_filter [OF l(2)]) (rule broker_okD(5) [OF ok])
  with es len l(1) show ?thesis
    by (auto simp: distinct_map inj_on_def set_map_filter)
qed

definition news_state :: ServerState where
  "news_state = demo_state\<lparr>subscriptions := [''news'' \<mapsto> [''t'' \<mapsto> {|caller|}]]\<rparr>"

lemma news_reachable: "reachable demo_codec it news_state"
proof -
  have "run_task (event_task demo_codec it (Packet caller [3])) demo_state =
      (news_state, snd (run_task (handle_subscribe demo_codec ''news'' ''t'' caller) demo_state))"
    by (simp add: dispatch_def run_subscribe demo_state_def news_state_def Let_def)
  moreover have "enabled demo_state (Packet caller [3])" by (simp add: demo_state_def)
  ultimately show ?thesis
    by (blast intro: reachable_step demo_reachable broker_step.event)
qed

theorem publish_reaches_each_subscriber_once_witness:
  "set (snd (run_task (handle_publish demo_codec demo_order ''news'' ''t'' JNull) news_state)) = {Sent 2 (Outgoing [11])}"
  using publish_reaches_each_subscriber_once [OF news_reachable iter_ok_demo demo_encodings(5) prod.collapse [symmetric]]
  by (auto simp: news_state_def demo_state_def subscribers_def)

section \<open>The registry specification\<close>

record registry =
  connected :: "ClientId set"
  owned :: "string \<rightharpoonup> ClientId"
  listeners :: "(string \<times> string \<times> ClientId) set"
  open_calls :: "CallId \<rightharpoonup> ClientId"

fun spec_request :: "ClientId \<Rightarrow> RpcRequest \<Rightarrow> registry \<Rightarrow> registry" where
  "spec_request c (RegisterObject n) r = r\<lparr>owned := (owned r)(n \<mapsto> c)\<rparr>"
| "spec_request c (Call ci n m a) r = r\<lparr>open_calls := (open_calls r)(ci \<mapsto> c)\<rparr>"
| "spec_request c (Subscribe n t) r = r\<lparr>listeners := insert (n, t, c) (listeners r)\<rparr>"
| "spec_request c (RegisterService _ _) r = r"
| "spec_request c (Publish _ _ _) r = r"
| "spec_request c (HasObject _) r = r"

fun spec_event :: "codec \<Rightarrow> event \<Rightarrow> registry \<Rightarrow> registry" where
  "spec_event cd (Connect u tx) r = r\<lparr>connected := insert (ClientId u) (connected r)\<rparr>"
| "spec_event cd (Packet c buf) r =
     (case decode_packet cd buf of
        InRequest req \<Rightarrow> spec_request c req r
      | InResponse resp \<Rightarrow>
          (case response_call_id resp of
             Some ci \<Rightarrow> r\<lparr>open_calls := (open_calls r)(ci := None)\<rparr> | None \<Rightarrow> r)
      | InInvalid \<Rightarrow> r)"
| "spec_event cd (Disconnect c) r =
     \<lparr>connected = connected r - {c},
      owned = map_retain (\<lambda>_ own. own \<noteq> c) (owned r),
      listeners = {(n, t, d) \<in> listeners r. d \<noteq> c},
      open_calls = map_retain (\<lambda>_ d. d \<noteq> c) (open_calls r)\<rparr>"

definition registry_of :: "ServerState \<Rightarrow> registry" where
  "registry_of s =
     \<lparr>connected = dom (clients s), owned = objects s,
      listeners = {(n, t, c). c |\<in>| subscribers (subscriptions s) n t},
      open_calls = map_option fst \<circ> calls s\<rparr>"

lemma registry_eqI:
  "connected r = connected r' \<Longrightarrow> owned r = owned r' \<Longrightarrow> listeners r = listeners r' \<Longrightarrow>
   open_calls r = open_calls r' \<Longrightarrow> r = (r' :: registry)"
  by (cases r; cases r') simp

lemma registry_request:
  assumes "clients s c \<noteq> None"
  shows "registry_of (fst (run_task (handle_request cd it req c) s)) = spec_request c req (registry_of s)"
proof (cases req)
  case (Subscribe n t)
  then show ?thesis
    by (intro registry_eqI)
      (auto simp: registry_of_def run_subscribe subscribers_insert split: if_splits)
next
  case (Call ci n m a)
  with assms show ?thesis
    by (auto simp: registry_of_def run_handle_call run_call_activate Let_def fun_eq_iff
        split: option.split ServiceState.split)
qed (simp_all add: registry_of_def task_run)

text \<open>C8: The broker implements the registry: for every enabled event, the abstraction of the state
  after the event is what the specification of the event makes of the abstraction before it.\<close>

theorem broker_refines_registry:
  assumes "enabled s ev"
  shows "registry_of (fst (run_task (event_task cd it ev) s)) = spec_event cd ev (registry_of s)"
proof (cases ev)
  case (Connect u tx)
  then show ?thesis by (simp add: registry_of_def run_spawn_client)
next
  case (Packet c buf)
  show ?thesis
  proof (cases "decode_packet cd buf")
    case (InRequest req)
    with assms Packet show ?thesis by (simp add: dispatch_def registry_request)
  next
    case (InResponse resp)
    with Packet show ?thesis
      by (intro registry_eqI)
        (auto simp: dispatch_def run_response registry_of_def fun_eq_iff split: option.split)
  qed (use Packet in \<open>simp add: dispatch_def\<close>)
next
  case (Disconnect c)
  then show ?thesis
    by (intro registry_eqI)
      (auto simp: run_cleanup registry_of_def purge_clients_def purge_objects_def subscribers_purge
        purge_calls_def fun_eq_iff map_retain_def split: option.split)
qed

theorem broker_refines_registry_witness:
  "registry_of (fst (run_task (event_task demo_codec demo_order (Disconnect caller)) news_state))
     = \<lparr>connected = {worker}, owned = [''math'' \<mapsto> worker], listeners = {}, open_calls = Map.empty\<rparr>"
proof -
  have "enabled news_state (Disconnect caller)" by (simp add: news_state_def demo_state_def)
  from broker_refines_registry [OF this, of demo_codec demo_order] show ?thesis
    by (auto simp: registry_of_def news_state_def demo_state_def subscribers_def fun_eq_iff map_retain_def
        split: if_splits option.splits)
qed

end
