(* ===== verification/Ordering.thy ===== *)
theory Ordering
  imports Schedules Pubsub
begin

text \<open>
  The order of what concurrent tasks send. A task keeps to a script for one channel if the messages
  of a kind that it sends there are, whatever states it meets on the way, a part of the script in the
  order of the script. Two consequences for the broker: publications stay in order on their way to a
  subscriber, and calls do not, when the first of them had to wait for its service.
\<close>

section \<open>Scripts of tasks\<close>

primrec in_order ::
    "(ServerState \<Rightarrow> bool) \<Rightarrow> (ClientMsg \<Rightarrow> bool) \<Rightarrow> ClientSender \<Rightarrow> task \<Rightarrow> ClientMsg list \<Rightarrow> bool" where
  "in_order P sel tx Done L \<longleftrightarrow> True"
| "in_order P sel tx (Lock m t) L \<longleftrightarrow> in_order P sel tx t L"
| "in_order P sel tx (Unlock m t) L \<longleftrightarrow> in_order P sel tx t L"
| "in_order P sel tx (Sync f) L \<longleftrightarrow>
     (\<forall>s. P s \<longrightarrow> (\<lambda>(s', b). P s' \<and> b L) (map_prod id (in_order P sel tx) (f s)))"
| "in_order P sel tx (Send tx' m t) L \<longleftrightarrow>
     (if tx' = tx \<and> sel m then \<exists>skipped L'. L = skipped @ m # L' \<and> in_order P sel tx t L' else in_order P sel tx t L)"
| "in_order P sel tx (Spawn c t) L \<longleftrightarrow> in_order P sel tx t L"

lemma in_order_Sync [simp]:
  "in_order P sel tx (Sync f) L \<longleftrightarrow> (\<forall>s. P s \<longrightarrow> P (fst (f s)) \<and> in_order P sel tx (snd (f s)) L)"
  by (simp add: split_beta)

declare in_order.simps(4) [simp del]

lemma in_order_skip: "in_order P sel tx t L \<Longrightarrow> in_order P sel tx t (K @ L)"
proof (induction t arbitrary: L rule: task_induct)
  case (Send tx' m t)
  then show ?case by (auto split: if_splits) (metis append.assoc)
qed auto

lemma in_order_seq:
  "in_order P sel tx t L \<Longrightarrow> in_order P sel tx k K \<Longrightarrow> in_order P sel tx (seq t k) (L @ K)"
proof (induction t arbitrary: L rule: task_induct)
  case Done
  then show ?case by (simp add: in_order_skip)
next
  case (Send tx' m t)
  then show ?case by (auto split: if_splits) (metis append.assoc append_Cons)
qed auto

lemma in_order_seq_Nil: "in_order P sel tx t [] \<Longrightarrow> in_order P sel tx k K \<Longrightarrow> in_order P sel tx (seq t k) K"
  by (drule (1) in_order_seq) simp

lemma in_order_with_lock [simp]:
  "in_order P sel tx (with_lock m f) L \<longleftrightarrow> (\<forall>s. P s \<longrightarrow> P (fst (f s)) \<and> in_order P sel tx (snd (f s)) L)"
  by (simp add: with_lock_def split_beta)

lemma in_order_for_each:
  "(\<And>x. x \<in> set xs \<Longrightarrow> in_order P sel tx (body x) (script x)) \<Longrightarrow>
   in_order P sel tx (for_each body xs) (concat (map script xs))"
  by (induction xs) (auto intro: in_order_seq)

lemma in_order_for_each_Nil:
  "(\<And>x. x \<in> set xs \<Longrightarrow> in_order P sel tx (body x) []) \<Longrightarrow> in_order P sel tx (for_each body xs) []"
  using in_order_for_each [of xs P sel tx body "\<lambda>_. []"] by (simp add: concat_eq_Nil_conv [THEN iffD2])

text \<open>One message to many channels, at most one of them the channel in question.\<close>

lemma in_order_broadcast:
  "count_list txs tx \<le> 1 \<Longrightarrow> in_order P sel tx (for_each (\<lambda>x. Send x m Done) txs) [m]"
proof (induction txs)
  case (Cons x txs)
  have "in_order P sel tx (for_each (\<lambda>x. Send x m Done) ys) []" if "tx \<notin> set ys" for ys
    using that by (intro in_order_for_each_Nil) auto
  with Cons show ?case by (auto simp: count_list_0_iff Suc_le_eq split: if_splits intro: exI [of _ "[]"])
qed simp

section \<open>Scripts of pools\<close>

text \<open>Task \<open>k\<close> has said the beginning \<open>D\<close> of its script, nobody else says anything of this kind.\<close>

definition ordered ::
    "(ServerState \<Rightarrow> bool) \<Rightarrow> (ClientMsg \<Rightarrow> bool) \<Rightarrow> ClientSender \<Rightarrow> nat \<Rightarrow> ClientMsg list \<Rightarrow> pool \<Rightarrow> bool" where
  "ordered P sel tx k L p \<longleftrightarrow>
     P (shared p) \<and> (\<forall>i < length (jobs p). i \<noteq> k \<longrightarrow> in_order P sel tx (jobs p ! i) []) \<and>
     (\<exists>D R. L = D @ R \<and> in_order P sel tx (jobs p ! k) R \<and> subseq (filter sel (accepted p tx)) D)"

lemma orderedI:
  assumes "P (shared p)" and "\<And>i. i < length (jobs p) \<Longrightarrow> i \<noteq> k \<Longrightarrow> in_order P sel tx (jobs p ! i) []"
    and "L = D @ R" and "in_order P sel tx (jobs p ! k) R" and "subseq (filter sel (accepted p tx)) D"
  shows "ordered P sel tx k L p"
  using assms unfolding ordered_def by blast

lemma orderedE:
  assumes "ordered P sel tx k L p"
  obtains D R where "L = D @ R" "in_order P sel tx (jobs p ! k) R" "subseq (filter sel (accepted p tx)) D"
    "P (shared p)" "\<And>i. i < length (jobs p) \<Longrightarrow> i \<noteq> k \<Longrightarrow> in_order P sel tx (jobs p ! i) []"
  using assms unfolding ordered_def by blast

lemma orderedI_update:
  assumes "ordered P sel tx k L p" and "i < length (jobs p)" and "P (shared p')" and jobs: "jobs p' = (jobs p)[i := t]"
    and "filter sel (accepted p' tx) = filter sel (accepted p tx)"
    and "\<And>R. in_order P sel tx (jobs p ! i) R \<Longrightarrow> in_order P sel tx t R"
  shows "ordered P sel tx k L p'"
proof -
  from assms(1) obtain D R where DR: "L = D @ R" "in_order P sel tx (jobs p ! k) R" "subseq (filter sel (accepted p tx)) D"
    and others: "\<And>i. i < length (jobs p) \<Longrightarrow> i \<noteq> k \<Longrightarrow> in_order P sel tx (jobs p ! i) []"
    unfolding ordered_def by blast
  show ?thesis
  proof (rule orderedI [of P p' k sel tx L D R])
    show "in_order P sel tx (jobs p' ! k) R"
      using DR(2) assms(2,6) by (cases "i = k") (simp_all add: jobs)
    show "in_order P sel tx (jobs p' ! j) []" if "j < length (jobs p')" "j \<noteq> k" for j
      using others [of j] that assms(2,6) by (cases "j = i") (simp_all add: jobs)
  qed (use DR(1,3) assms(3,5) in simp_all)
qed

lemma accepted_unchanged [simp]:
  "accepted (p\<lparr>holder := h, jobs := ts\<rparr>) tx = accepted p tx" "accepted (p\<lparr>shared := s, jobs := ts\<rparr>) tx = accepted p tx"
  "accepted (p\<lparr>commands := cs, jobs := ts\<rparr>) tx = accepted p tx" "accepted (p\<lparr>writing := w\<rparr>) tx = accepted p tx"
  by (simp_all add: accepted_def)

lemma ordered_job_step:
  assumes o: "ordered P sel tx k L p" and i: "i < length (jobs p)" and step: "job_step i p = Some p'"
  shows "ordered P sel tx k L p'"
proof -
  from o have P: "P (shared p)" by (simp add: ordered_def)
  from step show ?thesis
  proof (cases rule: job_stepE)
    case (Lock m t)
    with P show ?thesis by (intro orderedI_update [OF o i, of p' t]) simp_all
  next
    case (Unlock m t)
    with P show ?thesis by (intro orderedI_update [OF o i, of p' t]) simp_all
  next
    case (Spawn c t)
    with P show ?thesis by (intro orderedI_update [OF o i, of p' t]) simp_all
  next
    case (Sync f)
    have "\<exists>R. in_order P sel tx (jobs p ! i) R"
      using o i by (cases "i = k") (auto elim: orderedE)
    with Sync P have "P (fst (f (shared p)))" by auto
    with Sync P show ?thesis by (intro orderedI_update [OF o i, of p' "snd (f (shared p))"]) simp_all
  next
    case (Send tx' m t)
    have acc: "accepted p' tx = accepted p tx @ (if tx' = tx \<and> fst (try_send m (chans p tx)) = SendOk then [m] else [])"
      by (simp add: Send accepted_def try_send_def)
    show ?thesis
    proof (cases "tx' = tx \<and> sel m")
      case False
      then have "filter sel (accepted p' tx) = filter sel (accepted p tx)" by (auto simp: acc)
      with P Send False show ?thesis by (intro orderedI_update [OF o i, of p' t]) auto
    next
      case True
      have k: "i = k"
      proof (rule ccontr)
        assume "i \<noteq> k"
        with o i have "in_order P sel tx (jobs p ! i) []" by (auto elim: orderedE)
        with Send True show False by simp
      qed
      from o obtain D R where L: "L = D @ R" and R: "in_order P sel tx (jobs p ! k) R"
        and D: "subseq (filter sel (accepted p tx)) D"
        and others: "\<And>j. j < length (jobs p) \<Longrightarrow> j \<noteq> k \<Longrightarrow> in_order P sel tx (jobs p ! j) []" by (auto elim: orderedE)
      from R Send k True obtain K R' where R': "R = K @ m # R'" "in_order P sel tx t R'" by auto
      have "subseq (filter sel (accepted p' tx)) (D @ K @ [m])"
        using D True by (auto simp: acc intro: list_emb_append_mono subseq_append' list_emb_append2)
      with i P Send k L R' others show ?thesis
        by (intro orderedI [of P p' k sel tx L "D @ K @ [m]" R']) auto
    qed
  qed
qed

lemma ordered_fewer:
  assumes "ordered P sel tx k L p" and "shared p' = shared p" and "jobs p' = jobs p"
    and "subseq (accepted p' tx) (accepted p tx)"
  shows "ordered P sel tx k L p'"
  using assms(1)
proof (rule orderedE)
  fix D R assume "subseq (filter sel (accepted p tx)) D"
  with subseq_filter [OF assms(4), of sel] have "subseq (filter sel (accepted p' tx)) D"
    by (rule subseq_order.trans)
  then show "P (shared p) \<Longrightarrow> L = D @ R \<Longrightarrow> in_order P sel tx (jobs p ! k) R \<Longrightarrow>
      (\<And>i. i < length (jobs p) \<Longrightarrow> i \<noteq> k \<Longrightarrow> in_order P sel tx (jobs p ! i) []) \<Longrightarrow> ?thesis"
    using assms(2,3) by (intro orderedI [of P p' k sel tx L D R]) auto
qed

lemma ordered_move:
  assumes "ordered P sel tx k L p" and "pool_move mv p = Some p'"
  shows "ordered P sel tx k L p'"
proof (cases mv)
  case (Run i)
  with assms show ?thesis by (auto intro: ordered_job_step split: if_splits)
next
  case (Deliver tx')
  with assms obtain m c where "recv (chans p tx') = Some (m, c)" and
    p': "p' = p\<lparr>chans := (chans p)(tx' := c), written := (written p)(tx' := written p tx' @ [m])\<rparr>"
    by (auto split: if_splits option.splits)
  then have "queue (chans p tx') = m # queue c" by (intro mpsc.pop_some [THEN conjunct1])
  then show ?thesis by (intro ordered_fewer [OF assms(1)]) (simp_all add: p' accepted_def)
next
  case (WriterEnds tx')
  with assms(2) have p': "p' = p\<lparr>writing := (writing p)(tx' := False)\<rparr>" by simp
  show ?thesis by (rule ordered_fewer [OF assms(1)]) (simp_all add: p')
next
  case (CloseConn i)
  with assms(2) have p': "p' = p\<lparr>chans := (chans p)(conn p i := close_rx (chans p (conn p i)))\<rparr>"
    by (auto split: if_splits)
  show ?thesis by (rule ordered_fewer [OF assms(1)]) (auto simp: p' accepted_def close_rx_def)
qed

interpretation ordering: invariant_system "ordered P sel tx k L" pool_step "ordered P sel tx k L" for P sel tx k L
  by unfold_locales (auto simp: pool_step_def intro: ordered_move)

lemma ordered_run: "ordered P sel tx k L p \<Longrightarrow> pool_run mvs p = Some p' \<Longrightarrow> ordered P sel tx k L p'"
  using ordering.good_reachable pool_run_steps by blast

lemma scripted_order:
  assumes "P s" and "k < length ts" and "in_order P sel tx (ts ! k) L"
    and "\<And>i. i < length ts \<Longrightarrow> i \<noteq> k \<Longrightarrow> in_order P sel tx (ts ! i) []"
    and "pool_run mvs (start_pool txs s ts) = Some p"
  shows "subseq (filter sel (accepted p tx)) L"
proof -
  have "ordered P sel tx k L (start_pool txs s ts)"
    using assms(1-4) by (auto simp: ordered_def start_pool_def accepted_def new_channel_def intro: exI [of _ "[]"])
  from ordered_run [OF this assms(5)] show ?thesis
    by (auto simp: ordered_def intro: list_emb_append2 subseq_rev_drop_many)
qed

section \<open>Publications stay in order\<close>

text \<open>A codec with two publications of one topic, for the example.\<close>

definition news_codec :: codec where
  "news_codec =
     \<lparr>req_to_vec = (\<lambda>r. Some [0]),
      resp_to_vec = (\<lambda>r.
        if r = Event ''news'' ''t'' JNull then Some [11]
        else if r = Event ''news'' ''t'' (JBool True) then Some [13] else None),
      req_from_slice = (\<lambda>b.
        if b = [4] then Some (Publish ''news'' ''t'' JNull)
        else if b = [5] then Some (Publish ''news'' ''t'' (JBool True)) else None),
      resp_from_slice = (\<lambda>b.
        if b = [11] then Some (Event ''news'' ''t'' JNull)
        else if b = [13] then Some (Event ''news'' ''t'' (JBool True)) else None)\<rparr>"

lemma news_packets [simp]:
  "decode_packet news_codec [4] = InRequest (Publish ''news'' ''t'' JNull)"
  "decode_packet news_codec [5] = InRequest (Publish ''news'' ''t'' (JBool True))"
  "resp_to_vec news_codec (Event ''news'' ''t'' JNull) = Some [11]"
  "resp_to_vec news_codec (Event ''news'' ''t'' (JBool True)) = Some [13]"
  by (simp_all add: decode_packet_def news_codec_def)

fun event_topic :: "RpcResponse \<Rightarrow> (string \<times> string) option" where
  "event_topic (Event n t _) = Some (n, t)"
| "event_topic _ = None"

text \<open>
  What is needed of the codec: a request is never read as a response, and a response that is read back
  is an event of a topic exactly if it was written as one.
\<close>

definition topics_kept :: "codec \<Rightarrow> bool" where
  "topics_kept cd \<longleftrightarrow>
     (\<forall>r b resp. req_to_vec cd r = Some b \<longrightarrow> decode_packet cd b \<noteq> InResponse resp) \<and>
     (\<forall>r b resp. resp_to_vec cd r = Some b \<longrightarrow> decode_packet cd b = InResponse resp \<longrightarrow> event_topic resp = event_topic r)"

definition is_event :: "codec \<Rightarrow> string \<Rightarrow> string \<Rightarrow> ClientMsg \<Rightarrow> bool" where
  "is_event cd n t msg =
     (case msg of
        Outgoing b \<Rightarrow> (case decode_packet cd b of InResponse r \<Rightarrow> event_topic r = Some (n, t) | _ \<Rightarrow> False)
      | ShutdownMsg \<Rightarrow> False)"

text \<open>The events that the packets of a connection publish.\<close>

definition published :: "codec \<Rightarrow> string \<Rightarrow> string \<Rightarrow> bytes list \<Rightarrow> ClientMsg list" where
  "published cd n t bufs =
     concat (map (\<lambda>buf. case decode_packet cd buf of
         InRequest (Publish n' t' a) \<Rightarrow>
           (if n' = n \<and> t' = t then (case resp_to_vec cd (Event n t a) of Some b \<Rightarrow> [Outgoing b] | None \<Rightarrow> []) else [])
       | _ \<Rightarrow> []) bufs)"

definition sole_owner :: "ClientId \<Rightarrow> ClientSender \<Rightarrow> ServerState \<Rightarrow> bool" where
  "sole_owner c tx s \<longleftrightarrow> (\<forall>d. clients s d = Some tx \<longrightarrow> d = c)"

lemma sole_owner_update [simp]:
  "sole_owner c tx (s\<lparr>objects := x1\<rparr>) = sole_owner c tx s" "sole_owner c tx (s\<lparr>subscriptions := x2\<rparr>) = sole_owner c tx s"
  "sole_owner c tx (s\<lparr>calls := x3\<rparr>) = sole_owner c tx s" "sole_owner c tx (s\<lparr>services := x4\<rparr>) = sole_owner c tx s"
  "sole_owner c tx s \<Longrightarrow> sole_owner c tx (s\<lparr>clients := purge_clients d (clients s)\<rparr>)"
  by (auto simp: sole_owner_def purge_clients_def)

lemma not_event:
  assumes "topics_kept cd"
  shows "req_to_vec cd r = Some b \<Longrightarrow> \<not> is_event cd n t (Outgoing b)"
    and "resp_to_vec cd resp = Some b \<Longrightarrow> event_topic resp \<noteq> Some (n, t) \<Longrightarrow> \<not> is_event cd n t (Outgoing b)"
  using assms by (auto simp: topics_kept_def is_event_def split: incoming.split)

lemma response_no_event: "response_call_id resp = Some ci \<Longrightarrow> event_topic resp = None"
  by (cases resp) simp_all

abbreviation events_in_order where
  "events_in_order cd n t c tx \<equiv> in_order (sole_owner c tx) (is_event cd n t) tx"

lemma order_send_to_client:
  "(\<And>b. ser = Some b \<Longrightarrow> \<not> is_event cd n t (Outgoing b)) \<Longrightarrow> events_in_order cd n t c tx (send_to_client d ser) []"
  by (auto simp: send_to_client_def split: option.split)

lemma one_subscription:
  assumes "distinct ds" and "sole_owner c tx s"
  shows "count_list (List.map_filter (clients s) ds) tx \<le> 1"
  using assms(1)
proof (induction ds)
  case (Cons d ds)
  have "tx \<notin> set (List.map_filter (clients s) ds)" if "clients s d = Some tx"
  proof
    assume "tx \<in> set (List.map_filter (clients s) ds)"
    then obtain e where "e \<in> set ds" "clients s e = Some tx" by (auto simp: List.map_filter_def)
    with that assms(2) Cons.prems show False by (auto simp: sole_owner_def)
  qed
  with Cons show ?case by (auto simp: map_filter_simps count_list_0_iff split: option.split)
qed (simp add: map_filter_simps)

lemma order_publish:
  assumes cd: "topics_kept cd" and it: "\<forall>S. distinct (it S)" and buf: "decode_packet cd buf = InRequest (Publish n' t' a)"
  shows "events_in_order cd n t c tx (handle_publish cd it n' t' a) (published cd n t [buf])"
proof (cases "resp_to_vec cd (Event n' t' a)")
  case (Some b)
  have ds: "distinct (case Option.bind (subscriptions s n') (\<lambda>m. m t') of None \<Rightarrow> [] | Some S \<Rightarrow> it S)" for s :: ServerState
    using it by (simp split: option.split)
  show ?thesis
  proof (cases "n' = n \<and> t' = t")
    case True
    with Some ds one_subscription show ?thesis
      by (auto simp: handle_publish_def Let_def published_def buf intro!: in_order_broadcast)
  next
    case False
    with not_event(2) [OF cd Some, of n t] show ?thesis
      by (auto simp: handle_publish_def Let_def published_def buf Some intro!: in_order_for_each_Nil)
  qed
qed (auto simp: handle_publish_def Let_def)

lemma order_dispatch:
  assumes cd: "topics_kept cd" and it: "\<forall>S. distinct (it S)"
  shows "events_in_order cd n t c tx (dispatch cd it d buf) (published cd n t [buf])"
proof (cases "decode_packet cd buf")
  case (InRequest req)
  note free = not_event(1) [OF cd] not_event(2) [OF cd, where n = n and t = t]
  show ?thesis
  proof (cases req)
    case (Publish n' t' a)
    with InRequest order_publish [OF cd it] show ?thesis by (simp add: dispatch_def)
  qed (use InRequest free in \<open>auto simp: dispatch_def published_def handle_register_object_def handle_register_service_def
      handle_subscribe_def handle_has_object_def handle_call_def call_activate_def no_such_object_def Let_def
      split: option.split ServiceState.split intro!: in_order_seq_Nil in_order_for_each_Nil order_send_to_client\<close>)
next
  case (InResponse resp)
  with not_event(2) [OF cd, of resp _ n t] response_no_event [of resp] show ?thesis
    by (auto simp: dispatch_def handle_response_def forward_response_def published_def split: option.split)
qed (simp add: dispatch_def)

lemma order_cleanup: "events_in_order cd n t c tx (cleanup_client d) []"
  by (auto simp: cleanup_client_def Let_def intro!: in_order_seq_Nil)

lemma published_concat: "concat (map (\<lambda>b. published cd n t [b]) bufs) = published cd n t bufs"
  by (simp add: published_def)

lemma order_client_run:
  assumes "topics_kept cd" and "\<forall>S. distinct (it S)"
  shows "events_in_order cd n t c tx (client_run cd it d r) (published cd n t (fst (read_all r)))"
proof -
  have "events_in_order cd n t c tx (for_each (dispatch cd it d) (fst (read_all r)))
      (concat (map (\<lambda>b. published cd n t [b]) (fst (read_all r))))"
    by (rule in_order_for_each) (rule order_dispatch [OF assms])
  from in_order_seq [OF this order_cleanup [where d = d]] show ?thesis
    by (simp add: client_run_def reader_loop_eq published_concat)
qed

text \<open>
  C16: under every schedule a subscriber gets the events of a topic that one connection publishes in the
  order in which it published them, none of them twice, although the handlers of all connections run
  concurrently and the maps change between any two of their steps.
\<close>

theorem publications_stay_in_order:
  assumes "topics_kept cd" and "\<forall>S. distinct (it S)" and "\<forall>d. clients s d = Some tx \<longrightarrow> d = c"
    and "list_all (\<lambda>(d, r'). published cd n t (fst (read_all r')) = []) (before @ others)"
    and "pool_run mvs (start_pool txs s (client_jobs cd it (before @ (pub, r) # others))) = Some p"
  shows "subseq (filter (is_event cd n t) (accepted p tx)) (published cd n t (fst (read_all r)))"
proof (rule scripted_order [OF _ _ _ _ assms(5)])
  let ?ts = "client_jobs cd it (before @ (pub, r) # others)"
  show "sole_owner c tx s" using assms(3) by (simp add: sole_owner_def)
  show "length before < length ?ts" by (simp add: client_jobs_def)
  show "events_in_order cd n t c tx (?ts ! length before) (published cd n t (fst (read_all r)))"
    using order_client_run [OF assms(1,2)] by (simp add: client_jobs_def nth_append)
  fix i assume i: "i < length ?ts" "i \<noteq> length before"
  let ?cs = "before @ (pub, r) # others"
  obtain d r' where dr: "?cs ! i = (d, r')" by force
  have "(d, r') \<in> set (before @ others)"
    using i dr by (auto simp: client_jobs_def nth_append nth_Cons in_set_conv_nth split: if_splits nat.splits)
  then have "published cd n t (fst (read_all r')) = []"
    using assms(4) by (auto simp: list_all_iff)
  moreover have "?ts ! i = client_run cd it d r'"
    using i dr by (simp add: client_jobs_def nth_map del: map_append list.map)
  ultimately show "events_in_order cd n t c tx (?ts ! i) []"
    using order_client_run [OF assms(1,2), where n = n and t = t and c = c and tx = tx and d = d and r = r'] by simp
qed

theorem publications_stay_in_order_witness:
  "\<exists>p. pool_run (replicate 14 (Run 0))
       (start_pool id (demo_state\<lparr>subscriptions := [''news'' \<mapsto> [''t'' \<mapsto> {|worker|}]]\<rparr>)
         (client_jobs news_codec demo_order [(caller, \<lparr>avail = concat (map frame [[4], [5]]), ends = None\<rparr>),
            (worker, \<lparr>avail = [], ends = None\<rparr>)])) = Some p \<and>
     accepted p 1 = [Outgoing [11], Outgoing [13]] \<and>
     subseq (filter (is_event news_codec ''news'' ''t'') (accepted p 1)) [Outgoing [11], Outgoing [13]]"
proof -
  let ?r = "\<lparr>avail = concat (map frame [[4], [5]]), ends = None\<rparr>"
  let ?w = "\<lparr>avail = [], ends = None\<rparr> :: reader"
  let ?cs = "[(caller, ?r), (worker, ?w)]"
  let ?s = "demo_state\<lparr>subscriptions := [''news'' \<mapsto> [''t'' \<mapsto> {|worker|}]]\<rparr>"
  have bufs: "fst (read_all ?r) = [[4], [5]]" "fst (read_all ?w) = []"
    using read_all_concat [of "[[4], [5]]" "[]" None] by (simp_all add: read_all_empty packet_fits_def BUF_SIZE_eq)
  have single: "demo_order {|worker|} = [worker]" by (simp add: demo_order_def sorted_list_of_fset.rep_eq)
  note defs = numeral_eq_Suc pool_run_append start_pool_def job_step_def client_jobs_def client_run_def reader_loop_eq
    dispatch_def handle_publish_def Let_def with_lock_def demo_state_def fun_eq_iff map_filter_simps
    try_send_def new_channel_def client_channel_places_def accepted_def
  have "map_option (\<lambda>p. accepted p 1) (pool_run (replicate 14 (Run 0)) (start_pool id ?s (client_jobs news_codec demo_order ?cs)))
      = Some [Outgoing [11], Outgoing [13]]"
    using bufs single by (simp add: defs)
  then obtain p where p: "pool_run (replicate 14 (Run 0)) (start_pool id ?s (client_jobs news_codec demo_order ?cs)) = Some p"
      "accepted p 1 = [Outgoing [11], Outgoing [13]]" by auto
  have kept: "topics_kept news_codec"
    by (auto simp: topics_kept_def news_codec_def decode_packet_def split: if_splits)
  have "\<forall>d. clients ?s d = Some 1 \<longrightarrow> d = worker" by (simp add: demo_state_def)
  moreover have "\<forall>S. distinct (demo_order S)" using iter_ok_demo by (simp add: iter_ok_def)
  ultimately show ?thesis
    using publications_stay_in_order [OF kept, of demo_order ?s 1 worker "''news''" "''t''" "[]" "[(worker, ?w)]" "replicate 14 (Run 0)" id caller ?r p]
      p bufs by (simp add: published_def)
qed

section \<open>Calls do not, when the service is starting\<close>

text \<open>
  C31: a call can overtake an earlier call of the same client to the same object. The first call finds
  the service stopped, starts it and waits in its queue; the worker's registration enters the owner of
  the object before it takes the queue, and a second call that is handled in between goes straight to
  the worker. Handled one after the other, as the reader of the caller does it, the two calls and the
  registration deliver them in their order.
\<close>

theorem queued_call_overtaken:
  assumes "clients s c = Some ctx" and "clients s w = Some wtx" and "objects s n = None"
    and "services s n = Some svc" and "state svc = Stopped" and "pending_calls svc = []"
    and "req_to_vec cd (Call ci1 n m1 a1) = Some b1" and "req_to_vec cd (Call ci2 n m2 a2) = Some b2"
    and "resp_to_vec cd (Registered n) = Some ack"
  shows "\<exists>mvs p. list_all ordinary mvs \<and>
       pool_run mvs (start_pool txs s
         [seq (handle_call cd ci1 n m1 a1 c) (handle_call cd ci2 n m2 a2 c), handle_register_object cd n w]) = Some p \<and>
       jobs p = [Done, Done] \<and> accepted p wtx = [Outgoing b2, Outgoing b1, Outgoing ack] \<and>
     snd (run_task (seq (seq (handle_call cd ci1 n m1 a1 c) (handle_call cd ci2 n m2 a2 c)) (handle_register_object cd n w)) s) =
       [Spawned (spawn_service (service_name svc)), Sent wtx (Outgoing b1), Sent wtx (Outgoing b2), Sent wtx (Outgoing ack)]"
proof -
  let ?p0 = "start_pool txs s [seq (handle_call cd ci1 n m1 a1 c) (handle_call cd ci2 n m2 a2 c), handle_register_object cd n w]"
  let ?mvs = "replicate 12 (Run 0) @ replicate 3 (Run 1) @ replicate 9 (Run 0) @ replicate 11 (Run 1)"
  have "map_option (\<lambda>p. (jobs p, accepted p wtx)) (pool_run ?mvs ?p0) =
      Some ([Done, Done], [Outgoing b2, Outgoing b1, Outgoing ack])"
    using assms
    by (simp add: numeral_eq_Suc pool_run_append start_pool_def job_step_def handle_call_def call_activate_def
        handle_register_object_def send_to_client_def Let_def with_lock_def try_send_def new_channel_def
        client_channel_places_def accepted_def)
  then obtain p where "pool_run ?mvs ?p0 = Some p" "jobs p = [Done, Done]"
      "accepted p wtx = [Outgoing b2, Outgoing b1, Outgoing ack]" by auto
  moreover have "list_all ordinary ?mvs" by (simp add: list_all_iff)
  moreover have "snd (run_task (seq (seq (handle_call cd ci1 n m1 a1 c) (handle_call cd ci2 n m2 a2 c)) (handle_register_object cd n w)) s) =
       [Spawned (spawn_service (service_name svc)), Sent wtx (Outgoing b1), Sent wtx (Outgoing b2), Sent wtx (Outgoing ack)]"
    using assms by (simp add: run_seq run_handle_call run_call_activate run_register_object Let_def)
  ultimately show ?thesis by blast
qed

theorem queued_call_overtaken_witness:
  "\<exists>mvs p. pool_run mvs (start_pool id service_state
       [seq (handle_call demo_codec call_1 ''math'' ''add'' JNull caller) (handle_call demo_codec (CallId ''2'') ''math'' ''add'' JNull caller),
        handle_register_object demo_codec ''math'' worker]) = Some p \<and>
     jobs p = [Done, Done] \<and> accepted p 1 = [Outgoing [0], Outgoing [1], Outgoing [12]]"
proof -
  have "clients service_state caller = Some 2" "clients service_state worker = Some 1" "objects service_state ''math'' = None"
      "services service_state ''math'' = Some (stopped_entry ''math.service'')"
      "state (stopped_entry ''math.service'') = Stopped" "pending_calls (stopped_entry ''math.service'') = []"
    by (simp_all add: service_state_def stopped_entry_def)
  moreover have "req_to_vec demo_codec (Call (CallId ''2'') ''math'' ''add'' JNull) = Some [0]"
    by (simp add: demo_codec_def call_1_def)
  ultimately show ?thesis
    using queued_call_overtaken [of service_state caller 2 worker 1 "''math''" "stopped_entry ''math.service''" demo_codec
        call_1 "''add''" JNull "[1]" "CallId ''2''" "''add''" JNull "[0]" "[12]" id] by auto
qed

end
