(* ===== verification/Directory.thy ===== *)
theory Directory
  imports Ordering
begin

text \<open>
  The registry of theory \<^verbatim>\<open>Pubsub\<close> under concurrency. Connections arrive, handle their packets and
  leave while all the others do the same, and their handlers interleave at every lock. There is still an
  order, the log, in which everything they do to the registry happens at once: the log only grows as time
  goes on, an operation enters it between the beginning and the end of its handler and before its reply, and
  the registry and its replies are those of the log.
\<close>

section \<open>Atomic operations\<close>

datatype atom = Arrive | Handle bytes | Leave | DropObjects | DropListeners | DropCalls

fun atom_spec :: "codec \<Rightarrow> ClientId \<Rightarrow> atom \<Rightarrow> registry \<Rightarrow> registry" where
  "atom_spec cd c Arrive r = r\<lparr>connected := insert c (connected r)\<rparr>"
| "atom_spec cd c (Handle buf) r = spec_event cd (Packet c buf) r"
| "atom_spec cd c Leave r = r\<lparr>connected := connected r - {c}\<rparr>"
| "atom_spec cd c DropObjects r = r\<lparr>owned := map_retain (\<lambda>_ own. own \<noteq> c) (owned r)\<rparr>"
| "atom_spec cd c DropListeners r = r\<lparr>listeners := {(n, t, d) \<in> listeners r. d \<noteq> c}\<rparr>"
| "atom_spec cd c DropCalls r = r\<lparr>open_calls := map_retain (\<lambda>_ d. d \<noteq> c) (open_calls r)\<rparr>"

text \<open>The packets that the registry notices; the others register services, publish, or say nothing.\<close>

definition noticed :: "codec \<Rightarrow> bytes \<Rightarrow> bool" where
  "noticed cd buf =
     (case decode_packet cd buf of
        InRequest req \<Rightarrow> (case req of RegisterService _ _ \<Rightarrow> False | Publish _ _ _ \<Rightarrow> False | _ \<Rightarrow> True)
      | InResponse resp \<Rightarrow> response_call_id resp \<noteq> None
      | InInvalid \<Rightarrow> False)"

lemma unnoticed: "\<not> noticed cd buf \<Longrightarrow> spec_event cd (Packet c buf) r = r"
  by (auto simp: noticed_def split: incoming.splits RpcRequest.splits)

definition leaving :: "atom list" where
  "leaving = [Leave, DropObjects, DropListeners, DropCalls]"

lemma leaving_is_disconnect: "fold (atom_spec cd c) leaving r = spec_event cd (Disconnect c) r"
  by (simp add: leaving_def)

text \<open>
  What the registry says to the client: that an object is registered, that a topic is subscribed to, whether
  an object is there.
\<close>

fun atom_reply :: "codec \<Rightarrow> registry \<Rightarrow> atom \<Rightarrow> ClientMsg option" where
  "atom_reply cd r (Handle buf) =
     (case decode_packet cd buf of
        InRequest (RegisterObject n) \<Rightarrow> map_option Outgoing (resp_to_vec cd (Registered n))
      | InRequest (Subscribe n t) \<Rightarrow> map_option Outgoing (resp_to_vec cd (Subscribed n t))
      | InRequest (HasObject n) \<Rightarrow> map_option Outgoing (resp_to_vec cd (HasObjectResult n (owned r n \<noteq> None)))
      | _ \<Rightarrow> None)"
| "atom_reply cd r _ = None"

fun registry_reply :: "RpcResponse \<Rightarrow> bool" where
  "registry_reply (Registered n) = True"
| "registry_reply (Subscribed n t) = True"
| "registry_reply (HasObjectResult n e) = True"
| "registry_reply _ = False"

definition tells_registry :: "codec \<Rightarrow> ClientMsg \<Rightarrow> bool" where
  "tells_registry cd msg =
     (case msg of
        Outgoing b \<Rightarrow> (case decode_packet cd b of InResponse r \<Rightarrow> registry_reply r | _ \<Rightarrow> False)
      | ShutdownMsg \<Rightarrow> False)"

definition replies_kept :: "codec \<Rightarrow> bool" where
  "replies_kept cd \<longleftrightarrow>
     (\<forall>r b. req_to_vec cd r = Some b \<longrightarrow> \<not> tells_registry cd (Outgoing b)) \<and>
     (\<forall>r b. resp_to_vec cd r = Some b \<longrightarrow> tells_registry cd (Outgoing b) = registry_reply r)"

lemma not_reply:
  assumes "replies_kept cd"
  shows "req_to_vec cd r = Some b \<Longrightarrow> \<not> tells_registry cd (Outgoing b)"
    and "resp_to_vec cd resp = Some b \<Longrightarrow> tells_registry cd (Outgoing b) = registry_reply resp"
  using assms by (auto simp: replies_kept_def)

section \<open>Tasks that commit\<close>

text \<open>
  \<open>commits cd c tx live t S A\<close>: whatever the other connections do meanwhile, task \<open>t\<close> of the connection
  \<open>c\<close> does to the registry the operations \<open>A\<close>, each in one piece of uninterrupted code, changes nothing
  else of it, and sends the reply to each operation, if it has one, before the next and before it ends;
  \<open>S\<close> is the reply that is still to be sent. While the connection is there, as it is between its arrival and
  its leaving, its sender is in the table; \<open>live\<close> tells that the leaving comes after the task.
\<close>

definition connected_as :: "ClientId \<Rightarrow> ClientSender \<Rightarrow> bool \<Rightarrow> atom list \<Rightarrow> ServerState \<Rightarrow> bool" where
  "connected_as c tx live A s \<longleftrightarrow> (live \<or> Leave \<in> set A) \<and> Arrive \<notin> set A \<longrightarrow> clients s c = Some tx"

definition sender_after :: "ClientId \<Rightarrow> ClientSender \<Rightarrow> atom \<Rightarrow> (ClientId \<rightharpoonup> ClientSender) \<Rightarrow> (ClientId \<rightharpoonup> ClientSender)" where
  "sender_after c tx a m = (if a = Arrive then m(c \<mapsto> tx) else if a = Leave then m(c := None) else m)"

primrec commits ::
    "codec \<Rightarrow> ClientId \<Rightarrow> ClientSender \<Rightarrow> bool \<Rightarrow> task \<Rightarrow> ClientMsg option \<Rightarrow> atom list \<Rightarrow> bool" where
  "commits cd c tx live Done S A \<longleftrightarrow> A = [] \<and> S = None"
| "commits cd c tx live (Lock m t) S A \<longleftrightarrow> commits cd c tx live t S A"
| "commits cd c tx live (Unlock m t) S A \<longleftrightarrow> commits cd c tx live t S A"
| "commits cd c tx live (Sync f) S A \<longleftrightarrow>
     (\<forall>s. connected_as c tx live A s \<longrightarrow>
       (\<lambda>(s', b).
          registry_of s' = registry_of s \<and> clients s' = clients s \<and> b S A \<or>
          (\<exists>a A'. S = None \<and> A = a # A' \<and> registry_of s' = atom_spec cd c a (registry_of s) \<and>
             clients s' = sender_after c tx a (clients s) \<and> b (atom_reply cd (registry_of s) a) A'))
        (map_prod id (commits cd c tx live) (f s)))"
| "commits cd c tx live (Send tx' m t) S A \<longleftrightarrow>
     (if tells_registry cd m then tx' = tx \<and> S = Some m \<and> commits cd c tx live t None A
      else commits cd c tx live t S A)"
| "commits cd c tx live (Spawn x t) S A \<longleftrightarrow> commits cd c tx live t S A"

lemma commits_Sync [simp]:
  "commits cd c tx live (Sync f) S A \<longleftrightarrow>
     (\<forall>s. connected_as c tx live A s \<longrightarrow>
        registry_of (fst (f s)) = registry_of s \<and> clients (fst (f s)) = clients s \<and> commits cd c tx live (snd (f s)) S A \<or>
        (\<exists>a A'. S = None \<and> A = a # A' \<and> registry_of (fst (f s)) = atom_spec cd c a (registry_of s) \<and>
           clients (fst (f s)) = sender_after c tx a (clients s) \<and>
           commits cd c tx live (snd (f s)) (atom_reply cd (registry_of s) a) A'))"
  by (simp add: split_beta)

declare commits.simps(4) [simp del]

lemma commits_with_lock [simp]:
  "commits cd c tx live (with_lock m f) S A \<longleftrightarrow>
     (\<forall>s. connected_as c tx live A s \<longrightarrow>
        registry_of (fst (f s)) = registry_of s \<and> clients (fst (f s)) = clients s \<and> commits cd c tx live (snd (f s)) S A \<or>
        (\<exists>a A'. S = None \<and> A = a # A' \<and> registry_of (fst (f s)) = atom_spec cd c a (registry_of s) \<and>
           clients (fst (f s)) = sender_after c tx a (clients s) \<and>
           commits cd c tx live (snd (f s)) (atom_reply cd (registry_of s) a) A'))"
  by (simp add: with_lock_def split_beta)

lemma commits_silent_first:
  "commits cd c tx live t None [] \<Longrightarrow> commits cd c tx live k S [] \<Longrightarrow> commits cd c tx live (seq t k) S []"
  by (induction t rule: task_induct) (auto split: if_splits)

lemma commits_seq:
  "commits cd c tx (live \<or> Leave \<in> set B) t S A \<Longrightarrow> Arrive \<notin> set B \<Longrightarrow> commits cd c tx live k None B \<Longrightarrow>
   commits cd c tx live (seq t k) S (A @ B)"
proof (induction t arbitrary: S A rule: task_induct)
  case Done
  then show ?case by simp
next
  case (Sync f)
  have "connected_as c tx live (A @ B) s \<Longrightarrow> connected_as c tx (live \<or> Leave \<in> set B) A s" for s
    using Sync.prems(2) by (auto simp: connected_as_def)
  with Sync show ?case by simp (metis append_Cons)
qed (auto split: if_splits)

lemma commits_for_each:
  "(\<And>x. x \<in> set xs \<Longrightarrow> commits cd c tx True (body x) None (script x)) \<Longrightarrow> (\<And>x. x \<in> set xs \<Longrightarrow> Arrive \<notin> set (script x)) \<Longrightarrow>
   commits cd c tx True (for_each body xs) None (concat (map script xs))"
proof (induction xs)
  case (Cons x xs)
  then have "commits cd c tx True (seq (body x) (for_each body xs)) None (script x @ concat (map script xs))"
    by (intro commits_seq) auto
  then show ?case by simp
qed simp

lemma commits_for_each_silent:
  "(\<And>x. x \<in> set xs \<Longrightarrow> commits cd c tx True (body x) None []) \<Longrightarrow> commits cd c tx True (for_each body xs) None []"
  using commits_for_each [of xs cd c tx body "\<lambda>_. []"] by (simp add: concat_eq_Nil_conv [THEN iffD2])

section \<open>The handlers commit their packet\<close>

lemma commits_send_silent:
  "(\<And>b. ser = Some b \<Longrightarrow> \<not> tells_registry cd (Outgoing b)) \<Longrightarrow> commits cd c tx live (send_to_client d ser) None []"
  by (auto simp: send_to_client_def split: option.split)

lemma commits_send_reply:
  "(\<And>b. ser = Some b \<Longrightarrow> tells_registry cd (Outgoing b)) \<Longrightarrow>
   commits cd c tx True (send_to_client c ser) (map_option Outgoing ser) []"
  by (auto simp: send_to_client_def connected_as_def split: option.split)

lemma registry_of_simps [simp]:
  "registry_of (s\<lparr>services := x\<rparr>) = registry_of s"
  "registry_of (s\<lparr>objects := ow\<rparr>) = (registry_of s)\<lparr>owned := ow\<rparr>"
  "registry_of (s\<lparr>calls := cs\<rparr>) = (registry_of s)\<lparr>open_calls := map_option fst \<circ> cs\<rparr>"
  "registry_of (s\<lparr>clients := m\<rparr>) = (registry_of s)\<lparr>connected := dom m\<rparr>"
  "registry_of (s\<lparr>subscriptions := x1\<rparr>) = (registry_of s)\<lparr>listeners := {(n, t, c). c |\<in>| subscribers x1 n t}\<rparr>"
  "owned (registry_of s) = objects s" "connected (registry_of s) = dom (clients s)"
  "listeners (registry_of s) = {(n, t, c). c |\<in>| subscribers (subscriptions s) n t}"
  "open_calls (registry_of s) = map_option fst \<circ> calls s"
  by (simp_all add: registry_of_def)

lemma open_call: "map_option fst \<circ> (m(ci \<mapsto> (c, tx))) = (map_option fst \<circ> m)(ci \<mapsto> c)"
  "map_option fst \<circ> (m(ci := None)) = (map_option fst \<circ> m)(ci := None)"
  by (simp_all add: fun_eq_iff)

definition packet_atoms :: "codec \<Rightarrow> bytes \<Rightarrow> atom list" where
  "packet_atoms cd buf = (if noticed cd buf then [Handle buf] else [])"

lemma commits_call_activate:
  assumes "replies_kept cd"
  shows "commits cd c tx True (call_activate cd ci n m a c) None []"
  using not_reply(2) [OF assms, of "no_such_object ci n"]
  by (auto simp: call_activate_def no_such_object_def split: option.split ServiceState.split
      intro!: commits_silent_first commits_send_silent)

lemma commits_then_silent:
  "commits cd c tx True t None A \<Longrightarrow> commits cd c tx True k None [] \<Longrightarrow> commits cd c tx True (seq t k) None A"
  using commits_seq [where B = "[]" and live = True] by simp

text \<open>A block that writes one map and a block that only looks.\<close>

lemma commits_write:
  assumes "\<And>s. connected_as c tx live [a] s \<Longrightarrow>
      registry_of (fst (f s)) = atom_spec cd c a (registry_of s) \<and> clients (fst (f s)) = sender_after c tx a (clients s) \<and>
      commits cd c tx live (snd (f s)) (atom_reply cd (registry_of s) a) []"
  shows "commits cd c tx live (with_lock m f) None [a]"
  using assms by simp

lemma commits_write_then:
  assumes "\<And>s. connected_as c tx live [a] s \<Longrightarrow>
      registry_of (fst (f s)) = atom_spec cd c a (registry_of s) \<and> clients (fst (f s)) = sender_after c tx a (clients s) \<and>
      snd (f s) = Done \<and> commits cd c tx live k (atom_reply cd (registry_of s) a) []"
  shows "commits cd c tx live (seq (with_lock m f) k) None [a]"
  using assms by (simp add: seq_with_lock)

lemma commits_look:
  "(\<And>s. connected_as c tx live A s \<Longrightarrow> commits cd c tx live (t s) S A) \<Longrightarrow> commits cd c tx live (Sync (\<lambda>s. (s, t s))) S A"
  by simp

lemma commits_call:
  assumes kept: "replies_kept cd" and buf: "decode_packet cd buf = InRequest (Call ci n m a)"
  shows "commits cd c tx True (handle_call cd ci n m a c) None [Handle buf]"
  unfolding handle_call_def Let_def commits.simps(2)
proof (rule commits_look)
  fix s assume "connected_as c tx True [Handle buf] s"
  then have tx: "clients s c = Some tx" by (simp add: connected_as_def)
  have record_call: "commits cd c tx True
      (with_lock Calls (\<lambda>s. (s\<lparr>calls := (calls s)(ci \<mapsto> (c, tx))\<rparr>, Done))) None [Handle buf]"
    by (rule commits_write) (simp add: buf open_call sender_after_def)
  show "commits cd c tx True (Unlock Objects (Unlock Clients
      (case clients s c of
         None \<Rightarrow> send_to_client c (resp_to_vec cd (Error (Some ci) n ''Caller disconnected''))
       | Some caller_tx \<Rightarrow>
           seq (with_lock Calls (\<lambda>s. (s\<lparr>calls := (calls s)(ci \<mapsto> (c, caller_tx))\<rparr>, Done)))
             (case (objects s n, Option.bind (objects s n) (clients s)) of
                (Some _, Some worker_tx) \<Rightarrow>
                  (case req_to_vec cd (Call ci n m a) of None \<Rightarrow> Done | Some bytes \<Rightarrow> Send worker_tx (Outgoing bytes) Done)
              | _ \<Rightarrow> call_activate cd ci n m a c)))) None [Handle buf]"
    using not_reply(1) [OF kept, of "Call ci n m a"]
    by (auto simp: tx commits_call_activate [OF kept] simp del: commits_with_lock
        split: option.split intro!: commits_then_silent [OF record_call] record_call)
qed

lemma commits_register_object:
  assumes kept: "replies_kept cd" and buf: "decode_packet cd buf = InRequest (RegisterObject n)"
  shows "commits cd c tx True (handle_register_object cd n c) None [Handle buf]"
proof -
  let ?ack = "map_option Outgoing (resp_to_vec cd (Registered n))"
  have acks: "commits cd c tx True (seq (for_each (\<lambda>req. send_to_client c (req_to_vec cd req)) reqs)
      (send_to_client c (resp_to_vec cd (Registered n)))) ?ack []" for reqs
    using not_reply(1) [OF kept] not_reply(2) [OF kept, of "Registered n"]
    by (intro commits_silent_first commits_for_each_silent commits_send_silent commits_send_reply) auto
  have rest: "commits cd c tx True (with_lock ServicesM (\<lambda>s.
        let finish = (\<lambda>pending. seq (for_each (\<lambda>req. send_to_client c (req_to_vec cd req)) pending)
                (send_to_client c (resp_to_vec cd (Registered n))))
        in case services s n of
             Some svc \<Rightarrow> (s\<lparr>services := (services s)(n \<mapsto> svc\<lparr>state := Running c, owner := Some c, pending_calls := []\<rparr>)\<rparr>,
                finish (pending_calls svc))
           | None \<Rightarrow> (s, finish []))) ?ack []"
    using acks [of "[]"] acks by (simp add: Let_def split: option.split)
  show ?thesis
    unfolding handle_register_object_def
    by (rule commits_write_then) (use rest in \<open>simp add: buf sender_after_def\<close>)
qed

lemma commits_subscribe:
  assumes kept: "replies_kept cd" and buf: "decode_packet cd buf = InRequest (Subscribe n t)"
  shows "commits cd c tx True (handle_subscribe cd n t c) None [Handle buf]"
  unfolding handle_subscribe_def
proof (rule commits_write_then)
  fix s
  have "commits cd c tx True (send_to_client c (resp_to_vec cd (Subscribed n t)))
      (map_option Outgoing (resp_to_vec cd (Subscribed n t))) []"
    using not_reply(2) [OF kept, of "Subscribed n t"] by (intro commits_send_reply) auto
  then show "registry_of (fst (let topics = (case subscriptions s n of None \<Rightarrow> Map.empty | Some m \<Rightarrow> m);
                subs = (case topics t of None \<Rightarrow> {||} | Some c \<Rightarrow> c)
            in (s\<lparr>subscriptions := (subscriptions s)(n \<mapsto> topics(t \<mapsto> finsert c subs))\<rparr>, Done))) =
          atom_spec cd c (Handle buf) (registry_of s) \<and>
      clients (fst (let topics = (case subscriptions s n of None \<Rightarrow> Map.empty | Some m \<Rightarrow> m);
                subs = (case topics t of None \<Rightarrow> {||} | Some c \<Rightarrow> c)
            in (s\<lparr>subscriptions := (subscriptions s)(n \<mapsto> topics(t \<mapsto> finsert c subs))\<rparr>, Done))) =
          sender_after c tx (Handle buf) (clients s) \<and>
      snd (let topics = (case subscriptions s n of None \<Rightarrow> Map.empty | Some m \<Rightarrow> m);
                subs = (case topics t of None \<Rightarrow> {||} | Some c \<Rightarrow> c)
            in (s\<lparr>subscriptions := (subscriptions s)(n \<mapsto> topics(t \<mapsto> finsert c subs))\<rparr>, Done)) = Done \<and>
      commits cd c tx True (send_to_client c (resp_to_vec cd (Subscribed n t)))
        (atom_reply cd (registry_of s) (Handle buf)) []"
    by (auto intro!: registry_eqI simp: buf sender_after_def Let_def subscribers_insert [unfolded Let_def] split: if_splits)
qed

lemma commits_has_object:
  assumes kept: "replies_kept cd" and "decode_packet cd buf = InRequest (HasObject n)"
  shows "commits cd c tx True (handle_has_object cd n c) None [Handle buf]"
  unfolding handle_has_object_def
  by (rule commits_write)
    (use assms not_reply(2) [OF kept] in \<open>auto simp: sender_after_def intro!: commits_send_reply\<close>)

lemma commits_publish:
  assumes kept: "replies_kept cd"
  shows "commits cd c tx True (handle_publish cd it n t a) None []"
  using not_reply(2) [OF kept, of "Event n t a"]
  by (auto simp: handle_publish_def Let_def split: option.split intro!: commits_for_each_silent)

lemma commits_response:
  assumes kept: "replies_kept cd" and buf: "decode_packet cd buf = InResponse resp" and ci: "response_call_id resp = Some ci"
  shows "commits cd c tx True (forward_response cd ci resp) None [Handle buf]"
  unfolding forward_response_def
proof (rule commits_write)
  fix s
  have "\<not> registry_reply resp" using ci by (cases resp) auto
  with not_reply(2) [OF kept, of resp] show "registry_of (fst (s\<lparr>calls := (calls s)(ci := None)\<rparr>,
         case calls s ci of None \<Rightarrow> Done | Some (x, caller_tx) \<Rightarrow>
           (case resp_to_vec cd resp of None \<Rightarrow> Done | Some bytes \<Rightarrow> Send caller_tx (Outgoing bytes) Done))) =
      atom_spec cd c (Handle buf) (registry_of s) \<and>
    clients (fst (s\<lparr>calls := (calls s)(ci := None)\<rparr>,
         case calls s ci of None \<Rightarrow> Done | Some (x, caller_tx) \<Rightarrow>
           (case resp_to_vec cd resp of None \<Rightarrow> Done | Some bytes \<Rightarrow> Send caller_tx (Outgoing bytes) Done))) =
      sender_after c tx (Handle buf) (clients s) \<and>
    commits cd c tx True (snd (s\<lparr>calls := (calls s)(ci := None)\<rparr>,
         case calls s ci of None \<Rightarrow> Done | Some (x, caller_tx) \<Rightarrow>
           (case resp_to_vec cd resp of None \<Rightarrow> Done | Some bytes \<Rightarrow> Send caller_tx (Outgoing bytes) Done)))
      (atom_reply cd (registry_of s) (Handle buf)) []"
    by (auto simp: buf ci open_call sender_after_def split: option.split)
qed

lemma commits_dispatch:
  assumes "replies_kept cd"
  shows "commits cd c tx True (dispatch cd it c buf) None (packet_atoms cd buf)"
proof (cases "decode_packet cd buf")
  case (InRequest req)
  then show ?thesis
    by (cases req)
      (auto simp: dispatch_def packet_atoms_def noticed_def handle_register_service_def
        intro!: commits_call [OF assms] commits_register_object [OF assms] commits_subscribe [OF assms]
          commits_has_object [OF assms] commits_publish [OF assms])
next
  case (InResponse resp)
  with commits_response [OF assms InResponse] show ?thesis
    by (auto simp: dispatch_def packet_atoms_def noticed_def handle_response_def split: option.split)
qed (simp add: dispatch_def packet_atoms_def noticed_def)

lemma packet_atoms_concat: "concat (map (packet_atoms cd) bufs) = map Handle (filter (noticed cd) bufs)"
  by (induction bufs) (simp_all add: packet_atoms_def)

section \<open>The life of a connection\<close>

lemma commits_cleanup: "commits cd c tx False (cleanup_client c) None leaving"
proof -
  have block: "commits cd c tx live (with_lock m f) None [a]"
    if "\<And>s. registry_of (fst (f s)) = atom_spec cd c a (registry_of s)"
      "\<And>s. clients (fst (f s)) = sender_after c tx a (clients s)" "\<And>s. snd (f s) = Done" "\<And>r. atom_reply cd r a = None"
    for live m f a
    using that by (intro commits_write) simp
  have objects_gone: "commits cd c tx live (with_lock Objects (\<lambda>s. (s\<lparr>objects := purge_objects c (objects s)\<rparr>, Done))) None [DropObjects]"
    and clients_gone: "commits cd c tx live (with_lock Clients (\<lambda>s. (s\<lparr>clients := purge_clients c (clients s)\<rparr>, Done))) None [Leave]"
    and calls_gone: "commits cd c tx live (with_lock Calls (\<lambda>s. (s\<lparr>calls := purge_calls c (calls s)\<rparr>, Done))) None [DropCalls]" for live
    by (rule block; auto intro!: registry_eqI simp: sender_after_def purge_objects_def purge_clients_def purge_calls_def
        fun_eq_iff map_retain_def split: option.split)+
  have subscriptions_gone: "commits cd c tx live
      (with_lock Subscriptions (\<lambda>s. (s\<lparr>subscriptions := purge_subscriptions c (subscriptions s)\<rparr>, Done))) None [DropListeners]" for live
    by (rule block) (auto intro!: registry_eqI simp: sender_after_def subscribers_purge)
  show ?thesis
    unfolding cleanup_client_def leaving_def Let_def
    by (intro commits_seq [where A = "[_]", simplified append_Cons append_Nil] commits_seq [where A = "[_]" and B = "[]", simplified]
        clients_gone objects_gone subscriptions_gone calls_gone) simp_all
qed

section \<open>Connections, handler by handler\<close>

text \<open>
  What a connection does one after the other: \<open>spawn_client\<close>, a handler for each packet of its stream, the
  cleanup. The reader takes the next packet when the handler of the last has returned.
\<close>

definition activities :: "codec \<Rightarrow> (ClientId fset \<Rightarrow> ClientId list) \<Rightarrow> string \<times> ClientSender \<times> reader \<Rightarrow> task list" where
  "activities cd it = (\<lambda>(u, tx, r).
     spawn_client u tx # map (dispatch cd it (ClientId u)) (fst (read_all r)) @ [cleanup_client (ClientId u)])"

lemma activities_are_connection:
  "foldr seq (activities cd it (u, tx, r)) Done = seq (spawn_client u tx) (client_run cd it (ClientId u) r)"
proof -
  have "foldr seq (map f xs @ [k]) Done = seq (for_each f xs) k" for f :: "bytes \<Rightarrow> task" and xs k
    by (induction xs) (simp_all add: seq_assoc)
  then show ?thesis by (simp add: activities_def client_run_def reader_loop_eq)
qed

text \<open>The operations of each of them.\<close>

definition scripts :: "codec \<Rightarrow> bytes list \<Rightarrow> atom list list" where
  "scripts cd bufs = [Arrive] # map (packet_atoms cd) bufs @ [leaving]"

definition script_upto :: "codec \<Rightarrow> bytes list \<Rightarrow> nat \<Rightarrow> atom list" where
  "script_upto cd bufs k = concat (take k (scripts cd bufs))"

lemma length_scripts: "length (scripts cd (fst (read_all r))) = length (activities cd it (u, tx, r))"
  by (simp add: scripts_def activities_def)

text \<open>The broker with, for each connection, how many of its activities have begun.\<close>

record session =
  broker_pool :: pool
  begun :: "nat \<Rightarrow> nat"

datatype session_move = Begin nat | Go move

fun session_step ::
    "codec \<Rightarrow> (ClientId fset \<Rightarrow> ClientId list) \<Rightarrow> (string \<times> ClientSender \<times> reader) list \<Rightarrow> session_move \<Rightarrow> session
      \<Rightarrow> session option" where
  "session_step cd it cs (Begin i) v =
     (if i < length cs \<and> jobs (broker_pool v) ! i = Done \<and> begun v i < length (activities cd it (cs ! i))
      then Some (v\<lparr>broker_pool := (broker_pool v)\<lparr>jobs := (jobs (broker_pool v))[i := activities cd it (cs ! i) ! begun v i]\<rparr>,
                   begun := (begun v)(i := Suc (begun v i))\<rparr>)
      else None)"
| "session_step cd it cs (Go (CloseConn i)) v =
     (if i < length cs \<and> begun v i = length (activities cd it (cs ! i))
      then map_option (\<lambda>p. v\<lparr>broker_pool := p\<rparr>) (pool_move (CloseConn i) (broker_pool v)) else None)"
| "session_step cd it cs (Go mv) v = map_option (\<lambda>p. v\<lparr>broker_pool := p\<rparr>) (pool_move mv (broker_pool v))"

fun session_run ::
    "codec \<Rightarrow> (ClientId fset \<Rightarrow> ClientId list) \<Rightarrow> (string \<times> ClientSender \<times> reader) list \<Rightarrow> session_move list \<Rightarrow> session
      \<Rightarrow> session option" where
  "session_run cd it cs [] v = Some v"
| "session_run cd it cs (mv # mvs) v =
     (case session_step cd it cs mv v of None \<Rightarrow> None | Some v' \<Rightarrow> session_run cd it cs mvs v')"

definition session_start :: "(nat \<Rightarrow> ClientSender) \<Rightarrow> ServerState \<Rightarrow> nat \<Rightarrow> session" where
  "session_start txs s n = \<lparr>broker_pool = start_pool txs s (replicate n Done), begun = (\<lambda>_. 0)\<rparr>"

lemma commits_activity:
  assumes kept: "replies_kept cd" and k: "k < length (activities cd it (u, tx, r))"
  defines "L \<equiv> scripts cd (fst (read_all r))"
  shows "commits cd (ClientId u) tx (Suc k < length L) (activities cd it (u, tx, r) ! k) None (L ! k)"
proof -
  let ?bufs = "fst (read_all r)"
  have len: "length L = Suc (Suc (length ?bufs))" by (simp add: L_def scripts_def)
  consider (arrive) "k = 0" | (packet) j where "k = Suc j" "j < length ?bufs" | (leave) "k = Suc (length ?bufs)"
    using k by (cases k) (auto simp: activities_def less_Suc_eq)
  then show ?thesis
  proof cases
    case arrive
    have "commits cd (ClientId u) tx live (spawn_client u tx) None [Arrive]" for live
      unfolding spawn_client_def by (rule commits_write) (auto simp: sender_after_def)
    with arrive show ?thesis by (simp add: activities_def L_def scripts_def)
  next
    case packet
    with commits_dispatch [OF kept, of "ClientId u" tx it "?bufs ! j"] show ?thesis
      by (simp add: activities_def L_def scripts_def nth_append)
  next
    case leave
    with commits_cleanup [of cd "ClientId u" tx] show ?thesis
      by (simp add: activities_def L_def scripts_def nth_append)
  qed
qed

lemma packet_marks: "a \<in> set (concat (map (packet_atoms cd) bufs)) \<Longrightarrow> a \<noteq> Leave \<and> a \<noteq> Arrive"
  by (auto simp: packet_atoms_def split: if_splits)

lemma script_starts: "0 < k \<Longrightarrow> Arrive \<in> set (script_upto cd bufs k)"
  by (cases k) (simp_all add: script_upto_def scripts_def)

lemma script_stays:
  assumes k: "k < length (scripts cd bufs)"
  shows "Leave \<notin> set (script_upto cd bufs k)"
proof (cases k)
  case (Suc j)
  with k have "take j (map (packet_atoms cd) bufs @ [leaving]) = map (packet_atoms cd) (take j bufs)"
    by (simp add: scripts_def take_map)
  then have "script_upto cd bufs k = Arrive # concat (map (packet_atoms cd) (take j bufs))"
    by (simp add: script_upto_def scripts_def Suc)
  with packet_marks [of Leave cd "take j bufs"] show ?thesis by auto
qed (simp add: script_upto_def)

lemma script_leaves_once: "count_list (script_upto cd bufs k) Leave \<le> 1"
proof (cases "k < length (scripts cd bufs)")
  case True
  with script_stays have "count_list (script_upto cd bufs k) Leave = 0" by (simp add: count_list_0_iff)
  then show ?thesis by simp
next
  case False
  then have "script_upto cd bufs k = Arrive # concat (map (packet_atoms cd) bufs) @ leaving"
    by (simp add: script_upto_def scripts_def)
  moreover have "count_list (concat (map (packet_atoms cd) bufs)) Leave = 0"
    using packet_marks [of Leave cd bufs] by (auto simp: count_list_0_iff)
  ultimately show ?thesis by (simp add: leaving_def)
qed

lemma leave_to_come:
  assumes "ops @ A = script_upto cd bufs k" and "Leave \<in> set A"
  shows "Leave \<notin> set ops"
proof -
  have "count_list ops Leave + count_list A Leave \<le> 1"
    using script_leaves_once [of cd bufs k] by (simp flip: assms(1))
  moreover have "count_list A Leave \<noteq> 0" using assms(2) by (simp add: count_list_0_iff)
  ultimately have "count_list ops Leave = 0" by linarith
  then show ?thesis by (simp add: count_list_0_iff)
qed

lemma script_upto_Suc: "k < length (scripts cd bufs) \<Longrightarrow> script_upto cd bufs (Suc k) = script_upto cd bufs k @ scripts cd bufs ! k"
  by (simp add: script_upto_def take_Suc_conv_app_nth)

section \<open>The log\<close>

type_synonym log = "(nat \<times> atom) list"

definition replay :: "codec \<Rightarrow> (nat \<Rightarrow> ClientId) \<Rightarrow> log \<Rightarrow> registry \<Rightarrow> registry" where
  "replay cd cid = fold (\<lambda>(i, a). atom_spec cd (cid i) a)"

definition done_by :: "nat \<Rightarrow> log \<Rightarrow> atom list" where
  "done_by i log = map snd (filter (\<lambda>(j, a). j = i) log)"

definition answer_list :: "ClientMsg option \<Rightarrow> ClientMsg list" where
  "answer_list S = (case S of None \<Rightarrow> [] | Some m \<Rightarrow> [m])"

fun answers_to :: "codec \<Rightarrow> (nat \<Rightarrow> ClientId) \<Rightarrow> nat \<Rightarrow> log \<Rightarrow> registry \<Rightarrow> ClientMsg list" where
  "answers_to cd cid i [] r = []"
| "answers_to cd cid i ((j, a) # log) r =
     (if j = i then answer_list (atom_reply cd r a) else []) @ answers_to cd cid i log (atom_spec cd (cid j) a r)"

lemma log_snoc:
  "replay cd cid (log @ [(j, a)]) r = atom_spec cd (cid j) a (replay cd cid log r)"
  "done_by i (log @ [(j, a)]) = (if j = i then done_by i log @ [a] else done_by i log)"
  by (simp_all add: replay_def done_by_def)

lemma answers_snoc:
  "answers_to cd cid i (log @ [(j, a)]) r =
     answers_to cd cid i log r @ (if j = i then answer_list (atom_reply cd (replay cd cid log r) a) else [])"
  by (induction log arbitrary: r) (auto simp: replay_def)

text \<open>
  Where a connection stands: \<open>b\<close> of its activities have begun, it has done the operations \<open>ops\<close>, all those
  of the activities before the last, and its task commits to the others of the last; the table has its
  sender between its arrival and its leaving; the replies it was sent, \<open>acc\<close>, are among those the log gives
  it, \<open>said\<close>, in their order, and while its channel is open they are all of these but one that is still to
  be sent.
\<close>

definition tracks ::
    "codec \<Rightarrow> ClientId \<Rightarrow> ClientSender \<Rightarrow> bytes list \<Rightarrow> nat \<Rightarrow> task \<Rightarrow> (ClientId \<rightharpoonup> ClientSender) \<Rightarrow> ClientMsg list \<Rightarrow>
     ClientMsg list \<Rightarrow> atom list \<Rightarrow> bool \<Rightarrow> bool" where
  "tracks cd c tx bufs b t m acc said ops op \<longleftrightarrow>
     (b = 0 \<longrightarrow> t = Done) \<and> b \<le> length (scripts cd bufs) \<and> (Arrive \<in> set ops \<and> Leave \<notin> set ops \<longrightarrow> m c = Some tx) \<and>
     prefix (script_upto cd bufs (b - 1)) ops \<and>
     (\<exists>S A D. commits cd c tx (b < length (scripts cd bufs)) t S A \<and> ops @ A = script_upto cd bufs b \<and>
        said = D @ answer_list S \<and> subseq acc D \<and> (op \<longrightarrow> acc = D))"

lemma tracksE:
  assumes "tracks cd c tx bufs b t m acc said ops op"
  obtains S A D where "commits cd c tx (b < length (scripts cd bufs)) t S A" "ops @ A = script_upto cd bufs b"
    "said = D @ answer_list S" "subseq acc D" "op \<longrightarrow> acc = D"
    "b = 0 \<longrightarrow> t = Done" "b \<le> length (scripts cd bufs)" "Arrive \<in> set ops \<and> Leave \<notin> set ops \<longrightarrow> m c = Some tx"
    "prefix (script_upto cd bufs (b - 1)) ops"
  using assms unfolding tracks_def by blast

lemma tracksI:
  assumes "commits cd c tx (b < length (scripts cd bufs)) t S A" and "ops @ A = script_upto cd bufs b"
    and "said = D @ answer_list S" and "subseq acc D" and "op \<longrightarrow> acc = D"
    and "b = 0 \<longrightarrow> t = Done" and "b \<le> length (scripts cd bufs)" and "Arrive \<in> set ops \<and> Leave \<notin> set ops \<longrightarrow> m c = Some tx"
    and "prefix (script_upto cd bufs (b - 1)) ops"
  shows "tracks cd c tx bufs b t m acc said ops op"
  using assms unfolding tracks_def by blast

lemma tracks_next:
  assumes "tracks cd c tx bufs b t m acc said ops op" and "t \<noteq> Done"
    and "\<And>S A. commits cd c tx (b < length (scripts cd bufs)) t S A \<Longrightarrow> commits cd c tx (b < length (scripts cd bufs)) t' S A"
  shows "tracks cd c tx bufs b t' m acc said ops op"
  using assms(1)
proof (cases rule: tracksE)
  case (1 S A D)
  with assms(2,3) show ?thesis by (intro tracksI [where S = S and A = A and D = D]) auto
qed

lemma tracks_less:
  assumes "tracks cd c tx bufs b t m acc said ops op" and "m' c = m c" and "subseq acc' acc"
    and "op' \<longrightarrow> op \<and> acc' = acc"
  shows "tracks cd c tx bufs b t m' acc' said ops op'"
  using assms(1)
proof (cases rule: tracksE)
  case (1 S A D)
  with assms(2-4) show ?thesis
    by (intro tracksI [where S = S and A = A and D = D]) (auto intro: subseq_order.trans)
qed

lemma tracks_Send:
  assumes "tracks cd c tx bufs b (Send tx' msg t) m acc said ops op"
    and "acc' = acc @ (if went \<and> tx' = tx \<and> tells_registry cd msg then [msg] else [])" and "op \<and> tx' = tx \<longrightarrow> went"
  shows "tracks cd c tx bufs b t m acc' said ops op"
  using assms(1)
proof (cases rule: tracksE)
  case (1 S A D)
  show ?thesis
  proof (cases "tells_registry cd msg")
    case True
    with 1 assms(2,3) show ?thesis
      by (intro tracksI [where S = None and A = A and D = "D @ [msg]"])
        (auto simp: answer_list_def intro: list_emb_append_mono list_emb_append2)
  next
    case False
    with 1 assms(2) show ?thesis by (intro tracksI [where S = S and A = A and D = D]) auto
  qed
qed

lemma tracks_Sync:
  assumes "tracks cd c tx bufs b (Sync f) (clients s) acc said ops op"
  shows "registry_of (fst (f s)) = registry_of s \<and> clients (fst (f s)) = clients s \<and>
        tracks cd c tx bufs b (snd (f s)) (clients (fst (f s))) acc said ops op \<or>
     (\<exists>a. registry_of (fst (f s)) = atom_spec cd c a (registry_of s) \<and> clients (fst (f s)) = sender_after c tx a (clients s) \<and>
        tracks cd c tx bufs b (snd (f s)) (clients (fst (f s))) acc
          (said @ answer_list (atom_reply cd (registry_of s) a)) (ops @ [a]) op)"
  using assms
proof (cases rule: tracksE)
  case (1 S A D)
  have "connected_as c tx (b < length (scripts cd bufs)) A s"
    unfolding connected_as_def
  proof (intro impI)
    assume A: "(b < length (scripts cd bufs) \<or> Leave \<in> set A) \<and> Arrive \<notin> set A"
    have "Arrive \<in> set (ops @ A)" using 1(2,6) script_starts [of b cd bufs] by simp
    moreover have "Leave \<notin> set ops"
      using A script_stays [of b cd bufs] leave_to_come [OF 1(2)] 1(2) by (metis Un_iff set_append)
    ultimately show "clients s c = Some tx" using A 1(8) by simp
  qed
  with 1(1) consider
      (same) "registry_of (fst (f s)) = registry_of s" "clients (fst (f s)) = clients s"
        "commits cd c tx (b < length (scripts cd bufs)) (snd (f s)) S A"
    | (commit) a A' where "S = None" "A = a # A'" "registry_of (fst (f s)) = atom_spec cd c a (registry_of s)"
        "clients (fst (f s)) = sender_after c tx a (clients s)"
        "commits cd c tx (b < length (scripts cd bufs)) (snd (f s)) (atom_reply cd (registry_of s) a) A'"
    by auto
  then show ?thesis
  proof cases
    case same
    with 1 show ?thesis by (intro disjI1 conjI tracksI [where S = S and A = A and D = D]) auto
  next
    case commit
    with 1 have "tracks cd c tx bufs b (snd (f s)) (clients (fst (f s))) acc
        (said @ answer_list (atom_reply cd (registry_of s) a)) (ops @ [a]) op"
      by (intro tracksI [where S = "atom_reply cd (registry_of s) a" and A = A' and D = D])
        (auto simp: answer_list_def sender_after_def intro: prefix_order.trans)
    with commit show ?thesis by blast
  qed
qed

lemma tracks_Begin:
  assumes "tracks cd c tx bufs b Done m acc said ops op" and "b < length (scripts cd bufs)"
    and "commits cd c tx (Suc b < length (scripts cd bufs)) t None (scripts cd bufs ! b)"
  shows "tracks cd c tx bufs (Suc b) t m acc said ops op"
  using assms(1)
proof (cases rule: tracksE)
  case (1 S A D)
  with assms(2,3) show ?thesis
    by (intro tracksI [where S = None and A = "scripts cd bufs ! b" and D = D])
      (auto simp: script_upto_Suc)
qed

section \<open>Every schedule has a log\<close>

definition linear ::
    "codec \<Rightarrow> nat \<Rightarrow> (nat \<Rightarrow> ClientId) \<Rightarrow> (nat \<Rightarrow> ClientSender) \<Rightarrow> (nat \<Rightarrow> bytes list) \<Rightarrow> registry \<Rightarrow> log \<Rightarrow> session \<Rightarrow> bool" where
  "linear cd n cid tx bufs r0 log v \<longleftrightarrow>
     length (jobs (broker_pool v)) = n \<and> (\<forall>e \<in> set log. fst e < n) \<and>
     registry_of (shared (broker_pool v)) = replay cd cid log r0 \<and>
     (\<forall>i < n. tracks cd (cid i) (tx i) (bufs i) (begun v i) (jobs (broker_pool v) ! i) (clients (shared (broker_pool v)))
        (filter (tells_registry cd) (accepted (broker_pool v) (tx i))) (answers_to cd cid i log r0) (done_by i log)
        (rx_open (chans (broker_pool v) (tx i))))"

definition separate :: "nat \<Rightarrow> (nat \<Rightarrow> ClientId) \<Rightarrow> (nat \<Rightarrow> ClientSender) \<Rightarrow> bool" where
  "separate n cid tx \<longleftrightarrow> inj_on cid {..<n} \<and> inj_on tx {..<n}"

lemma separateD:
  assumes "separate n cid tx" and "i < n"
  shows "j < n \<Longrightarrow> cid i = cid j \<Longrightarrow> i = j" "j < n \<Longrightarrow> tx i = tx j \<Longrightarrow> i = j"
  using assms by (auto simp: separate_def dest: inj_onD)

lemma linearD:
  assumes "linear cd n cid tx bufs r0 log v"
  shows "length (jobs (broker_pool v)) = n" and "\<forall>e \<in> set log. fst e < n"
    and "registry_of (shared (broker_pool v)) = replay cd cid log r0"
    and "i < n \<Longrightarrow> tracks cd (cid i) (tx i) (bufs i) (begun v i) (jobs (broker_pool v) ! i) (clients (shared (broker_pool v)))
        (filter (tells_registry cd) (accepted (broker_pool v) (tx i))) (answers_to cd cid i log r0) (done_by i log)
        (rx_open (chans (broker_pool v) (tx i)))"
  using assms by (simp_all add: linear_def)

text \<open>A move of one connection: what it leaves to show.\<close>

lemma linearI_update:
  assumes lin: "linear cd n cid tx bufs r0 log v" and i: "i < n" and jobs': "jobs (broker_pool v') = (jobs (broker_pool v))[i := t]"
    and log': "\<forall>e \<in> set log'. fst e < n" "registry_of (shared (broker_pool v')) = replay cd cid log' r0"
    and own: "tracks cd (cid i) (tx i) (bufs i) (begun v' i) t (clients (shared (broker_pool v')))
        (filter (tells_registry cd) (accepted (broker_pool v') (tx i))) (answers_to cd cid i log' r0) (done_by i log')
        (rx_open (chans (broker_pool v') (tx i)))"
    and others: "\<And>j. j < n \<Longrightarrow> j \<noteq> i \<Longrightarrow> begun v' j = begun v j \<and>
        clients (shared (broker_pool v')) (cid j) = clients (shared (broker_pool v)) (cid j) \<and>
        filter (tells_registry cd) (accepted (broker_pool v') (tx j)) = filter (tells_registry cd) (accepted (broker_pool v) (tx j)) \<and>
        rx_open (chans (broker_pool v') (tx j)) = rx_open (chans (broker_pool v) (tx j)) \<and>
        answers_to cd cid j log' r0 = answers_to cd cid j log r0 \<and> done_by j log' = done_by j log"
  shows "linear cd n cid tx bufs r0 log' v'"
  unfolding linear_def
proof (intro conjI allI impI)
  show "length (jobs (broker_pool v')) = n" using lin jobs' by (simp add: linear_def)
  fix j assume j: "j < n"
  show "tracks cd (cid j) (tx j) (bufs j) (begun v' j) (jobs (broker_pool v') ! j) (clients (shared (broker_pool v')))
      (filter (tells_registry cd) (accepted (broker_pool v') (tx j))) (answers_to cd cid j log' r0) (done_by j log')
      (rx_open (chans (broker_pool v') (tx j)))"
  proof (cases "j = i")
    case True
    with own i jobs' linearD(1) [OF lin] show ?thesis by simp
  next
    case False
    with others [OF j False] jobs' show ?thesis by (auto intro: tracks_less [OF linearD(4) [OF lin j]])
  qed
qed (use log' in simp_all)

lemma linear_job_step:
  assumes sep: "separate n cid tx" and lin: "linear cd n cid tx bufs r0 log v"
    and i: "i < n" and step: "job_step i (broker_pool v) = Some p'"
  shows "\<exists>log'. linear cd n cid tx bufs r0 log' (v\<lparr>broker_pool := p'\<rparr>) \<and> prefix log log'"
proof -
  let ?p = "broker_pool v" and ?v' = "v\<lparr>broker_pool := p'\<rparr>"
  note own = linearD(4) [OF lin i] and reg = linearD(2,3) [OF lin] and rx = job_step_rx_open [OF step]
  have same: ?thesis if "jobs p' = (jobs ?p)[i := t]" "shared p' = shared ?p"
      "\<And>j. j < n \<Longrightarrow> j \<noteq> i \<Longrightarrow> filter (tells_registry cd) (accepted p' (tx j)) = filter (tells_registry cd) (accepted ?p (tx j))"
      "tracks cd (cid i) (tx i) (bufs i) (begun v i) t (clients (shared ?p))
        (filter (tells_registry cd) (accepted p' (tx i))) (answers_to cd cid i log r0) (done_by i log) (rx_open (chans ?p (tx i)))" for t
    using that reg rx by (intro exI [of _ log] conjI linearI_update [OF lin i, of ?v' t]) simp_all
  have quiet: ?thesis if "jobs p' = (jobs ?p)[i := t]" "shared p' = shared ?p" "accepted p' = accepted ?p" "jobs ?p ! i \<noteq> Done"
      "\<And>live S A. commits cd (cid i) (tx i) live (jobs ?p ! i) S A \<Longrightarrow> commits cd (cid i) (tx i) live t S A" for t
    using that by (intro same [of t]) (auto intro: tracks_next [OF own])
  from step show ?thesis
  proof (cases rule: job_stepE)
    case (Lock m t)
    then show ?thesis by (intro quiet [of t]) (simp_all add: accepted_def fun_eq_iff)
  next
    case (Unlock m t)
    then show ?thesis by (intro quiet [of t]) (simp_all add: accepted_def fun_eq_iff)
  next
    case (Spawn c t)
    then show ?thesis by (intro quiet [of t]) (simp_all add: accepted_def fun_eq_iff)
  next
    case (Send tx' m t)
    let ?went = "fst (try_send m (chans ?p tx')) = SendOk"
    have acc: "accepted p' x = accepted ?p x @ (if tx' = x \<and> ?went then [m] else [])" for x
      by (simp add: Send accepted_def try_send_def)
    from own Send(1) have other: "tells_registry cd m \<Longrightarrow> tx' = tx i" by (auto simp: tracks_def)
    have went: "rx_open (chans ?p (tx i)) \<and> tx' = tx i \<longrightarrow> ?went" using Send(2) by (auto simp: try_send_def split: if_splits)
    show ?thesis
    proof (rule same [of t])
      show "jobs p' = (jobs ?p)[i := t]" "shared p' = shared ?p" by (simp_all add: Send)
      show "filter (tells_registry cd) (accepted p' (tx j)) = filter (tells_registry cd) (accepted ?p (tx j))" if "j < n" "j \<noteq> i" for j
        using other separateD(2) [OF sep i] that by (auto simp: acc)
      show "tracks cd (cid i) (tx i) (bufs i) (begun v i) t (clients (shared ?p))
          (filter (tells_registry cd) (accepted p' (tx i))) (answers_to cd cid i log r0) (done_by i log) (rx_open (chans ?p (tx i)))"
        using own [unfolded Send(1)] by (rule tracks_Send [where went = ?went]) (use went in \<open>auto simp: acc\<close>)
    qed
  next
    case (Sync f)
    let ?s = "shared ?p"
    have acc: "accepted p' = accepted ?p" by (simp add: Sync accepted_def fun_eq_iff)
    from tracks_Sync [OF own [unfolded Sync(1)]] show ?thesis
    proof (elim disjE exE conjE)
      assume "registry_of (fst (f ?s)) = registry_of ?s" "clients (fst (f ?s)) = clients ?s"
        "tracks cd (cid i) (tx i) (bufs i) (begun v i) (snd (f ?s)) (clients (fst (f ?s)))
          (filter (tells_registry cd) (accepted ?p (tx i))) (answers_to cd cid i log r0) (done_by i log) (rx_open (chans ?p (tx i)))"
      with Sync reg rx acc show ?thesis
        by (intro exI [of _ log] conjI linearI_update [OF lin i, of ?v' "snd (f ?s)"]) simp_all
    next
      fix a
      assume a: "registry_of (fst (f ?s)) = atom_spec cd (cid i) a (registry_of ?s)"
          "clients (fst (f ?s)) = sender_after (cid i) (tx i) a (clients ?s)"
        and t: "tracks cd (cid i) (tx i) (bufs i) (begun v i) (snd (f ?s)) (clients (fst (f ?s)))
          (filter (tells_registry cd) (accepted ?p (tx i)))
          (answers_to cd cid i log r0 @ answer_list (atom_reply cd (registry_of ?s) a)) (done_by i log @ [a])
          (rx_open (chans ?p (tx i)))"
      have "clients (fst (f ?s)) (cid j) = clients ?s (cid j)" if "j < n" "j \<noteq> i" for j
        using separateD(1) [OF sep i, of j] that a(2) by (cases "cid j = cid i") (simp_all add: sender_after_def)
      with Sync reg rx acc i a t show ?thesis
        by (intro exI [of _ "log @ [(i, a)]"] conjI linearI_update [OF lin i, of ?v' "snd (f ?s)"])
          (auto simp: log_snoc answers_snoc)
    qed
  qed
qed

abbreviation id_of :: "(string \<times> ClientSender \<times> reader) list \<Rightarrow> nat \<Rightarrow> ClientId" where
  "id_of cs i \<equiv> ClientId (fst (cs ! i))"

abbreviation tx_of :: "(string \<times> ClientSender \<times> reader) list \<Rightarrow> nat \<Rightarrow> ClientSender" where
  "tx_of cs i \<equiv> fst (snd (cs ! i))"

abbreviation packets_of :: "(string \<times> ClientSender \<times> reader) list \<Rightarrow> nat \<Rightarrow> bytes list" where
  "packets_of cs i \<equiv> fst (read_all (snd (snd (cs ! i))))"

text \<open>A move that changes neither the maps nor the tasks, and takes no reply from an open channel.\<close>

lemma linear_fewer:
  assumes lin: "linear cd n cid tx bufs r0 log v" and "shared p' = shared (broker_pool v)" and "jobs p' = jobs (broker_pool v)"
    and fewer: "\<And>x. subseq (accepted p' x) (accepted (broker_pool v) x) \<and>
      (rx_open (chans p' x) \<longrightarrow> rx_open (chans (broker_pool v) x) \<and> accepted p' x = accepted (broker_pool v) x)"
  shows "linear cd n cid tx bufs r0 log (v\<lparr>broker_pool := p'\<rparr>)"
  unfolding linear_def
proof (intro conjI allI impI)
  fix i assume "i < n"
  then show "tracks cd (cid i) (tx i) (bufs i) (begun (v\<lparr>broker_pool := p'\<rparr>) i) (jobs (broker_pool (v\<lparr>broker_pool := p'\<rparr>)) ! i)
        (clients (shared (broker_pool (v\<lparr>broker_pool := p'\<rparr>))))
        (filter (tells_registry cd) (accepted (broker_pool (v\<lparr>broker_pool := p'\<rparr>)) (tx i)))
        (answers_to cd cid i log r0) (done_by i log) (rx_open (chans (broker_pool (v\<lparr>broker_pool := p'\<rparr>)) (tx i)))"
    using assms(2,3) fewer [of "tx i"] by (auto intro: tracks_less [OF linearD(4) [OF lin]] subseq_filter)
qed (use assms linearD [OF lin] in simp_all)

lemma linear_move:
  assumes "separate n cid tx" and lin: "linear cd n cid tx bufs r0 log v" and step: "pool_move mv (broker_pool v) = Some p'"
  shows "\<exists>log'. linear cd n cid tx bufs r0 log' (v\<lparr>broker_pool := p'\<rparr>) \<and> prefix log log'"
proof (cases mv)
  case (Run i)
  with step linearD(1) [OF lin] have "i < n" "job_step i (broker_pool v) = Some p'" by (simp_all split: if_splits)
  then show ?thesis using linear_job_step [OF assms(1,2)] by blast
next
  case (Deliver x)
  with step obtain m c where c: "recv (chans (broker_pool v) x) = Some (m, c)" and
    p': "p' = broker_pool v\<lparr>chans := (chans (broker_pool v))(x := c), written := (written (broker_pool v))(x := written (broker_pool v) x @ [m])\<rparr>"
    by (auto split: if_splits option.splits)
  from c have "queue (chans (broker_pool v) x) = m # queue c" "rx_open c = rx_open (chans (broker_pool v) x)"
    by (auto dest: mpsc.pop_some recv_places)
  then show ?thesis by (intro exI [of _ log] conjI linear_fewer [OF lin]) (simp_all add: p' accepted_def)
next
  case (WriterEnds x)
  with step show ?thesis by (intro exI [of _ log] conjI linear_fewer [OF lin]) (auto simp: accepted_def)
next
  case (CloseConn i)
  with step show ?thesis
    by (intro exI [of _ log] conjI linear_fewer [OF lin]) (auto simp: accepted_def close_rx_def split: if_splits)
qed

lemma linear_step:
  assumes kept: "replies_kept cd" and sep: "separate (length cs) (id_of cs) (tx_of cs)"
    and lin: "linear cd (length cs) (id_of cs) (tx_of cs) (packets_of cs) r0 log v"
    and step: "session_step cd it cs mv v = Some v'"
  shows "\<exists>log'. linear cd (length cs) (id_of cs) (tx_of cs) (packets_of cs) r0 log' v' \<and> prefix log log'"
proof -
  have pool: ?thesis if "pool_move mv' (broker_pool v) = Some p'" "v' = v\<lparr>broker_pool := p'\<rparr>" for mv' p'
    using linear_move [OF sep lin that(1)] that(2) by blast
  show ?thesis
  proof (cases mv)
    case (Begin i)
    obtain u tx r where ci: "cs ! i = (u, tx, r)" by (cases "cs ! i")
    from step Begin have i: "i < length cs" "jobs (broker_pool v) ! i = Done" "begun v i < length (activities cd it (cs ! i))"
      and v': "v' = v\<lparr>broker_pool := (broker_pool v)\<lparr>jobs := (jobs (broker_pool v))[i := activities cd it (cs ! i) ! begun v i]\<rparr>,
                   begun := (begun v)(i := Suc (begun v i))\<rparr>"
      by (auto split: if_splits)
    have "tracks cd (id_of cs i) (tx_of cs i) (packets_of cs i) (Suc (begun v i)) (activities cd it (cs ! i) ! begun v i)
        (clients (shared (broker_pool v))) (filter (tells_registry cd) (accepted (broker_pool v) (tx_of cs i)))
        (answers_to cd (id_of cs) i log r0) (done_by i log) (rx_open (chans (broker_pool v) (tx_of cs i)))"
      using linearD(4) [OF lin i(1)] i(2,3) commits_activity [OF kept, of "begun v i" it u tx r]
      by (intro tracks_Begin) (simp_all add: ci length_scripts [of cd r it u tx])
    with i linearD(2,3) [OF lin] show ?thesis
      by (intro exI [of _ log] conjI linearI_update [OF lin i(1), of v' "activities cd it (cs ! i) ! begun v i"])
        (simp_all add: v' accepted_def)
  next
    case (Go mv')
    with step obtain p' where "pool_move mv' (broker_pool v) = Some p'" "v' = v\<lparr>broker_pool := p'\<rparr>"
      by (cases mv') (auto simp del: pool_move.simps split: if_splits)
    then show ?thesis by (rule pool)
  qed
qed

lemma linear_run:
  assumes "replies_kept cd" and "separate (length cs) (id_of cs) (tx_of cs)"
    and "linear cd (length cs) (id_of cs) (tx_of cs) (packets_of cs) r0 log v" and "session_run cd it cs mvs v = Some v'"
  shows "\<exists>logs. logs 0 = log \<and> (\<forall>m < length mvs. prefix (logs m) (logs (Suc m))) \<and>
     (\<forall>m \<le> length mvs. \<exists>w. session_run cd it cs (take m mvs) v = Some w \<and>
        linear cd (length cs) (id_of cs) (tx_of cs) (packets_of cs) r0 (logs m) w)"
  using assms(3,4)
proof (induction mvs arbitrary: log v)
  case Nil
  then show ?case by auto
next
  case (Cons mv mvs)
  from Cons.prems(2) obtain v1 where v1: "session_step cd it cs mv v = Some v1" "session_run cd it cs mvs v1 = Some v'"
    by (auto split: option.splits)
  from linear_step [OF assms(1,2) Cons.prems(1) v1(1)] obtain log1 where
    log1: "linear cd (length cs) (id_of cs) (tx_of cs) (packets_of cs) r0 log1 v1" "prefix log log1" by blast
  from Cons.IH [OF log1(1) v1(2)] obtain logs where logs: "logs 0 = log1" "\<forall>m < length mvs. prefix (logs m) (logs (Suc m))"
    "\<forall>m \<le> length mvs. \<exists>w. session_run cd it cs (take m mvs) v1 = Some w \<and>
        linear cd (length cs) (id_of cs) (tx_of cs) (packets_of cs) r0 (logs m) w" by blast
  show ?case
  proof (intro exI [of _ "case_nat log logs"] conjI allI impI)
    fix m assume "m < length (mv # mvs)"
    then show "prefix (case_nat log logs m) (case_nat log logs (Suc m))"
      using log1(2) logs(1,2) by (cases m) auto
  next
    fix m assume "m \<le> length (mv # mvs)"
    then show "\<exists>w. session_run cd it cs (take m (mv # mvs)) v = Some w \<and>
        linear cd (length cs) (id_of cs) (tx_of cs) (packets_of cs) r0 (case_nat log logs m) w"
      using Cons.prems(1) logs(3) v1(1) by (cases m) auto
  qed simp
qed

text \<open>
  C3: the broker's registry is linearizable. Any number of connections arrive, handle their packets and leave,
  one handler after the other on each, under any schedule of the tasks, the writers and the ends of the
  writers. At every moment \<open>m\<close> of the run there is a log of atomic operations, and the log of the next moment
  is this one, or longer: what has entered it stays, and nothing enters before it. At every moment the
  registry, its clients, owners, subscriptions and open calls, is what the specification makes of the log.
  The log of a connection runs through its arrival, the packets that concern the registry in the order of the
  stream, and its leaving: it has all the operations of the activities that were finished and none of one
  that has not begun, so that an operation enters the log between the begin and the end of its handler, and a
  handler that ended before another began comes first. The replies that the client was given, written to it
  or waiting in its channel, that its object
  is registered, that it is subscribed, whether an object is there, are those of the specification at the
  operations of the log so far: no reply comes before its operation, each comes once and in the order, and as
  long as the channel of the connection is open at most the last is still to come, and none when no
  handler is running. (When the writer has ended and the channel is dropped replies are lost, and the others
  remain.)
\<close>

theorem concurrent_registry_is_linearizable:
  assumes "replies_kept cd" and "distinct (map fst cs)" and "distinct (map (fst \<circ> snd) cs)"
    and "session_run cd it cs mvs (session_start txs s (length cs)) = Some v"
  shows "\<exists>logs. (\<forall>m < length mvs. prefix (logs m) (logs (Suc m))) \<and>
     (\<forall>m \<le> length mvs. \<exists>w. session_run cd it cs (take m mvs) (session_start txs s (length cs)) = Some w \<and>
        (\<forall>e \<in> set (logs m). fst e < length cs) \<and>
        registry_of (shared (broker_pool w)) = replay cd (id_of cs) (logs m) (registry_of s) \<and>
        (\<forall>i < length cs.
           let ops = done_by i (logs m); script = script_upto cd (packets_of cs i);
               due = answers_to cd (id_of cs) i (logs m) (registry_of s);
               got = filter (tells_registry cd) (accepted (broker_pool w) (tx_of cs i))
           in prefix (script (begun w i - 1)) ops \<and> prefix ops (script (begun w i)) \<and>
              (jobs (broker_pool w) ! i = Done \<longrightarrow> ops = script (begun w i)) \<and> subseq got due \<and>
              (rx_open (chans (broker_pool w) (tx_of cs i)) \<longrightarrow>
                 prefix got due \<and> length due \<le> Suc (length got) \<and>
                 (jobs (broker_pool w) ! i = Done \<longrightarrow> got = due))))"
proof -
  let ?v0 = "session_start txs s (length cs)"
  have sep: "separate (length cs) (id_of cs) (tx_of cs)"
    using assms(2,3) by (auto simp: separate_def inj_on_def distinct_conv_nth)
  have "linear cd (length cs) (id_of cs) (tx_of cs) (packets_of cs) (registry_of s) [] ?v0"
    unfolding linear_def
    by (auto simp: session_start_def start_pool_def replay_def done_by_def accepted_def new_channel_def script_upto_def
        answer_list_def intro!: tracksI [where S = None and A = "[]" and D = "[]"])
  from linear_run [OF assms(1) sep this assms(4)] obtain logs where
    logs: "\<forall>m < length mvs. prefix (logs m) (logs (Suc m))"
      "\<forall>m \<le> length mvs. \<exists>w. session_run cd it cs (take m mvs) ?v0 = Some w \<and>
        linear cd (length cs) (id_of cs) (tx_of cs) (packets_of cs) (registry_of s) (logs m) w" by blast
  have here: "prefix (script_upto cd b (k - 1)) ops \<and> prefix ops (script_upto cd b k) \<and>
      (t = Done \<longrightarrow> ops = script_upto cd b k) \<and> subseq got due \<and>
      (op \<longrightarrow> prefix got due \<and> length due \<le> Suc (length got) \<and> (t = Done \<longrightarrow> got = due))"
    if "tracks cd c tx b k t tb got due ops op" for c tx b k t tb got due ops op
    using that
  proof (cases rule: tracksE)
    case (1 S A D)
    then have "prefix ops (script_upto cd b k)" by (metis prefixI)
    with 1 show ?thesis by (auto simp: answer_list_def split: option.split)
  qed
  show ?thesis
  proof (intro exI [of _ logs] conjI logs(1) allI impI)
    fix m assume "m \<le> length mvs"
    with logs(2) obtain w where w: "session_run cd it cs (take m mvs) ?v0 = Some w"
      "linear cd (length cs) (id_of cs) (tx_of cs) (packets_of cs) (registry_of s) (logs m) w" by blast
    then show "\<exists>w. session_run cd it cs (take m mvs) ?v0 = Some w \<and>
        (\<forall>e \<in> set (logs m). fst e < length cs) \<and>
        registry_of (shared (broker_pool w)) = replay cd (id_of cs) (logs m) (registry_of s) \<and>
        (\<forall>i < length cs.
           let ops = done_by i (logs m); script = script_upto cd (packets_of cs i);
               due = answers_to cd (id_of cs) i (logs m) (registry_of s);
               got = filter (tells_registry cd) (accepted (broker_pool w) (tx_of cs i))
           in prefix (script (begun w i - 1)) ops \<and> prefix ops (script (begun w i)) \<and>
              (jobs (broker_pool w) ! i = Done \<longrightarrow> ops = script (begun w i)) \<and> subseq got due \<and>
              (rx_open (chans (broker_pool w) (tx_of cs i)) \<longrightarrow>
                 prefix got due \<and> length due \<le> Suc (length got) \<and>
                 (jobs (broker_pool w) ! i = Done \<longrightarrow> got = due)))"
      unfolding Let_def using linearD(2,3) [OF w(2)] here [OF linearD(4) [OF w(2)]] by (intro exI [of _ w]) simp
  qed
qed

text \<open>A worker that registers an object, and a client that asks for it between the registration and its reply.\<close>

definition asking_codec :: codec where
  "asking_codec =
     \<lparr>req_to_vec = (\<lambda>r. Some [0]),
      resp_to_vec = (\<lambda>r.
        if r = HasObjectResult ''math'' True then Some [13] else if r = HasObjectResult ''math'' False then Some [14]
        else if r = Registered ''math'' then Some [15] else None),
      req_from_slice = (\<lambda>b.
        if b = [2] then Some (RegisterObject ''math'') else if b = [6] then Some (HasObject ''math'') else None),
      resp_from_slice = (\<lambda>b.
        if b = [13] then Some (HasObjectResult ''math'' True) else if b = [14] then Some (HasObjectResult ''math'' False)
        else if b = [15] then Some (Registered ''math'') else None)\<rparr>"

definition asking_connections :: "(string \<times> ClientSender \<times> reader) list" where
  "asking_connections =
     [(''w'', 1, \<lparr>avail = concat (map frame [[2]]), ends = None\<rparr>), (''c'', 2, \<lparr>avail = concat (map frame [[6]]), ends = None\<rparr>)]"

definition asking_schedule :: "session_move list" where
  "asking_schedule =
     [Begin 0, Go (Run 0), Begin 1, Go (Run 0), Go (Run 0), Go (Run 1), Go (Run 1), Go (Run 1), Begin 0, Begin 1,
      Go (Run 0), Go (Run 0), Go (Run 0), Go (Run 1), Go (Run 1), Go (Run 1), Go (Run 1), Go (Run 1), Go (Run 1),
      Go (Run 1)] @ replicate 7 (Go (Run 0))"

lemma asked_packets:
  "fst (read_all \<lparr>avail = concat (map frame [[2]]), ends = None\<rparr>) = [[2]]"
  "fst (read_all \<lparr>avail = concat (map frame [[6]]), ends = None\<rparr>) = [[6]]"
  using read_all_concat [of "[[2]]" "[]" None] read_all_concat [of "[[6]]" "[]" None]
  by (simp_all add: read_all_empty packet_fits_def BUF_SIZE_eq)

lemma asked_codec:
  "decode_packet asking_codec [2] = InRequest (RegisterObject ''math'')" "decode_packet asking_codec [6] = InRequest (HasObject ''math'')"
  "decode_packet asking_codec [13] = InResponse (HasObjectResult ''math'' True)"
  "decode_packet asking_codec [15] = InResponse (Registered ''math'')"
  "resp_to_vec asking_codec (HasObjectResult ''math'' True) = Some [13]" "resp_to_vec asking_codec (Registered ''math'') = Some [15]"
  by (simp_all add: decode_packet_def asking_codec_def)

theorem concurrent_registry_is_linearizable_witness:
  "\<exists>v log. session_run asking_codec demo_order asking_connections asking_schedule (session_start id (empty_state Map.empty) 2) = Some v \<and>
     accepted (broker_pool v) 1 = [Outgoing [15]] \<and> accepted (broker_pool v) 2 = [Outgoing [13]] \<and>
     jobs (broker_pool v) = [Done, Done] \<and>
     registry_of (shared (broker_pool v)) = replay asking_codec (id_of asking_connections) log (registry_of (empty_state Map.empty)) \<and>
     done_by 0 log = [Arrive, Handle [2]] \<and> done_by 1 log = [Arrive, Handle [6]] \<and>
     answers_to asking_codec (id_of asking_connections) 0 log (registry_of (empty_state Map.empty)) = [Outgoing [15]] \<and>
     answers_to asking_codec (id_of asking_connections) 1 log (registry_of (empty_state Map.empty)) = [Outgoing [13]]"
proof -
  let ?v0 = "session_start id (empty_state Map.empty) 2"
  have kept: "replies_kept asking_codec"
    by (auto simp: replies_kept_def tells_registry_def asking_codec_def decode_packet_def split: if_splits)
  have "map_option (\<lambda>v. (accepted (broker_pool v) 1, accepted (broker_pool v) 2, begun v 0, begun v 1, jobs (broker_pool v),
          rx_open (chans (broker_pool v) 1), rx_open (chans (broker_pool v) 2)))
        (session_run asking_codec demo_order asking_connections asking_schedule ?v0) =
      Some ([Outgoing [15]], [Outgoing [13]], 2, 2, [Done, Done], True, True)"
    using asked_packets asked_codec
    by (simp add: numeral_eq_Suc asking_connections_def asking_schedule_def session_start_def start_pool_def job_step_def
        activities_def spawn_client_def dispatch_def handle_register_object_def handle_has_object_def
        send_to_client_def Let_def with_lock_def empty_state_def try_send_def new_channel_def client_channel_places_def accepted_def)
  then obtain v where v: "session_run asking_codec demo_order asking_connections asking_schedule ?v0 = Some v"
      "accepted (broker_pool v) 1 = [Outgoing [15]]" "accepted (broker_pool v) 2 = [Outgoing [13]]" "begun v 0 = 2" "begun v 1 = 2"
      "jobs (broker_pool v) = [Done, Done]" "rx_open (chans (broker_pool v) 1)" "rx_open (chans (broker_pool v) 2)"
    by auto
  have conns: "length asking_connections = 2" "tx_of asking_connections 0 = 1" "tx_of asking_connections 1 = 2"
      "packets_of asking_connections 0 = [[2]]" "packets_of asking_connections 1 = [[6]]"
    using asked_packets by (simp_all add: asking_connections_def)
  have scripts: "script_upto asking_codec [[2]] 2 = [Arrive, Handle [2]]" "script_upto asking_codec [[6]] 2 = [Arrive, Handle [6]]"
    by (simp_all add: script_upto_def scripts_def packet_atoms_def noticed_def asked_codec numeral_2_eq_2)
  have told: "filter (tells_registry asking_codec) [Outgoing [15]] = [Outgoing [15]]"
      "filter (tells_registry asking_codec) [Outgoing [13]] = [Outgoing [13]]"
    by (simp_all add: tells_registry_def asked_codec)
  have "distinct (map fst asking_connections)" "distinct (map (fst \<circ> snd) asking_connections)"
    by (simp_all add: asking_connections_def)
  from concurrent_registry_is_linearizable [OF kept this, of demo_order asking_schedule id "empty_state Map.empty" v] v(1) conns(1)
  obtain logs where "\<forall>m \<le> length asking_schedule. \<exists>w. session_run asking_codec demo_order asking_connections (take m asking_schedule) ?v0 = Some w \<and>
        registry_of (shared (broker_pool w)) = replay asking_codec (id_of asking_connections) (logs m) (registry_of (empty_state Map.empty)) \<and>
        (\<forall>i < 2. jobs (broker_pool w) ! i = Done \<longrightarrow>
           done_by i (logs m) = script_upto asking_codec (packets_of asking_connections i) (begun w i) \<and>
           (rx_open (chans (broker_pool w) (tx_of asking_connections i)) \<longrightarrow>
              filter (tells_registry asking_codec) (accepted (broker_pool w) (tx_of asking_connections i)) =
              answers_to asking_codec (id_of asking_connections) i (logs m) (registry_of (empty_state Map.empty))))"
    unfolding Let_def by (auto simp del: One_nat_def) metis
  from this [rule_format, of "length asking_schedule"] v(1) obtain log where
    log: "registry_of (shared (broker_pool v)) = replay asking_codec (id_of asking_connections) log (registry_of (empty_state Map.empty))"
      "\<forall>i < 2. jobs (broker_pool v) ! i = Done \<longrightarrow>
           done_by i log = script_upto asking_codec (packets_of asking_connections i) (begun v i) \<and>
           (rx_open (chans (broker_pool v) (tx_of asking_connections i)) \<longrightarrow>
              filter (tells_registry asking_codec) (accepted (broker_pool v) (tx_of asking_connections i)) =
              answers_to asking_codec (id_of asking_connections) i log (registry_of (empty_state Map.empty)))"
    by (auto simp del: One_nat_def)
  from log(2) [rule_format, of 0] log(2) [rule_format, of 1] log(1) v conns scripts told show ?thesis
    by (intro exI [of _ v] exI [of _ log]) simp
qed

end
