(* ===== verification/Lock_Order_Test.thy ===== *)
theory Lock_Order_Test
  imports Interleaving
begin

text \<open>
  The unit test of \<^verbatim>\<open>src/src/broker.rs\<close>, \<open>concurrent_lock_order_paths\<close>: fifty callers run
  \<open>handle_call\<close> at once, a worker answers each call through \<open>handle_response\<close>, and both channels
  have eight places. The test runs one schedule; here it passes under all of them.
\<close>

section \<open>The test\<close>

definition test_channel_places :: nat where "test_channel_places = 8"
definition calls_n :: nat where "calls_n = 50"

text \<open>The senders that the test makes first and second.\<close>

definition worker_tx :: ClientSender where [simp]: "worker_tx = 0"
definition caller_tx :: ClientSender where [simp]: "caller_tx = Suc 0"

definition test_server :: "ClientId \<Rightarrow> ClientId \<Rightarrow> ServerState" where
  "test_server worker_id caller_id =
     (empty_state Map.empty)\<lparr>clients := [worker_id \<mapsto> worker_tx, caller_id \<mapsto> caller_tx], objects := [''obj'' \<mapsto> worker_id]\<rparr>"

definition test_caller :: "codec \<Rightarrow> ClientId \<Rightarrow> CallId \<Rightarrow> task" where
  "test_caller cd caller_id call_id = handle_call cd call_id ''obj'' ''echo'' (JObject []) caller_id"

text \<open>What the worker's task does with a message before it receives the next.\<close>

fun test_worker :: "codec \<Rightarrow> ClientId \<Rightarrow> ClientMsg \<Rightarrow> task" where
  "test_worker cd worker_id (Outgoing bytes) =
     (case req_from_slice cd bytes of
        Some (Call call_id object_name _ _) \<Rightarrow>
          handle_response cd (Result call_id object_name (JString ''ok'')) worker_id
      | _ \<Rightarrow> Done)"
| "test_worker cd worker_id ShutdownMsg = Done"

fun test_counts :: "codec \<Rightarrow> ClientMsg \<Rightarrow> bool" where
  "test_counts cd (Outgoing bytes) =
     (case resp_from_slice cd bytes of Some (Result _ _ v) \<Rightarrow> v = JString ''ok'' | _ \<Rightarrow> False)"
| "test_counts cd ShutdownMsg = False"

text \<open>
  The tasks of the callers and, behind them, the worker's task, \<open>Done\<close> while it waits for a message; and
  the collector, which stops when it has got \<open>goal\<close> answers.
\<close>

record lock_test =
  tasks :: pool
  got :: nat

definition lock_test_start :: "codec \<Rightarrow> ClientId \<Rightarrow> ClientId \<Rightarrow> CallId list \<Rightarrow> lock_test" where
  "lock_test_start cd worker_id caller_id ids =
     \<lparr>tasks = (start_pool id (test_server worker_id caller_id) (map (test_caller cd caller_id) ids @ [Done]))
        \<lparr>chans := (\<lambda>_. new_channel test_channel_places)\<rparr>,
      got = 0\<rparr>"

datatype test_move = Step nat | WorkerRecv | Collect

fun test_step :: "codec \<Rightarrow> ClientId \<Rightarrow> nat \<Rightarrow> test_move \<Rightarrow> lock_test \<Rightarrow> lock_test option" where
  "test_step cd worker_id goal (Step i) t =
     (if i < length (jobs (tasks t)) then map_option (\<lambda>p. t\<lparr>tasks := p\<rparr>) (job_step i (tasks t)) else None)"
| "test_step cd worker_id goal WorkerRecv t =
     (let p = tasks t; i = length (jobs p) - 1
      in case (jobs p ! i, recv (chans p worker_tx)) of
           (Done, Some (msg, c)) \<Rightarrow>
             Some (t\<lparr>tasks := p\<lparr>chans := (chans p)(worker_tx := c), jobs := (jobs p)[i := test_worker cd worker_id msg]\<rparr>\<rparr>)
         | _ \<Rightarrow> None)"
| "test_step cd worker_id goal Collect t =
     (let p = tasks t
      in if goal \<le> got t then None
         else case recv (chans p caller_tx) of
           None \<Rightarrow> None
         | Some (msg, c) \<Rightarrow>
             Some (t\<lparr>tasks := p\<lparr>chans := (chans p)(caller_tx := c)\<rparr>,
                     got := (if test_counts cd msg then Suc (got t) else got t)\<rparr>))"

fun test_run :: "codec \<Rightarrow> ClientId \<Rightarrow> nat \<Rightarrow> test_move list \<Rightarrow> lock_test \<Rightarrow> lock_test option" where
  "test_run cd w goal [] t = Some t"
| "test_run cd w goal (mv # mvs) t =
     (case test_step cd w goal mv t of None \<Rightarrow> None | Some t' \<Rightarrow> test_run cd w goal mvs t')"

section \<open>Callers and worker\<close>

definition test_env :: "ClientId \<Rightarrow> ClientId \<Rightarrow> ServerState \<Rightarrow> bool" where
  "test_env w c s \<longleftrightarrow> clients s = [w \<mapsto> worker_tx, c \<mapsto> caller_tx] \<and> objects s ''obj'' = Some w"

lemma test_env_update [simp]: "test_env w c (s\<lparr>calls := m\<rparr>) = test_env w c s"
  by (simp add: test_env_def)

text \<open>
  \<open>asks k r t\<close>: the task of a caller has \<open>k\<close> moves to make, the last of which sends its call \<open>b\<close> to the
  worker, and will have recorded the call by then, as it has already if \<open>r\<close>.
\<close>

primrec asks :: "ClientId \<Rightarrow> ClientId \<Rightarrow> CallId \<Rightarrow> bytes \<Rightarrow> task \<Rightarrow> nat \<Rightarrow> bool \<Rightarrow> bool" where
  "asks w c ci b Done k r \<longleftrightarrow> False"
| "asks w c ci b (Lock m t) k r \<longleftrightarrow> (\<exists>k'. k = Suc k' \<and> asks w c ci b t k' r)"
| "asks w c ci b (Unlock m t) k r \<longleftrightarrow> (\<exists>k'. k = Suc k' \<and> asks w c ci b t k' r)"
| "asks w c ci b (Sync f) k r \<longleftrightarrow>
     (\<exists>k'. k = Suc k' \<and>
       (\<forall>s. test_env w c s \<longrightarrow>
         (\<lambda>(s', t). test_env w c s' \<and>
            (calls s' = calls s \<and> t k' r \<or> \<not> r \<and> calls s' = (calls s)(ci \<mapsto> (c, caller_tx)) \<and> t k' True))
         (map_prod id (asks w c ci b) (f s))))"
| "asks w c ci b (Send tx m t) k r \<longleftrightarrow> k = 1 \<and> r \<and> tx = worker_tx \<and> m = Outgoing b \<and> t = Done"
| "asks w c ci b (Spawn x t) k r \<longleftrightarrow> False"

text \<open>\<open>gives k f t\<close>: the worker's task sends the answer \<open>b\<close> to the call, which it has taken out of the table if \<open>f\<close>.\<close>

primrec gives :: "ClientId \<Rightarrow> ClientId \<Rightarrow> CallId \<Rightarrow> bytes \<Rightarrow> task \<Rightarrow> nat \<Rightarrow> bool \<Rightarrow> bool" where
  "gives w c ci b Done k f \<longleftrightarrow> False"
| "gives w c ci b (Lock m t) k f \<longleftrightarrow> (\<exists>k'. k = Suc k' \<and> gives w c ci b t k' f)"
| "gives w c ci b (Unlock m t) k f \<longleftrightarrow> (\<exists>k'. k = Suc k' \<and> gives w c ci b t k' f)"
| "gives w c ci b (Sync g) k f \<longleftrightarrow>
     (\<exists>k'. k = Suc k' \<and>
       (\<forall>s. test_env w c s \<longrightarrow> (\<not> f \<longrightarrow> calls s ci = Some (c, caller_tx)) \<longrightarrow>
         (\<lambda>(s', t). test_env w c s' \<and>
            (calls s' = calls s \<and> t k' f \<or> \<not> f \<and> calls s' = (calls s)(ci := None) \<and> t k' True))
         (map_prod id (gives w c ci b) (g s))))"
| "gives w c ci b (Send tx m t) k f \<longleftrightarrow> k = 1 \<and> f \<and> tx = caller_tx \<and> m = Outgoing b \<and> t = Done"
| "gives w c ci b (Spawn x t) k f \<longleftrightarrow> False"

lemma asks_Sync [simp]:
  "asks w c ci b (Sync f) k r \<longleftrightarrow>
     (\<exists>k'. k = Suc k' \<and>
       (\<forall>s. test_env w c s \<longrightarrow> test_env w c (fst (f s)) \<and>
          (calls (fst (f s)) = calls s \<and> asks w c ci b (snd (f s)) k' r \<or>
           \<not> r \<and> calls (fst (f s)) = (calls s)(ci \<mapsto> (c, caller_tx)) \<and> asks w c ci b (snd (f s)) k' True)))"
  by (simp add: split_beta)

lemma gives_Sync [simp]:
  "gives w c ci b (Sync g) k f \<longleftrightarrow>
     (\<exists>k'. k = Suc k' \<and>
       (\<forall>s. test_env w c s \<longrightarrow> (\<not> f \<longrightarrow> calls s ci = Some (c, caller_tx)) \<longrightarrow> test_env w c (fst (g s)) \<and>
          (calls (fst (g s)) = calls s \<and> gives w c ci b (snd (g s)) k' f \<or>
           \<not> f \<and> calls (fst (g s)) = (calls s)(ci := None) \<and> gives w c ci b (snd (g s)) k' True)))"
  by (simp add: split_beta)

declare asks.simps(4) [simp del] gives.simps(4) [simp del]

definition call_coded :: "codec \<Rightarrow> CallId \<Rightarrow> bytes \<Rightarrow> bytes \<Rightarrow> bool" where
  "call_coded cd ci b rb \<longleftrightarrow>
     req_to_vec cd (Call ci ''obj'' ''echo'' (JObject [])) = Some b \<and>
     req_from_slice cd b = Some (Call ci ''obj'' ''echo'' (JObject [])) \<and>
     resp_to_vec cd (Result ci ''obj'' (JString ''ok'')) = Some rb \<and>
     resp_from_slice cd rb = Some (Result ci ''obj'' (JString ''ok''))"

lemma test_caller_asks:
  assumes "call_coded cd ci b rb" and "w \<noteq> c"
  shows "asks w c ci b (test_caller cd c ci) 9 False"
  using assms
  by (auto simp: call_coded_def test_caller_def handle_call_def Let_def test_env_def with_lock_def numeral_eq_Suc)

lemma test_worker_gives:
  assumes "call_coded cd ci b rb"
  shows "gives w c ci rb (test_worker cd w (Outgoing b)) 4 False"
  using assms
  by (auto simp: call_coded_def handle_response_def forward_response_def with_lock_def numeral_eq_Suc)

lemma disciplined_test_caller:
  assumes "w \<noteq> c"
  shows "disciplined (test_env w c) (test_caller cd c ci) []"
  using assms
  by (auto simp: test_caller_def handle_call_def Let_def test_env_def less_mutex_def split: option.split
      intro!: disciplined_seq)

lemma disciplined_test_worker: "disciplined (test_env w c) (test_worker cd w msg) []"
  by (cases msg) (auto simp: handle_response_def forward_response_def split: option.split RpcRequest.split)

section \<open>Where each call is\<close>

datatype place = Asking nat bool | Queued | Held nat bool | Answered | Got

text \<open>The moves that a call has still to cause: of its caller, of the worker, of the collector.\<close>

fun moves_left :: "place \<Rightarrow> nat" where
  "moves_left (Asking k r) = k + 6"
| "moves_left Queued = 6"
| "moves_left (Held k f) = k + 1"
| "moves_left Answered = 1"
| "moves_left Got = 0"

fun is_held :: "place \<Rightarrow> bool" where
  "is_held (Held k f) = True"
| "is_held _ = False"

fun recorded_at :: "place \<Rightarrow> bool" where
  "recorded_at (Asking k r) = r"
| "recorded_at Queued = True"
| "recorded_at (Held k f) = (\<not> f)"
| "recorded_at _ = False"

definition total_moves :: "(nat \<Rightarrow> place) \<Rightarrow> nat \<Rightarrow> nat" where
  "total_moves pl n = (\<Sum>i < n. moves_left (pl i))"

lemma total_moves_update:
  assumes "i < n" and "moves_left (pl i) = Suc (moves_left x)"
  shows "total_moves pl n = Suc (total_moves (pl(i := x)) n)"
proof -
  have "total_moves f n = moves_left (f i) + (\<Sum>j \<in> {..<n} - {i}. moves_left (f j))" for f
    using assms(1) by (simp add: total_moves_def sum.remove [of _ i])
  with assms(2) show ?thesis by simp
qed

definition at_place :: "ClientId \<Rightarrow> ClientId \<Rightarrow> CallId list \<Rightarrow> (nat \<Rightarrow> bytes) \<Rightarrow> (nat \<Rightarrow> bytes) \<Rightarrow> pool \<Rightarrow> nat \<Rightarrow> place \<Rightarrow> bool" where
  "at_place w c ids bs rbs p i x \<longleftrightarrow>
     (case x of
        Asking k r \<Rightarrow> asks w c (ids ! i) (bs i) (jobs p ! i) k r
      | Held k f \<Rightarrow> jobs p ! i = Done \<and> gives w c (ids ! i) (rbs i) (jobs p ! length ids) k f
      | _ \<Rightarrow> jobs p ! i = Done) \<and>
     (recorded_at x \<longrightarrow> calls (shared p) (ids ! i) = Some (c, caller_tx))"

text \<open>A channel holds the messages \<open>f\<close> of the calls at the place \<open>x\<close>, each once.\<close>

definition holds_calls :: "ClientMsg channel \<Rightarrow> (nat \<Rightarrow> bytes) \<Rightarrow> (nat \<Rightarrow> place) \<Rightarrow> nat \<Rightarrow> place \<Rightarrow> bool" where
  "holds_calls ch f pl n x \<longleftrightarrow>
     rx_open ch \<and> 0 < places ch \<and>
     (\<exists>qs. queue ch = map (Outgoing \<circ> f) qs \<and> distinct qs \<and> set qs = {i. i < n \<and> pl i = x})"

definition worker_free :: "pool \<Rightarrow> (nat \<Rightarrow> place) \<Rightarrow> nat \<Rightarrow> bool" where
  "worker_free p pl n \<longleftrightarrow>
     (\<forall>i < n. \<forall>j < n. is_held (pl i) \<longrightarrow> is_held (pl j) \<longrightarrow> i = j) \<and> ((\<forall>i < n. \<not> is_held (pl i)) \<longrightarrow> jobs p ! n = Done)"

definition test_ok ::
    "ClientId \<Rightarrow> ClientId \<Rightarrow> CallId list \<Rightarrow> (nat \<Rightarrow> bytes) \<Rightarrow> (nat \<Rightarrow> bytes) \<Rightarrow> (nat \<Rightarrow> place) \<Rightarrow> lock_test \<Rightarrow> bool" where
  "test_ok w c ids bs rbs pl t \<longleftrightarrow>
     follows (test_env w c) (tasks t) \<and> length (jobs (tasks t)) = Suc (length ids) \<and>
     (\<forall>i < length ids. at_place w c ids bs rbs (tasks t) i (pl i)) \<and>
     worker_free (tasks t) pl (length ids) \<and>
     holds_calls (chans (tasks t) worker_tx) bs pl (length ids) Queued \<and>
     holds_calls (chans (tasks t) caller_tx) rbs pl (length ids) Answered \<and>
     got t = card {i. i < length ids \<and> pl i = Got}"

text \<open>A call that changes its place, and qs in the channel neither before nor after.\<close>

lemma place_set:
  "pl i \<noteq> x \<Longrightarrow> y \<noteq> x \<Longrightarrow> {j. j < n \<and> (pl(i := y)) j = x} = {j. j < n \<and> pl j = x}"
  by auto

lemma holds_calls_other:
  "holds_calls ch f pl n x \<Longrightarrow> pl i \<noteq> x \<Longrightarrow> y \<noteq> x \<Longrightarrow> holds_calls ch f (pl(i := y)) n x"
  by (simp add: holds_calls_def place_set del: fun_upd_apply)

lemma holds_calls_put:
  assumes "holds_calls ch f pl n x" and "i < n" and "pl i \<noteq> x" and "fst (try_send (Outgoing (f i)) ch) \<noteq> SendFull"
  shows "holds_calls (snd (try_send (Outgoing (f i)) ch)) f (pl(i := x)) n x"
proof -
  obtain qs where qs: "queue ch = map (Outgoing \<circ> f) qs" "distinct qs" "set qs = {i. i < n \<and> pl i = x}"
      "rx_open ch" "0 < places ch"
    using assms(1) by (auto simp: holds_calls_def)
  then have ch: "snd (try_send (Outgoing (f i)) ch) = ch\<lparr>queue := map (Outgoing \<circ> f) (qs @ [i])\<rparr>"
    using assms(4) by (simp add: try_send_def split: if_splits)
  have "distinct (qs @ [i]) \<and> set (qs @ [i]) = {j. j < n \<and> (pl(i := x)) j = x}"
    using qs(2,3) assms(2,3) by auto
  with qs(4,5) show ?thesis
    unfolding ch holds_calls_def by (intro conjI exI [of _ "qs @ [i]"]) simp_all
qed

lemma holds_calls_take:
  assumes "holds_calls ch f pl n x" and "recv ch = Some (m, ch')"
  obtains i where "i < n" "pl i = x" "m = Outgoing (f i)" "\<And>y. y \<noteq> x \<Longrightarrow> holds_calls ch' f (pl(i := y)) n x"
proof -
  obtain qs where qs: "queue ch = map (Outgoing \<circ> f) qs" "distinct qs" "set qs = {i. i < n \<and> pl i = x}"
      "rx_open ch" "0 < places ch"
    using assms(1) by (auto simp: holds_calls_def)
  with assms(2) obtain i qs' where i: "qs = i # qs'" "m = Outgoing (f i)" "ch' = ch\<lparr>queue := map (Outgoing \<circ> f) qs'\<rparr>"
    by (auto simp: recv_def split: list.splits)
  have "i < n" "pl i = x" using qs(3) i(1) by auto
  moreover have "holds_calls ch' f (pl(i := y)) n x" if "y \<noteq> x" for y
  proof -
    have "distinct qs' \<and> set qs' = {j. j < n \<and> (pl(i := y)) j = x}"
      using qs(2,3) i(1) that by auto
    with qs(4,5) i(3) show ?thesis unfolding holds_calls_def by (intro conjI exI [of _ qs']) simp_all
  qed
  ultimately show ?thesis using that i(2) by blast
qed

lemma holds_calls_nonempty: "holds_calls ch f pl n x \<Longrightarrow> i < n \<Longrightarrow> pl i = x \<Longrightarrow> queue ch \<noteq> []"
  unfolding holds_calls_def by force

lemma worker_free_same:
  "worker_free p pl n \<Longrightarrow> \<not> is_held (pl i) \<Longrightarrow> \<not> is_held x \<Longrightarrow> jobs p' ! n = jobs p ! n \<Longrightarrow> worker_free p' (pl(i := x)) n"
proof -
  assume a: "worker_free p pl n" "\<not> is_held (pl i)" "\<not> is_held x" "jobs p' ! n = jobs p ! n"
  then have "is_held ((pl(i := x)) j) = is_held (pl j)" for j by simp
  with a show ?thesis unfolding worker_free_def by (simp del: fun_upd_apply)
qed

section \<open>Moves of the callers\<close>

lemma at_place_other:
  assumes "at_place w c ids bs rbs p j x" and "j \<noteq> i" and "i < length ids" and "j < length ids" and "distinct ids"
    and "jobs p' ! j = jobs p ! j" and "jobs p' ! length ids = jobs p ! length ids \<or> \<not> is_held x"
    and "calls (shared p') = calls (shared p) \<or> calls (shared p') = (calls (shared p))(ids ! i := y)"
  shows "at_place w c ids bs rbs p' j x"
proof -
  have "ids ! j \<noteq> ids ! i" using assms(2-5) by (simp add: nth_eq_iff_index_eq)
  then have "calls (shared p') (ids ! j) = calls (shared p) (ids ! j)"
    using assms(8) by auto
  with assms(1,6,7) show ?thesis by (cases x) (auto simp: at_place_def)
qed

text \<open>The call \<open>i\<close> of a caller goes on, or to the worker's channel, while the other calls stay where they are.\<close>

lemma caller_moved:
  assumes ok: "test_ok w c ids bs rbs pl t" and ids: "distinct ids" and i: "i < length ids" and pl: "pl i = Asking k r"
    and x: "at_place w c ids bs rbs p' i x" "x = Asking k' r' \<or> x = Queued" and fol: "follows (test_env w c) p'"
    and jobs: "jobs p' = (jobs (tasks t))[i := t']"
    and calls: "calls (shared p') = calls (shared (tasks t)) \<or> calls (shared p') = (calls (shared (tasks t)))(ids ! i := y)"
    and chans: "holds_calls (chans p' worker_tx) bs (pl(i := x)) (length ids) Queued" "chans p' caller_tx = chans (tasks t) caller_tx"
  shows "test_ok w c ids bs rbs (pl(i := x)) (t\<lparr>tasks := p'\<rparr>)"
proof -
  have at: "\<And>j. j < length ids \<Longrightarrow> at_place w c ids bs rbs (tasks t) j (pl j)" and len: "length (jobs (tasks t)) = Suc (length ids)"
    and free: "worker_free (tasks t) pl (length ids)"
    and C: "holds_calls (chans (tasks t) caller_tx) rbs pl (length ids) Answered"
    and g: "got t = card {i. i < length ids \<and> pl i = Got}"
    using ok by (auto simp: test_ok_def)
  have "at_place w c ids bs rbs p' j ((pl(i := x)) j)" if "j < length ids" for j
  proof (cases "j = i")
    case False
    with at_place_other [OF at [OF that] False i that ids _ _ calls] jobs i show ?thesis by simp
  qed (simp add: x)
  moreover have "worker_free p' (pl(i := x)) (length ids)"
    using worker_free_same [OF free] pl x jobs i by auto
  moreover have "holds_calls (chans p' caller_tx) rbs (pl(i := x)) (length ids) Answered"
    using holds_calls_other [OF C] pl x chans by auto
  ultimately show ?thesis
    using fol len jobs chans(1) g x(2) pl by (auto simp: test_ok_def place_set simp del: fun_upd_apply)
qed

lemma caller_step:
  assumes ok: "test_ok w c ids bs rbs pl t" and ids: "distinct ids" and i: "i < length ids"
    and step: "job_step i (tasks t) = Some p'"
  shows "\<exists>x. moves_left (pl i) = Suc (moves_left x) \<and> test_ok w c ids bs rbs (pl(i := x)) (t\<lparr>tasks := p'\<rparr>)"
proof -
  define p where "p = tasks t"
  have fol: "follows (test_env w c) p" and len: "length (jobs p) = Suc (length ids)"
    and at: "\<And>j. j < length ids \<Longrightarrow> at_place w c ids bs rbs p j (pl j)" and free: "worker_free p pl (length ids)"
    and W: "holds_calls (chans p worker_tx) bs pl (length ids) Queued"
    and C: "holds_calls (chans p caller_tx) rbs pl (length ids) Answered"
    and g: "got t = card {i. i < length ids \<and> pl i = Got}"
    using ok by (auto simp: test_ok_def p_def)
  have env: "test_env w c (shared p)" using fol by (simp add: follows_def)
  have fol': "follows (test_env w c) p'"
    by (rule follows_job_step [OF fol _ step [folded p_def]]) (use i len in simp)
  have "jobs p ! i \<noteq> Done" using step by (auto simp: job_step_def p_def)
  with at [OF i] obtain k r where pl: "pl i = Asking k r" and asks: "asks w c (ids ! i) (bs i) (jobs p ! i) k r"
    and rec: "r \<longrightarrow> calls (shared p) (ids ! i) = Some (c, caller_tx)"
    by (cases "pl i") (auto simp: at_place_def)
  have moved: "test_ok w c ids bs rbs (pl(i := x)) (t\<lparr>tasks := p'\<rparr>)"
    if "at_place w c ids bs rbs p' i x" "x = Asking k' r' \<or> x = Queued" "jobs p' = (jobs p)[i := t']"
      "calls (shared p') = calls (shared p) \<or> calls (shared p') = (calls (shared p))(ids ! i := y)"
      "holds_calls (chans p' worker_tx) bs (pl(i := x)) (length ids) Queued" "chans p' caller_tx = chans p caller_tx"
    for x t' y k' r'
    using that(3-6) pl by (intro caller_moved [OF ok ids i _ that(1,2) fol']) (simp_all add: p_def)
  from step [folded p_def] show ?thesis
  proof (cases rule: job_stepE)
    case (Lock m t')
    with asks obtain k' where k': "k = Suc k'" "asks w c (ids ! i) (bs i) t' k' r" by auto
    have "holds_calls (chans p worker_tx) bs (pl(i := Asking k' r)) (length ids) Queued"
      using holds_calls_other [OF W] pl by simp
    with moved [of "Asking k' r" k' r t'] Lock k' rec i len pl show ?thesis
      by (intro exI [of _ "Asking k' r"]) (simp add: at_place_def)
  next
    case (Unlock m t')
    with asks obtain k' where k': "k = Suc k'" "asks w c (ids ! i) (bs i) t' k' r" by auto
    have "holds_calls (chans p worker_tx) bs (pl(i := Asking k' r)) (length ids) Queued"
      using holds_calls_other [OF W] pl by simp
    with moved [of "Asking k' r" k' r t'] Unlock k' rec i len pl show ?thesis
      by (intro exI [of _ "Asking k' r"]) (simp add: at_place_def)
  next
    case (Spawn y t')
    with asks show ?thesis by simp
  next
    case (Sync f)
    with asks env obtain k' r' where k': "k = Suc k'" "asks w c (ids ! i) (bs i) (snd (f (shared p))) k' r'"
      "calls (fst (f (shared p))) = calls (shared p) \<and> r' = r \<or> calls (fst (f (shared p))) = (calls (shared p))(ids ! i \<mapsto> (c, caller_tx))"
      by auto
    have "holds_calls (chans p worker_tx) bs (pl(i := Asking k' r')) (length ids) Queued"
      using holds_calls_other [OF W] pl by simp
    moreover have "at_place w c ids bs rbs p' i (Asking k' r')"
      using Sync k' rec i len by (auto simp: at_place_def)
    ultimately show ?thesis
      using moved [of "Asking k' r'" k' r' "snd (f (shared p))" "Some (c, caller_tx)"] Sync k' pl
      by (intro exI [of _ "Asking k' r'"]) auto
  next
    case (Send tx m t')
    with asks have send: "k = 1" "r" "tx = worker_tx" "m = Outgoing (bs i)" "t' = Done" by simp_all
    have "holds_calls (chans p' worker_tx) bs (pl(i := Queued)) (length ids) Queued"
      using holds_calls_put [OF W i] pl Send send by simp
    with moved [of Queued 0 False Done] Send send pl i len rec show ?thesis
      by (intro exI [of _ Queued]) (simp add: at_place_def)
  qed
qed

section \<open>Moves of the worker and the collector\<close>

lemma held_unique: "worker_free p pl n \<Longrightarrow> i < n \<Longrightarrow> j < n \<Longrightarrow> is_held (pl i) \<Longrightarrow> j \<noteq> i \<Longrightarrow> \<not> is_held (pl j)"
  unfolding worker_free_def by blast

lemma worker_busy:
  assumes "worker_free p pl n" and "jobs p ! n \<noteq> Done"
  obtains j k f where "j < n" "pl j = Held k f"
proof -
  from assms obtain j where "j < n" "is_held (pl j)" unfolding worker_free_def by blast
  then show ?thesis using that by (cases "pl j") auto
qed

lemma worker_free_one:
  assumes "\<And>i. i < n \<Longrightarrow> i \<noteq> j \<Longrightarrow> \<not> is_held (pl i)" and "is_held x \<or> jobs p ! n = Done" and "j < n"
  shows "worker_free p (pl(j := x)) n"
proof -
  have only: "i = j" if "i < n" "is_held ((pl(j := x)) i)" for i
    using assms(1) that by (cases "i = j") simp_all
  then show ?thesis
    unfolding worker_free_def using assms(2,3) by (auto simp del: fun_upd_apply) (metis fun_upd_same)
qed

text \<open>The call \<open>j\<close> of the worker goes to the place \<open>x\<close> while the other calls stay where they are.\<close>

lemma worker_moved:
  assumes ok: "test_ok w c ids bs rbs pl t" and ids: "distinct ids" and j: "j < length ids"
    and others: "\<And>i. i < length ids \<Longrightarrow> i \<noteq> j \<Longrightarrow> \<not> is_held (pl i)"
    and fol: "follows (test_env w c) (tasks t')" and jobs: "jobs (tasks t') = (jobs (tasks t))[length ids := k]"
    and x: "at_place w c ids bs rbs (tasks t') j x" "is_held x \<or> k = Done"
    and calls: "calls (shared (tasks t')) = calls (shared (tasks t)) \<or>
          calls (shared (tasks t')) = (calls (shared (tasks t)))(ids ! j := y)"
    and W: "holds_calls (chans (tasks t') worker_tx) bs (pl(j := x)) (length ids) Queued"
    and C: "holds_calls (chans (tasks t') caller_tx) rbs (pl(j := x)) (length ids) Answered"
    and got: "got t' = card {i. i < length ids \<and> (pl(j := x)) i = Got}"
  shows "test_ok w c ids bs rbs (pl(j := x)) t'"
proof -
  have at: "\<And>i. i < length ids \<Longrightarrow> at_place w c ids bs rbs (tasks t) i (pl i)" and len: "length (jobs (tasks t)) = Suc (length ids)"
    using ok by (auto simp: test_ok_def)
  have "at_place w c ids bs rbs (tasks t') i ((pl(j := x)) i)" if "i < length ids" for i
  proof (cases "i = j")
    case False
    have "at_place w c ids bs rbs (tasks t') i (pl i)"
      by (rule at_place_other [OF at [OF that] False j that ids _ _ calls])
        (use jobs that others [OF that False] in auto)
    with False show ?thesis by simp
  qed (simp add: x)
  moreover have "worker_free (tasks t') (pl(j := x)) (length ids)"
    using others x(2) j jobs len by (intro worker_free_one) auto
  ultimately show ?thesis
    using fol len jobs W C got by (simp add: test_ok_def del: fun_upd_apply)
qed

lemma worker_step:
  assumes ok: "test_ok w c ids bs rbs pl t" and ids: "distinct ids" and step: "job_step (length ids) (tasks t) = Some p'"
  shows "\<exists>j x. j < length ids \<and> moves_left (pl j) = Suc (moves_left x) \<and> test_ok w c ids bs rbs (pl(j := x)) (t\<lparr>tasks := p'\<rparr>)"
proof -
  define p where "p = tasks t"
  let ?n = "length ids"
  have fol: "follows (test_env w c) p" and len: "length (jobs p) = Suc ?n"
    and at: "\<And>j. j < ?n \<Longrightarrow> at_place w c ids bs rbs p j (pl j)" and free: "worker_free p pl ?n"
    and W: "holds_calls (chans p worker_tx) bs pl ?n Queued" and C: "holds_calls (chans p caller_tx) rbs pl ?n Answered"
    and g: "got t = card {i. i < ?n \<and> pl i = Got}"
    using ok by (auto simp: test_ok_def p_def)
  have env: "test_env w c (shared p)" using fol by (simp add: follows_def)
  have fol': "follows (test_env w c) p'"
    by (rule follows_job_step [OF fol _ step [folded p_def]]) (use len in simp)
  have "jobs p ! ?n \<noteq> Done" using step by (auto simp: job_step_def p_def)
  then obtain j k f where j: "j < ?n" and pl: "pl j = Held k f" by (rule worker_busy [OF free])
  from at [OF j] pl have sent: "jobs p ! j = Done" and gives: "gives w c (ids ! j) (rbs j) (jobs p ! ?n) k f"
    and rec: "\<not> f \<longrightarrow> calls (shared p) (ids ! j) = Some (c, caller_tx)"
    by (auto simp: at_place_def)
  have others: "\<not> is_held (pl i)" if "i < ?n" "i \<noteq> j" for i
    using held_unique [OF free j that(1)] pl that(2) by simp
  have stays: "?thesis"
    if "k = Suc k'" "gives w c (ids ! j) (rbs j) t' k' f'" "jobs p' = (jobs p)[?n := t']" "chans p' = chans p"
      "calls (shared p') = calls (shared p) \<and> f' = f \<or> calls (shared p') = (calls (shared p))(ids ! j := None) \<and> f'" for t' k' f'
  proof (intro exI conjI)
    have "at_place w c ids bs rbs p' j (Held k' f')"
      using that(2,3,5) sent j len rec by (auto simp: at_place_def)
    then show "test_ok w c ids bs rbs (pl(j := Held k' f')) (t\<lparr>tasks := p'\<rparr>)"
      using that(3-5) fol' pl W C g
      by (intro worker_moved [OF ok ids j others, where k = t' and y = None])
        (auto simp: p_def place_set intro: holds_calls_other simp del: fun_upd_apply)
    show "moves_left (pl j) = Suc (moves_left (Held k' f'))" using that(1) pl by simp
  qed (rule j)
  from step [folded p_def] show ?thesis
  proof (cases rule: job_stepE)
    case (Lock m t')
    with gives obtain k' where "k = Suc k'" "gives w c (ids ! j) (rbs j) t' k' f" by auto
    with stays [of k' t' f] Lock show ?thesis by simp
  next
    case (Unlock m t')
    with gives obtain k' where "k = Suc k'" "gives w c (ids ! j) (rbs j) t' k' f" by auto
    with stays [of k' t' f] Unlock show ?thesis by simp
  next
    case (Spawn y t')
    with gives show ?thesis by simp
  next
    case (Sync g')
    with gives env rec obtain k' f' where "k = Suc k'" "gives w c (ids ! j) (rbs j) (snd (g' (shared p))) k' f'"
      "calls (fst (g' (shared p))) = calls (shared p) \<and> f' = f \<or> calls (fst (g' (shared p))) = (calls (shared p))(ids ! j := None) \<and> f'"
      by auto
    with stays [of k' "snd (g' (shared p))" f'] Sync show ?thesis by simp
  next
    case (Send tx m t')
    with gives have send: "k = 1" "f" "tx = caller_tx" "m = Outgoing (rbs j)" "t' = Done" by simp_all
    have "test_ok w c ids bs rbs (pl(j := Answered)) (t\<lparr>tasks := p'\<rparr>)"
    proof (rule worker_moved [OF ok ids j others, where k = Done and y = None])
      show "holds_calls (chans (tasks (t\<lparr>tasks := p'\<rparr>)) caller_tx) rbs (pl(j := Answered)) ?n Answered"
        using holds_calls_put [OF C j] pl Send send by simp
      show "holds_calls (chans (tasks (t\<lparr>tasks := p'\<rparr>)) worker_tx) bs (pl(j := Answered)) ?n Queued"
        using holds_calls_other [OF W] pl Send send by simp
    qed (use fol' Send send sent j len pl g in \<open>simp_all add: p_def at_place_def place_set del: fun_upd_apply\<close>)
    with pl send j show ?thesis by (intro exI [of _ j] exI [of _ Answered]) simp
  qed
qed

lemma recv_step:
  assumes ok: "test_ok w c ids bs rbs pl t" and ids: "distinct ids"
    and coded: "\<And>i. i < length ids \<Longrightarrow> call_coded cd (ids ! i) (bs i) (rbs i)"
    and step: "test_step cd w goal WorkerRecv t = Some t'"
  shows "\<exists>j x. j < length ids \<and> moves_left (pl j) = Suc (moves_left x) \<and> test_ok w c ids bs rbs (pl(j := x)) t'"
proof -
  define p where "p = tasks t"
  let ?n = "length ids"
  have fol: "follows (test_env w c) p" and len: "length (jobs p) = Suc ?n"
    and at: "\<And>j. j < ?n \<Longrightarrow> at_place w c ids bs rbs p j (pl j)" and free: "worker_free p pl ?n"
    and W: "holds_calls (chans p worker_tx) bs pl ?n Queued" and C: "holds_calls (chans p caller_tx) rbs pl ?n Answered"
    and g: "got t = card {i. i < ?n \<and> pl i = Got}"
    using ok by (auto simp: test_ok_def p_def)
  from step len obtain msg ch where idle: "jobs p ! ?n = Done" and recv: "recv (chans p worker_tx) = Some (msg, ch)"
    and t': "t' = t\<lparr>tasks := p\<lparr>chans := (chans p)(worker_tx := ch), jobs := (jobs p)[?n := test_worker cd w msg]\<rparr>\<rparr>"
    by (auto simp: p_def Let_def split: task.splits option.splits)
  from holds_calls_take [OF W recv] obtain j where j: "j < ?n" "pl j = Queued" and msg: "msg = Outgoing (bs j)"
    and W': "\<And>y. y \<noteq> Queued \<Longrightarrow> holds_calls ch bs (pl(j := y)) ?n Queued" by metis
  have "\<not> is_held (pl i)" if "i < ?n" for i
    using at [OF that] idle by (cases "pl i") (auto simp: at_place_def)
  then have others: "\<not> is_held (pl i)" if "i < ?n" "i \<noteq> j" for i using that by blast
  obtain held where "holds_exactly p ?n held" "disciplined (test_env w c) (jobs p ! ?n) held"
    using followsD [OF fol, of ?n] len by auto
  then have "holds_exactly p ?n []" using idle by simp
  then have fol': "follows (test_env w c) (tasks t')"
    using len fol disciplined_test_worker [of w c cd msg]
    by (intro followsI_update [OF fol, where i = ?n and t = "test_worker cd w msg" and held = "[]"])
      (auto simp: t' holds_exactly_def follows_def)
  have "test_ok w c ids bs rbs (pl(j := Held 4 False)) t'"
  proof (rule worker_moved [OF ok ids j(1) others fol', where k = "test_worker cd w msg" and y = None])
    show "at_place w c ids bs rbs (tasks t') j (Held 4 False)"
      using at [OF j(1)] j test_worker_gives [OF coded [OF j(1)], of w c] len by (simp add: at_place_def t' msg)
    show "holds_calls (chans (tasks t') caller_tx) rbs (pl(j := Held 4 False)) ?n Answered"
      using holds_calls_other [OF C] j(2) by (simp add: t')
    show "holds_calls (chans (tasks t') worker_tx) bs (pl(j := Held 4 False)) ?n Queued"
      using W' by (simp add: t')
  qed (use j(2) g in \<open>simp_all add: t' p_def place_set del: fun_upd_apply\<close>)
  with j show ?thesis by (intro exI [of _ j] exI [of _ "Held 4 False"]) simp
qed

lemma collect_step:
  assumes ok: "test_ok w c ids bs rbs pl t" and ids: "distinct ids"
    and coded: "\<And>i. i < length ids \<Longrightarrow> call_coded cd (ids ! i) (bs i) (rbs i)"
    and step: "test_step cd w goal Collect t = Some t'"
  shows "\<exists>j x. j < length ids \<and> moves_left (pl j) = Suc (moves_left x) \<and> test_ok w c ids bs rbs (pl(j := x)) t'"
proof -
  define p where "p = tasks t"
  let ?n = "length ids"
  have fol: "follows (test_env w c) p" and len: "length (jobs p) = Suc ?n"
    and at: "\<And>j. j < ?n \<Longrightarrow> at_place w c ids bs rbs p j (pl j)" and free: "worker_free p pl ?n"
    and W: "holds_calls (chans p worker_tx) bs pl ?n Queued" and C: "holds_calls (chans p caller_tx) rbs pl ?n Answered"
    and g: "got t = card {i. i < ?n \<and> pl i = Got}"
    using ok by (auto simp: test_ok_def p_def)
  from step obtain msg ch where recv: "recv (chans p caller_tx) = Some (msg, ch)"
    and t': "t' = t\<lparr>tasks := p\<lparr>chans := (chans p)(caller_tx := ch)\<rparr>, got := (if test_counts cd msg then Suc (got t) else got t)\<rparr>"
    by (auto simp: p_def Let_def split: option.splits if_splits)
  from holds_calls_take [OF C recv] obtain j where j: "j < ?n" "pl j = Answered" and msg: "msg = Outgoing (rbs j)"
    and C': "\<And>y. y \<noteq> Answered \<Longrightarrow> holds_calls ch rbs (pl(j := y)) ?n Answered" by metis
  have "test_counts cd msg" using coded [OF j(1)] by (simp add: msg call_coded_def)
  moreover have "{i. i < ?n \<and> (pl(j := Got)) i = Got} = insert j {i. i < ?n \<and> pl i = Got}" using j(1) by auto
  ultimately have got: "got t' = card {i. i < ?n \<and> (pl(j := Got)) i = Got}" using g j(2) by (simp add: t')
  have "at_place w c ids bs rbs (tasks t') i ((pl(j := Got)) i)" if "i < ?n" for i
    using at [OF that] j(2) by (auto simp: at_place_def t' split: place.splits)
  moreover have "follows (test_env w c) (tasks t')"
    using fol by (simp add: t' follows_def holds_exactly_def)
  moreover have "worker_free (tasks t') (pl(j := Got)) ?n"
    using worker_free_same [OF free] j(2) by (simp add: t')
  moreover have "holds_calls (chans (tasks t') worker_tx) bs (pl(j := Got)) ?n Queued"
    using holds_calls_other [OF W] j(2) by (simp add: t')
  moreover have "holds_calls (chans (tasks t') caller_tx) rbs (pl(j := Got)) ?n Answered"
    using C' by (simp add: t')
  ultimately have "test_ok w c ids bs rbs (pl(j := Got)) t'"
    using len got by (simp add: test_ok_def t' del: fun_upd_apply)
  with j show ?thesis by (intro exI [of _ j] exI [of _ Got]) simp
qed

section \<open>Every schedule passes\<close>

lemma test_step_ok:
  assumes ok: "test_ok w c ids bs rbs pl t" and ids: "distinct ids"
    and coded: "\<And>i. i < length ids \<Longrightarrow> call_coded cd (ids ! i) (bs i) (rbs i)"
    and step: "test_step cd w goal mv t = Some t'"
  shows "\<exists>pl'. test_ok w c ids bs rbs pl' t' \<and> total_moves pl (length ids) = Suc (total_moves pl' (length ids))"
proof -
  have "\<exists>j x. j < length ids \<and> moves_left (pl j) = Suc (moves_left x) \<and> test_ok w c ids bs rbs (pl(j := x)) t'"
  proof (cases mv)
    case (Step i)
    with step obtain p' where i: "i < length (jobs (tasks t))" and p': "job_step i (tasks t) = Some p'" "t' = t\<lparr>tasks := p'\<rparr>"
      by (auto split: if_splits)
    from ok have "length (jobs (tasks t)) = Suc (length ids)" by (simp add: test_ok_def)
    with i consider "i < length ids" | "i = length ids" by linarith
    then show ?thesis
      using caller_step [OF ok ids] worker_step [OF ok ids] p' by cases blast+
  next
    case WorkerRecv
    with step recv_step [OF ok ids coded] show ?thesis by blast
  next
    case Collect
    with step collect_step [OF ok ids coded] show ?thesis by blast
  qed
  then show ?thesis using total_moves_update by blast
qed

lemma test_start_ok:
  assumes "w \<noteq> c" and coded: "\<And>i. i < length ids \<Longrightarrow> call_coded cd (ids ! i) (bs i) (rbs i)"
  shows "test_ok w c ids bs rbs (\<lambda>_. Asking 9 False) (lock_test_start cd w c ids)"
proof -
  let ?t = "lock_test_start cd w c ids"
  have env: "test_env w c (test_server w c)"
    using assms(1) by (auto simp: test_env_def test_server_def empty_state_def)
  have "fresh_pool (test_env w c) (tasks ?t)"
    using env disciplined_test_caller [OF assms(1)]
    by (simp add: fresh_pool_def lock_test_start_def start_pool_def list_all_iff)
  then have "follows (test_env w c) (tasks ?t)" by (rule lock_order.good_start)
  moreover have "at_place w c ids bs rbs (tasks ?t) i (Asking 9 False)" if "i < length ids" for i
    using test_caller_asks [OF coded [OF that] assms(1)] that
    by (simp add: at_place_def lock_test_start_def start_pool_def nth_append)
  ultimately show ?thesis
    by (simp add: test_ok_def worker_free_def holds_calls_def lock_test_start_def start_pool_def new_channel_def
        test_channel_places_def nth_append)
qed

lemma test_run_ok:
  assumes "test_run cd w goal mvs t = Some t'" and "test_ok w c ids bs rbs pl t" and "distinct ids"
    and "\<And>i. i < length ids \<Longrightarrow> call_coded cd (ids ! i) (bs i) (rbs i)"
  shows "\<exists>pl'. test_ok w c ids bs rbs pl' t' \<and> total_moves pl (length ids) = length mvs + total_moves pl' (length ids)"
  using assms(1,2)
proof (induction mvs arbitrary: t pl)
  case (Cons mv mvs)
  then obtain t1 where t1: "test_step cd w goal mv t = Some t1" "test_run cd w goal mvs t1 = Some t'"
    by (auto split: option.splits)
  from test_step_ok [OF Cons.prems(2) assms(3,4) t1(1)] obtain pl1 where
    "test_ok w c ids bs rbs pl1 t1" "total_moves pl (length ids) = Suc (total_moves pl1 (length ids))" by blast
  with Cons.IH [OF t1(2)] show ?case by auto
qed auto

text \<open>As long as a call is on its way, somebody can move.\<close>

lemma collector_moves:
  assumes "test_ok w c ids bs rbs pl t" and "queue (chans (tasks t) caller_tx) \<noteq> []"
  shows "test_step cd w (length ids) Collect t \<noteq> None"
proof -
  have C: "holds_calls (chans (tasks t) caller_tx) rbs pl (length ids) Answered" and g: "got t = card {i. i < length ids \<and> pl i = Got}"
    using assms(1) by (auto simp: test_ok_def)
  from assms(2) obtain msg q where q: "queue (chans (tasks t) caller_tx) = msg # q" by (cases "queue (chans (tasks t) caller_tx)") auto
  then have recv: "recv (chans (tasks t) caller_tx) = Some (msg, (chans (tasks t) caller_tx)\<lparr>queue := q\<rparr>)" by (simp add: recv_def)
  obtain j where j: "j < length ids" "pl j = Answered" using holds_calls_take [OF C recv] by blast
  then have "j \<notin> {i. i < length ids \<and> pl i = Got}" by simp
  then have "{i. i < length ids \<and> pl i = Got} \<subset> {..<length ids}" using j(1) by blast
  then have "got t < card {..<length ids}" unfolding g by (rule psubset_card_mono [OF finite_lessThan])
  then have "got t < length ids" by simp
  with recv show ?thesis by (simp add: Let_def)
qed

lemma worker_moves:
  assumes ok: "test_ok w c ids bs rbs pl t" and "holder (tasks t) = Map.empty"
    and busy: "queue (chans (tasks t) worker_tx) \<noteq> [] \<or> jobs (tasks t) ! length ids \<noteq> Done"
  shows "\<exists>mv. test_step cd w (length ids) mv t \<noteq> None"
proof -
  let ?p = "tasks t" and ?n = "length ids"
  have fol: "follows (test_env w c) ?p" and len: "length (jobs ?p) = Suc ?n"
    and at: "\<And>j. j < ?n \<Longrightarrow> at_place w c ids bs rbs ?p j (pl j)" and free: "worker_free ?p pl ?n"
    using ok by (auto simp: test_ok_def)
  show ?thesis
  proof (cases "jobs ?p ! ?n = Done")
    case True
    with busy obtain msg q where "queue (chans ?p worker_tx) = msg # q" by (cases "queue (chans ?p worker_tx)") auto
    with True len have "test_step cd w ?n WorkerRecv t \<noteq> None" by (simp add: Let_def recv_def)
    then show ?thesis by blast
  next
    case False
    show ?thesis
    proof (cases "job_step ?n ?p")
      case (Some p')
      with len have "test_step cd w ?n (Step ?n) t \<noteq> None" by simp
      then show ?thesis by blast
    next
      case None
      obtain tx m k where send: "jobs ?p ! ?n = Send tx m k" and full: "places (chans ?p tx) \<le> length (queue (chans ?p tx))"
        using task_waits_only_to_send [OF fol _ assms(2) None] len False by auto
      obtain j k' f where "j < ?n" "pl j = Held k' f" by (rule worker_busy [OF free False])
      with at [of j] send have "tx = caller_tx" by (simp add: at_place_def)
      moreover have "0 < places (chans ?p caller_tx)" using ok by (auto simp: test_ok_def holds_calls_def)
      ultimately have "queue (chans ?p caller_tx) \<noteq> []" using full by auto
      with collector_moves [OF ok] show ?thesis by blast
    qed
  qed
qed

lemma somebody_moves:
  assumes ok: "test_ok w c ids bs rbs pl t" and "total_moves pl (length ids) \<noteq> 0"
  shows "\<exists>mv. test_step cd w (length ids) mv t \<noteq> None"
proof -
  let ?p = "tasks t" and ?n = "length ids"
  have fol: "follows (test_env w c) ?p" and len: "length (jobs ?p) = Suc ?n"
    and at: "\<And>j. j < ?n \<Longrightarrow> at_place w c ids bs rbs ?p j (pl j)"
    and W: "holds_calls (chans ?p worker_tx) bs pl ?n Queued" and C: "holds_calls (chans ?p caller_tx) rbs pl ?n Answered"
    using ok by (auto simp: test_ok_def)
  show ?thesis
  proof (cases "holder ?p = Map.empty")
    case False
    with some_task_moves [OF fol] obtain i where "i < length (jobs ?p)" "job_step i ?p \<noteq> None" by auto
    then have "test_step cd w ?n (Step i) t \<noteq> None" by simp
    then show ?thesis by blast
  next
    case True
    note worker = worker_moves [OF ok True]
    from assms(2) obtain i where i: "i < ?n" "moves_left (pl i) \<noteq> 0" by (auto simp: total_moves_def)
    show ?thesis
    proof (cases "pl i")
      case (Asking k r)
      with at [OF i(1)] have asks: "asks w c (ids ! i) (bs i) (jobs ?p ! i) k r" by (simp add: at_place_def)
      then have "jobs ?p ! i \<noteq> Done" by auto
      show ?thesis
      proof (cases "job_step i ?p")
        case (Some p')
        with i len have "test_step cd w ?n (Step i) t \<noteq> None" by simp
        then show ?thesis by blast
      next
        case None
        with task_waits_only_to_send [OF fol _ True None] i len \<open>jobs ?p ! i \<noteq> Done\<close> obtain tx m k' where
          "jobs ?p ! i = Send tx m k'" and full: "places (chans ?p tx) \<le> length (queue (chans ?p tx))" by auto
        with asks have "tx = worker_tx" by simp
        moreover have "0 < places (chans ?p worker_tx)" using W by (simp add: holds_calls_def)
        ultimately have "queue (chans ?p worker_tx) \<noteq> []" using full by auto
        with worker show ?thesis by blast
      qed
    next
      case Queued
      then have "queue (chans ?p worker_tx) \<noteq> []" using holds_calls_nonempty [OF W i(1)] by blast
      with worker show ?thesis by blast
    next
      case (Held k f)
      with at [OF i(1)] have "jobs ?p ! ?n \<noteq> Done" by (auto simp: at_place_def)
      with worker show ?thesis by blast
    next
      case Answered
      then have "queue (chans ?p caller_tx) \<noteq> []" using holds_calls_nonempty [OF C i(1)] by blast
      with collector_moves [OF ok] show ?thesis by blast
    qed (use i in simp)
  qed
qed

lemma all_got:
  assumes ok: "test_ok w c ids bs rbs pl t" and "total_moves pl (length ids) = 0"
  shows "got t = length ids \<and> jobs (tasks t) = replicate (Suc (length ids)) Done"
proof -
  let ?n = "length ids"
  have all: "pl i = Got" if "i < ?n" for i
  proof -
    have "moves_left (pl i) = 0" using assms(2) that by (simp add: total_moves_def)
    then show ?thesis by (cases "pl i") simp_all
  qed
  then have "{i. i < ?n \<and> pl i = Got} = {..<?n}" by auto
  moreover have "jobs (tasks t) ! i = Done" if "i < Suc ?n" for i
    using ok all that by (cases "i = ?n") (auto simp: test_ok_def at_place_def worker_free_def)
  ultimately show ?thesis using ok by (auto simp: test_ok_def list_eq_iff_nth_eq nth_Cons split: nat.split)
qed

lemma test_completes:
  assumes "test_ok w c ids bs rbs pl t" and "distinct ids"
    and "\<And>i. i < length ids \<Longrightarrow> call_coded cd (ids ! i) (bs i) (rbs i)"
  shows "\<exists>mvs t'. test_run cd w (length ids) mvs t = Some t' \<and> length mvs = total_moves pl (length ids)"
  using assms(1)
proof (induction "total_moves pl (length ids)" arbitrary: pl t)
  case 0
  then show ?case by (intro exI [of _ "[]"]) simp
next
  case (Suc k)
  obtain mv t1 where t1: "test_step cd w (length ids) mv t = Some t1"
    using somebody_moves [OF Suc.prems, of cd] Suc.hyps(2) by fastforce
  from test_step_ok [OF Suc.prems assms(2,3) t1] obtain pl1 where
    "test_ok w c ids bs rbs pl1 t1" "total_moves pl (length ids) = Suc (total_moves pl1 (length ids))" by blast
  with Suc.hyps obtain mvs t' where "test_run cd w (length ids) mvs t1 = Some t'" "length mvs = k" by force
  with t1 Suc.hyps(2) show ?case by (intro exI [of _ "mv # mvs"]) simp
qed

text \<open>
  C15: the unit test \<open>concurrent_lock_order_paths\<close> passes under every schedule of its fifty callers, its
  worker and its collector, however the eight places of the two channels make them wait for each other. No
  schedule has more than 750 moves; as long as it has fewer somebody can move; and after 750 moves the
  collector has counted all fifty answers and every task has finished.
\<close>

theorem lock_order_test_passes:
  assumes "w \<noteq> c" and "distinct ids" and "length ids = calls_n"
    and "list_all (\<lambda>ci. \<exists>b rb. call_coded cd ci b rb) ids"
    and "test_run cd w calls_n mvs (lock_test_start cd w c ids) = Some t"
  shows "length mvs \<le> 15 * calls_n \<and>
     (length mvs < 15 * calls_n \<longrightarrow> (\<exists>mv. test_step cd w calls_n mv t \<noteq> None)) \<and>
     (length mvs = 15 * calls_n \<longrightarrow> got t = calls_n \<and> jobs (tasks t) = replicate (Suc calls_n) Done)"
proof -
  from assms(4) obtain bs rbs where coded: "\<And>i. i < length ids \<Longrightarrow> call_coded cd (ids ! i) (bs i) (rbs i)"
    unfolding list_all_length by metis
  note start = test_start_ok [OF assms(1) coded]
  from test_run_ok [OF assms(5) start assms(2) coded] obtain pl where pl: "test_ok w c ids bs rbs pl t"
      "total_moves (\<lambda>_. Asking 9 False) (length ids) = length mvs + total_moves pl (length ids)" by blast
  then have "length mvs + total_moves pl calls_n = 15 * calls_n"
    by (simp add: total_moves_def assms(3))
  with somebody_moves [OF pl(1)] all_got [OF pl(1)] assms(3) show ?thesis by auto
qed

text \<open>A codec that knows the calls of the test, told apart by one character.\<close>

definition byte_of :: "char \<Rightarrow> 8 word" where "byte_of ch = of_nat (of_char ch)"
definition char_from :: "8 word \<Rightarrow> char" where "char_from b = char_of (unat b)"

lemma char_from_byte_of [simp]: "char_from (byte_of ch) = ch"
proof -
  have "(of_char ch :: nat) < 256" by (simp add: of_char_def split: char.split)
  then show ?thesis by (simp add: char_from_def byte_of_def unat_of_nat)
qed

definition test_codec :: codec where
  "test_codec =
     \<lparr>req_to_vec = (\<lambda>r. case r of Call (CallId u) _ _ _ \<Rightarrow> Some (0 # map byte_of u) | _ \<Rightarrow> None),
      resp_to_vec = (\<lambda>r. case r of Result (CallId u) _ _ \<Rightarrow> Some (1 # map byte_of u) | _ \<Rightarrow> None),
      req_from_slice = (\<lambda>b. if b \<noteq> [] \<and> hd b = 0 then Some (Call (CallId (map char_from (tl b))) ''obj'' ''echo'' (JObject [])) else None),
      resp_from_slice = (\<lambda>b. if b \<noteq> [] \<and> hd b = 1 then Some (Result (CallId (map char_from (tl b))) ''obj'' (JString ''ok'')) else None)\<rparr>"

definition test_ids :: "CallId list" where
  "test_ids = map (\<lambda>k. CallId [char_of k]) [0..<calls_n]"

lemma test_ids: "distinct test_ids" "length test_ids = calls_n"
proof -
  have "inj_on (\<lambda>k. CallId [char_of k]) {0..<calls_n}"
  proof (rule inj_onI)
    fix k l :: nat assume kl: "k \<in> {0..<calls_n}" "l \<in> {0..<calls_n}" "CallId [char_of k] = CallId [char_of l]"
    then have "(of_char (char_of k) :: nat) = of_char (char_of l)" by simp
    with kl show "k = l" by (simp add: calls_n_def)
  qed
  then show "distinct test_ids" by (simp add: test_ids_def distinct_map)
qed (simp add: test_ids_def)

lemma test_codec_coded: "call_coded test_codec ci (0 # map byte_of (call_id_str ci)) (1 # map byte_of (call_id_str ci))"
  by (cases ci) (simp add: call_coded_def test_codec_def comp_def)

theorem lock_order_test_passes_witness:
  "\<exists>mvs t. test_run test_codec worker calls_n mvs (lock_test_start test_codec worker caller test_ids) = Some t \<and>
     length mvs = 750 \<and> got t = 50"
proof -
  let ?t0 = "lock_test_start test_codec worker caller test_ids"
  obtain mvs t where run: "test_run test_codec worker calls_n mvs ?t0 = Some t" "length mvs = 15 * calls_n"
    using test_completes [OF test_start_ok [OF worker_caller(1) test_codec_coded] test_ids(1) test_codec_coded] test_ids(2)
    by (auto simp: total_moves_def)
  moreover have "list_all (\<lambda>ci. \<exists>b rb. call_coded test_codec ci b rb) test_ids"
    using test_codec_coded by (auto simp: list_all_iff)
  ultimately have "got t = calls_n"
    using lock_order_test_passes [OF worker_caller(1) test_ids _ run(1)] by simp
  with run show ?thesis by (intro exI [of _ mvs] exI [of _ t]) (simp add: calls_n_def)
qed

end
