(* ===== verification/Dead_Client.thy ===== *)
theory Dead_Client
  imports Ordering Connections
begin

text \<open>
  A client that is gone for its peer but not for the broker. \<open>run\<close> keeps the receiver of the
  connection's channel until the reader task has ended, so a reader that waits for room in that very
  channel, once the writer has stopped, waits for ever: the connection is never cleaned up, and
  whoever calls one of its objects waits for ever as well.
\<close>

section \<open>Tasks that keep a fact, tasks that must send\<close>

abbreviation keeps :: "(ServerState \<Rightarrow> bool) \<Rightarrow> task \<Rightarrow> bool" where
  "keeps P t \<equiv> in_order P (\<lambda>_. False) 0 t []"

text \<open>While \<open>P\<close> holds the task keeps it and does not end before it has sent on the channel \<open>tx\<close>.\<close>

primrec must_send :: "(ServerState \<Rightarrow> bool) \<Rightarrow> ClientSender \<Rightarrow> task \<Rightarrow> bool" where
  "must_send P tx Done \<longleftrightarrow> False"
| "must_send P tx (Lock m t) \<longleftrightarrow> must_send P tx t"
| "must_send P tx (Unlock m t) \<longleftrightarrow> must_send P tx t"
| "must_send P tx (Sync f) \<longleftrightarrow> (\<forall>s. P s \<longrightarrow> (\<lambda>(s', b). P s' \<and> b) (map_prod id (must_send P tx) (f s)))"
| "must_send P tx (Send tx' m t) \<longleftrightarrow> tx' = tx \<or> must_send P tx t"
| "must_send P tx (Spawn x t) \<longleftrightarrow> must_send P tx t"

lemma must_send_Sync [simp]:
  "must_send P tx (Sync f) \<longleftrightarrow> (\<forall>s. P s \<longrightarrow> P (fst (f s)) \<and> must_send P tx (snd (f s)))"
  by (simp add: split_beta)

declare must_send.simps(4) [simp del]



text \<open>The client \<open>c\<close> with the sender \<open>tx\<close> owns the object \<open>n\<close>; the clients \<open>D\<close> are connected.\<close>

definition owns_connected :: "ClientId \<Rightarrow> ClientSender \<Rightarrow> string \<Rightarrow> ClientId set \<Rightarrow> ServerState \<Rightarrow> bool" where
  "owns_connected c tx n D s \<longleftrightarrow> clients s c = Some tx \<and> objects s n = Some c \<and> (\<forall>d \<in> D. clients s d \<noteq> None)"

lemma owns_connected_update [simp]:
  "owns_connected c tx n D (s\<lparr>subscriptions := x2\<rparr>) = owns_connected c tx n D s"
  "owns_connected c tx n D (s\<lparr>calls := x3\<rparr>) = owns_connected c tx n D s"
  "owns_connected c tx n D (s\<lparr>services := x4\<rparr>) = owns_connected c tx n D s"
  "k \<noteq> n \<Longrightarrow> owns_connected c tx n D (s\<lparr>objects := (objects s)(k \<mapsto> e)\<rparr>) = owns_connected c tx n D s"
  by (simp_all add: owns_connected_def)









section \<open>A connection that waits for itself\<close>

text \<open>Task 0 waits for room in its own channel and nothing will ever take a message from there.\<close>

definition waits_for_itself :: "pool \<Rightarrow> bool" where
  "waits_for_itself p \<longleftrightarrow>
     0 < length (jobs p) \<and> (\<exists>m t. jobs p ! 0 = Send (conn p 0) m t) \<and> rx_open (chans p (conn p 0)) \<and>
     places (chans p (conn p 0)) \<le> length (queue (chans p (conn p 0))) \<and> \<not> writing p (conn p 0) \<and> inj (conn p)"

definition dead_client :: "(ServerState \<Rightarrow> bool) \<Rightarrow> nat set \<Rightarrow> pool \<Rightarrow> bool" where
  "dead_client P hung p \<longleftrightarrow>
     waits_for_itself p \<and> P (shared p) \<and>
     (\<forall>i < length (jobs p). i \<noteq> 0 \<longrightarrow> (if i \<in> hung then must_send P (conn p 0) (jobs p ! i) else keeps P (jobs p ! i)))"

lemma dead_client_update:
  assumes "dead_client P hung p" and "i < length (jobs p)" "i \<noteq> 0" and "jobs p' = (jobs p)[i := t]"
    and "conn p' = conn p" "writing p' = writing p" "chans p' (conn p 0) = chans p (conn p 0)" and "P (shared p')"
    and "i \<in> hung \<Longrightarrow> must_send P (conn p 0) t" "i \<notin> hung \<Longrightarrow> keeps P t"
  shows "dead_client P hung p'"
  using assms unfolding dead_client_def waits_for_itself_def by (auto simp: nth_list_update)

lemma full_send_refused:
  "rx_open ch \<Longrightarrow> places ch \<le> length (queue ch) \<Longrightarrow> fst (try_send m ch) = SendFull"
  by (simp add: try_send_def)

lemma dead_client_job_step:
  assumes dead: "dead_client P hung p" and i: "i < length (jobs p)" and step: "job_step i p = Some p'"
  shows "dead_client P hung p'"
proof -
  have full: "rx_open (chans p (conn p 0))" "places (chans p (conn p 0)) \<le> length (queue (chans p (conn p 0)))"
    and own: "\<exists>m t. jobs p ! 0 = Send (conn p 0) m t" and P: "P (shared p)"
    using dead by (auto simp: dead_client_def waits_for_itself_def)
  have i0: "i \<noteq> 0"
  proof
    assume "i = 0"
    with own step full show False by (auto simp: job_step_def try_send_def)
  qed
  have hung: "i \<in> hung \<Longrightarrow> must_send P (conn p 0) (jobs p ! i)" and kept: "i \<notin> hung \<Longrightarrow> keeps P (jobs p ! i)"
    using dead i i0 by (auto simp: dead_client_def)
  from step show ?thesis
  proof (cases rule: job_stepE)
    case (Lock m t)
    with P hung kept show ?thesis by (intro dead_client_update [OF dead i i0, of p' t]) simp_all
  next
    case (Unlock m t)
    with P hung kept show ?thesis by (intro dead_client_update [OF dead i i0, of p' t]) simp_all
  next
    case (Sync f)
    have "P (fst (f (shared p)))"
      using Sync(1) hung kept P by (cases "i \<in> hung") auto
    with Sync P hung kept show ?thesis by (intro dead_client_update [OF dead i i0, of p' "snd (f (shared p))"]) simp_all
  next
    case (Send tx m t)
    have tx: "tx \<noteq> conn p 0" using Send(2) full_send_refused [OF full] by auto
    with Send P hung kept show ?thesis by (intro dead_client_update [OF dead i i0, of p' t]) simp_all
  next
    case (Spawn c t)
    with P hung kept show ?thesis by (intro dead_client_update [OF dead i i0, of p' t]) simp_all
  qed
qed

lemma dead_client_move:
  assumes dead: "dead_client P hung p" and "pool_move mv p = Some p'"
  shows "dead_client P hung p'"
proof (cases mv)
  case (Run i)
  with assms show ?thesis by (auto intro: dead_client_job_step split: if_splits)
next
  case (CloseConn j)
  have "j \<noteq> 0"
    by (rule notI) (use assms CloseConn in \<open>auto simp: dead_client_def waits_for_itself_def split: if_splits\<close>)
  with assms CloseConn show ?thesis
    by (auto simp: dead_client_def waits_for_itself_def inj_eq split: if_splits)
qed (use assms in \<open>auto simp: dead_client_def waits_for_itself_def split: if_splits option.splits\<close>)

interpretation dead: invariant_system "dead_client P hung" pool_step "dead_client P hung" for P hung
  by unfold_locales (auto simp: pool_step_def intro: dead_client_move)


section \<open>How it comes to that\<close>










end
