(* ===== verification/Wedged_Broker.thy ===== *)
theory Wedged_Broker
  imports Connections
begin

text \<open>
  A client that calls unknown objects and does not read its answers stops the broker for good: the
  error of such a call is sent while the services mutex is held, and once the client's writer has
  failed and its channel is full, nothing takes a message from there any more.
\<close>

section \<open>A broker that stops\<close>

text \<open>
  The reader of connection \<open>i\<close> waits for room in the channel of its own connection, whose writer has
  ended, while it holds the services mutex.
\<close>

definition wedged :: "nat \<Rightarrow> actors \<Rightarrow> bool" where
  "wedged i q \<longleftrightarrow>
     i < length (jobs (core q)) \<and> (\<exists>m t. jobs (core q) ! i = Send (conn (core q) i) m t) \<and> reading q i \<and>
     holder (core q) ServicesM = Some i \<and> rx_open (chans (core q) (conn (core q) i)) \<and>
     places (chans (core q) (conn (core q) i)) \<le> length (queue (chans (core q) (conn (core q) i))) \<and>
     \<not> writing (core q) (conn (core q) i) \<and> inj (conn (core q))"

lemma wedged_step:
  assumes w: "wedged i q" and step: "run_act a q = Some q'"
  shows "wedged i q'"
proof (cases a)
  case (Step j)
  then obtain p where p: "j < length (jobs (core q))" "job_step j (core q) = Some p" "q' = q\<lparr>core := p\<rparr>"
    using step by (auto simp: with_core_def split: if_splits)
  have "j \<noteq> i" by (rule notI) (use w p(2) in \<open>auto simp: wedged_def job_step_def try_send_def\<close>)
  with p(2) w show ?thesis
    unfolding p(3)
    by (cases "jobs (core q) ! j")
      (auto simp: wedged_def job_step_def try_send_def split: if_splits prod.splits send_result.splits)
next
  case (DropRx j)
  with w step show ?thesis
    by (cases "j = i") (auto simp: wedged_def with_core_def inj_eq split: if_splits)
next
  case (CleanUp j)
  with w step show ?thesis by (cases "j = i") (auto simp: wedged_def split: if_splits)
qed (use w step in \<open>auto simp: wedged_def with_core_def writer_breaks_def split: if_splits option.splits\<close>)

lemma wedged_run: "wedged i q \<Longrightarrow> actors_run as q = Some q' \<Longrightarrow> wedged i q'"
  by (induction as arbitrary: q) (auto dest: wedged_step split: option.splits)

text \<open>One call of an unknown object: what it leaves, and where it waits if the channel is full.\<close>

definition unknown_call :: "codec \<Rightarrow> string \<Rightarrow> bytes \<Rightarrow> bool" where
  "unknown_call cd n buf =
     (case decode_packet cd buf of
        InRequest (Call ci n' _ _) \<Rightarrow> n' = n \<and> resp_to_vec cd (no_such_object ci n) \<noteq> None
      | _ \<Rightarrow> False)"

lemma unknown_callE:
  assumes "unknown_call cd n buf"
  obtains ci m a b where "decode_packet cd buf = InRequest (Call ci n m a)" "resp_to_vec cd (no_such_object ci n) = Some b"
  using assms by (auto simp: unknown_call_def split: incoming.splits RpcRequest.splits)

lemma run_unknown_calls:
  assumes "\<forall>buf \<in> set bufs. unknown_call cd n buf"
    and "clients s c = Some tx" "objects s n = None" "services s n = None"
  shows "\<exists>cs ms. length ms = length bufs \<and>
     run_task (for_each (dispatch cd it c) bufs) s = (s\<lparr>calls := cs\<rparr>, map (Sent tx) ms)"
  using assms
proof (induction bufs arbitrary: s)
  case (Cons buf bufs)
  then obtain ci m a b where "decode_packet cd buf = InRequest (Call ci n m a)"
      "resp_to_vec cd (no_such_object ci n) = Some b" by (auto elim: unknown_callE)
  with Cons.prems have first: "run_task (dispatch cd it c buf) s =
      (s\<lparr>calls := (calls s)(ci \<mapsto> (c, tx))\<rparr>, [Sent tx (Outgoing b)])"
    by (simp add: dispatch_def run_handle_call run_call_activate Let_def)
  let ?s1 = "s\<lparr>calls := (calls s)(ci \<mapsto> (c, tx))\<rparr>"
  from Cons.IH [of ?s1] Cons.prems obtain cs ms where
    "length ms = length bufs" "run_task (for_each (dispatch cd it c) bufs) ?s1 = (?s1\<lparr>calls := cs\<rparr>, map (Sent tx) ms)"
    by auto
  with first show ?case
    by (intro exI [of _ cs] exI [of _ "Outgoing b # ms"]) (simp add: run_seq)
next
  case Nil
  then show ?case by (intro exI [of _ "calls s"] exI [of _ "[]"]) simp
qed

lemma unknown_call_waits:
  assumes "unknown_call cd n buf" and "clients s c = Some tx" "objects s n = None" "services s n = None"
    and p: "holder p = Map.empty" "jobs p = seq (dispatch cd it c buf) k # ts" "shared p = s"
  shows "\<exists>p' m t. runs_to 0 p p' \<and> jobs p' ! 0 = Send tx m t \<and> jobs p' \<noteq> [] \<and> holder p' ServicesM = Some 0 \<and>
     chans p' = chans p \<and> writing p' = writing p \<and> conn p' = conn p"
proof -
  obtain ci m a b where call: "decode_packet cd buf = InRequest (Call ci n m a)"
      "resp_to_vec cd (no_such_object ci n) = Some b"
    using assms(1) by (rule unknown_callE)
  let ?p' = "p\<lparr>shared := s\<lparr>calls := (calls s)(ci \<mapsto> (c, tx))\<rparr>, holder := [ServicesM \<mapsto> 0],
      jobs := Send tx (Outgoing b) (Unlock ServicesM k) # ts\<rparr>"
  have "pool_run (replicate 13 (Run 0)) p = Some ?p'"
    using call assms
    by (simp add: numeral_eq_Suc job_step_def dispatch_def handle_call_def call_activate_def Let_def with_lock_def
        send_to_client_def fun_eq_iff)
  then have "runs_to 0 p ?p'"
    unfolding runs_to_def by (intro exI [of _ "replicate 13 (Run 0)"]) simp
  then show ?thesis
    by (intro exI [of _ ?p'] exI) auto
qed

text \<open>
  C17: one client can stop the broker for good. Take a connection whose packets call an unknown object, two
  more of them than its channel has places, and whose peer does not read: its writer takes the first answer
  and fails to write it. By moves of this connection alone the broker reaches a state from which, whatever
  is scheduled, the reader waits for room in its own channel and holds the services mutex: it never
  finishes, \<open>run\<close> never gets past it to the cleanup, and no other task gets the mutex again.
\<close>

theorem unread_errors_wedge_broker:
  assumes "fst (read_all r) = bufs @ rest" and "length bufs = Suc (Suc client_channel_places)"
    and "\<forall>buf \<in> set bufs. unknown_call cd n buf"
    and "clients s c = Some (txs 0)" and "objects s n = None" and "services s n = None" and "inj txs"
  shows "\<exists>as q. set as \<subseteq> {Step 0, WriteFails (txs 0)} \<and>
     actors_run as (start_actors cd it txs s ((c, r) # others)) = Some q \<and>
     (\<forall>as' q'. actors_run as' q = Some q' \<longrightarrow>
        reading q' 0 \<and> jobs (core q') ! 0 \<noteq> Done \<and> holder (core q') ServicesM = Some 0)"
proof -
  obtain b0 bs b where bufs: "bufs = b0 # bs @ [b]" and len: "length bs = client_channel_places"
    using assms(2) by (metis length_Suc_conv length_Suc_conv_rev)
  have unknown: "\<forall>buf \<in> set [b0]. unknown_call cd n buf" "\<forall>buf \<in> set bs. unknown_call cd n buf" "unknown_call cd n b"
    using assms(3) by (simp_all add: bufs)
  obtain cs1 m where first: "run_task (dispatch cd it c b0) s = (s\<lparr>calls := cs1\<rparr>, [Sent (txs 0) m])"
    using run_unknown_calls [OF unknown(1) assms(4-6), of it] by (auto simp: length_Suc_conv)
  have s1: "clients (s\<lparr>calls := cs1\<rparr>) c = Some (txs 0)" "objects (s\<lparr>calls := cs1\<rparr>) n = None" "services (s\<lparr>calls := cs1\<rparr>) n = None"
    using assms(4-6) by simp_all
  obtain cs ms where ms: "length ms = length bs"
      and second: "run_task (for_each (dispatch cd it c) bs) (s\<lparr>calls := cs1\<rparr>) = (s\<lparr>calls := cs\<rparr>, map (Sent (txs 0)) ms)"
    using run_unknown_calls [OF unknown(2) s1, of it] by auto
  have "fst (read_all r) = b0 # bs @ (b # rest)" using assms(1) by (simp add: bufs)
  from connection_fills_its_channel [where txs = txs and others = others, OF this len first second ms]
  obtain as q where q: "set as \<subseteq> {Step 0, WriteFails (txs 0)}" "actors_run as (start_actors cd it txs s ((c, r) # others)) = Some q"
      and full: "fills_own_channel (s\<lparr>calls := cs\<rparr>) txs (for_each (dispatch cd it c) (b # rest))
        (map (\<lambda>(c, r). reader_loop cd it c r) others) q" by blast
  have s2: "clients (s\<lparr>calls := cs\<rparr>) c = Some (txs 0)" "objects (s\<lparr>calls := cs\<rparr>) n = None" "services (s\<lparr>calls := cs\<rparr>) n = None"
    using assms(4-6) by simp_all
  obtain p m' t where p: "runs_to 0 (core q) p" "jobs p ! 0 = Send (txs 0) m' t" "jobs p \<noteq> []" "holder p ServicesM = Some 0"
      "chans p = chans (core q)" "writing p = writing (core q)" "conn p = conn (core q)"
    using unknown_call_waits [where p = "core q" and it = it and k = "for_each (dispatch cd it c) rest", OF unknown(3) s2] full
    by (auto simp: fills_own_channel_def)
  obtain as2 where as2: "set as2 \<subseteq> {Step 0}" "actors_run as2 q = Some (q\<lparr>core := p\<rparr>)"
    using runs_to_actors [OF p(1)] by blast
  have wedged: "wedged 0 (q\<lparr>core := p\<rparr>)"
    using p full assms(7) by (simp add: wedged_def fills_own_channel_def)
  have "reading q' 0 \<and> jobs (core q') ! 0 \<noteq> Done \<and> holder (core q') ServicesM = Some 0"
    if "actors_run as' (q\<lparr>core := p\<rparr>) = Some q'" for as' q'
    using wedged_run [OF wedged that] by (auto simp: wedged_def)
  moreover have "actors_run (as @ as2) (start_actors cd it txs s ((c, r) # others)) = Some (q\<lparr>core := p\<rparr>)"
    by (rule actors_run_trans [OF q(2) as2(2)])
  ultimately show ?thesis
    using q(1) as2(1) by (intro exI [of _ "as @ as2"] exI [of _ "q\<lparr>core := p\<rparr>"]) auto
qed

theorem unread_errors_wedge_broker_witness:
  "\<exists>as q. actors_run as (start_actors demo_codec demo_order id ((empty_state Map.empty)\<lparr>clients := [caller \<mapsto> 0]\<rparr>)
       [(caller, \<lparr>avail = concat (map frame (replicate (Suc (Suc client_channel_places)) [1])), ends = None\<rparr>),
        (worker, \<lparr>avail = [], ends = None\<rparr>)]) = Some q \<and>
     (\<forall>as' q'. actors_run as' q = Some q' \<longrightarrow>
        reading q' 0 \<and> jobs (core q') ! 0 \<noteq> Done \<and> holder (core q') ServicesM = Some 0)"
proof -
  let ?bufs = "replicate (Suc (Suc client_channel_places)) [1] :: bytes list"
  have "fst (read_all \<lparr>avail = concat (map frame ?bufs), ends = None\<rparr>) = ?bufs @ []"
    using read_all_concat [of ?bufs "[]" None] by (simp add: read_all_empty packet_fits_def BUF_SIZE_eq list_all_iff)
  moreover have "\<forall>buf \<in> set ?bufs. unknown_call demo_codec ''math'' buf"
    by (simp add: unknown_call_def)
  ultimately show ?thesis
    using unread_errors_wedge_broker [of "\<lparr>avail = concat (map frame ?bufs), ends = None\<rparr>" ?bufs "[]" demo_codec "''math''"
        "(empty_state Map.empty)\<lparr>clients := [caller \<mapsto> 0]\<rparr>" caller id demo_order "[(worker, \<lparr>avail = [], ends = None\<rparr>)]"]
    by (simp add: empty_state_def del: replicate_Suc) blast
qed

end
