(* ===== verification/Accounting.thy ===== *)
theory Accounting
  imports Schedules
begin

text \<open>
  Counting what concurrent tasks may emit. A task is given a budget that covers the cost of what it
  sends and spawns; a gauge of the shared maps is credit that tasks pay in and draw on. Whatever the
  schedule, the pool never spends more than budgets and gauge allow at the start. Two gauges make
  two properties: an open call is credit for one answer, a stopped service is credit for one start.
\<close>

section \<open>Budgets of tasks\<close>

primrec affordable ::
    "(ServerState \<Rightarrow> bool) \<Rightarrow> (ServerState \<Rightarrow> nat) \<Rightarrow> (effect \<Rightarrow> nat) \<Rightarrow> task \<Rightarrow> nat \<Rightarrow> bool" where
  "affordable P g cost Done n \<longleftrightarrow> True"
| "affordable P g cost (Lock m t) n \<longleftrightarrow> affordable P g cost t n"
| "affordable P g cost (Unlock m t) n \<longleftrightarrow> affordable P g cost t n"
| "affordable P g cost (Sync f) n \<longleftrightarrow>
     (\<forall>s. P s \<longrightarrow> (\<lambda>(s', b). P s' \<and> (\<exists>k. b k \<and> g s' + k \<le> g s + n)) (map_prod id (affordable P g cost) (f s)))"
| "affordable P g cost (Send tx m t) n \<longleftrightarrow>
     cost (Sent tx m) \<le> n \<and> affordable P g cost t (n - cost (Sent tx m))"
| "affordable P g cost (Spawn c t) n \<longleftrightarrow>
     cost (Spawned c) \<le> n \<and> affordable P g cost t (n - cost (Spawned c))"

lemma affordable_Sync [simp]:
  "affordable P g cost (Sync f) n \<longleftrightarrow>
     (\<forall>s. P s \<longrightarrow> P (fst (f s)) \<and> (\<exists>k. affordable P g cost (snd (f s)) k \<and> g (fst (f s)) + k \<le> g s + n))"
  by (simp add: split_beta)

declare affordable.simps(4) [simp del]

lemma affordable_mono: "affordable P g cost t n \<Longrightarrow> n \<le> n' \<Longrightarrow> affordable P g cost t n'"
proof (induction t arbitrary: n n' rule: task_induct)
  case (Sync f)
  have "\<exists>k. affordable P g cost (snd (f s)) k \<and> g (fst (f s)) + k \<le> g s + n'" if "P s" for s
    using Sync.prems that by (meson affordable_Sync add_left_mono le_trans)
  with Sync.prems show ?case by simp
next
  case (Send tx m t)
  then show ?case using diff_le_mono by fastforce
next
  case (Spawn c t)
  then show ?case using diff_le_mono by fastforce
qed auto

lemma affordable_seq:
  "affordable P g cost t n \<Longrightarrow> affordable P g cost k m \<Longrightarrow> affordable P g cost (seq t k) (n + m)"
proof (induction t arbitrary: n rule: task_induct)
  case Done
  then show ?case by (auto intro: affordable_mono)
next
  case (Sync f)
  have "\<exists>j. affordable P g cost (seq (snd (f s)) k) j \<and> g (fst (f s)) + j \<le> g s + (n + m)" if s: "P s" for s
  proof -
    from Sync.prems s obtain j where "affordable P g cost (snd (f s)) j" "g (fst (f s)) + j \<le> g s + n"
      by auto
    with Sync.IH [of s j] Sync.prems show ?thesis by (intro exI [of _ "j + m"]) simp
  qed
  with Sync.prems show ?case by simp
next
  case (Send tx msg t)
  from Send.IH [of "n - cost (Sent tx msg)"] Send.prems show ?case by simp
next
  case (Spawn c t)
  from Spawn.IH [of "n - cost (Spawned c)"] Spawn.prems show ?case by simp
qed auto

lemma affordable_seq_le:
  "affordable P g cost t n \<Longrightarrow> affordable P g cost k m \<Longrightarrow> n + m \<le> b \<Longrightarrow> affordable P g cost (seq t k) b"
  by (rule affordable_mono [OF affordable_seq])

lemma affordable_seq_free:
  "affordable P g cost t 0 \<Longrightarrow> affordable P g cost k m \<Longrightarrow> affordable P g cost (seq t k) m"
  by (drule (1) affordable_seq) simp

lemma affordable_with_lock [simp]:
  "affordable P g cost (with_lock m f) n \<longleftrightarrow>
     (\<forall>s. P s \<longrightarrow> P (fst (f s)) \<and> (\<exists>k. affordable P g cost (snd (f s)) k \<and> g (fst (f s)) + k \<le> g s + n))"
  by (simp add: with_lock_def split_beta)

lemma affordable_for_each:
  "(\<And>x. x \<in> set xs \<Longrightarrow> affordable P g cost (body x) (w x)) \<Longrightarrow>
   affordable P g cost (for_each body xs) (sum_list (map w xs))"
  by (induction xs) (auto intro: affordable_seq)

lemma affordable_for_each_free:
  "(\<And>x. x \<in> set xs \<Longrightarrow> affordable P g cost (body x) 0) \<Longrightarrow> affordable P g cost (for_each body xs) 0"
  using affordable_for_each [of xs P g cost body "\<lambda>_. 0"] by simp

text \<open>A piece of code that leaves gauge and predicate alone.\<close>

lemma affordable_lookup:
  "(\<And>s. affordable P g cost (t s) n) \<Longrightarrow> affordable P g cost (with_lock m (\<lambda>s. (s, t s))) n"
  by auto

section \<open>Budgets of pools\<close>

definition spent :: "(effect \<Rightarrow> nat) \<Rightarrow> ClientSender set \<Rightarrow> pool \<Rightarrow> nat" where
  "spent cost A p =
     (\<Sum>tx \<in> A. \<Sum>m \<leftarrow> accepted p tx. cost (Sent tx m)) + (\<Sum>c \<leftarrow> commands p. cost (Spawned c))"

definition within ::
    "(ServerState \<Rightarrow> bool) \<Rightarrow> (ServerState \<Rightarrow> nat) \<Rightarrow> (effect \<Rightarrow> nat) \<Rightarrow> ClientSender set \<Rightarrow> nat \<Rightarrow> pool \<Rightarrow> bool" where
  "within P g cost A K p \<longleftrightarrow>
     P (shared p) \<and> (\<exists>ns. length ns = length (jobs p) \<and>
       (\<forall>i < length (jobs p). affordable P g cost (jobs p ! i) (ns ! i)) \<and>
       g (shared p) + sum_list ns + spent cost A p \<le> K)"

lemma sum_list_pay:
  fixes ns :: "nat list"
  assumes "i < length ns" and "x + d \<le> ns ! i + e"
  shows "sum_list (ns[i := x]) + d \<le> sum_list ns + e"
proof -
  have "ns ! i \<le> sum_list ns" using assms(1) by (simp add: elem_le_sum_list)
  with assms show ?thesis by (simp add: sum_list_update)
qed

text \<open>A task pays for its move out of its budget and the gauge.\<close>

lemma withinI_update:
  assumes old: "within P g cost A K p" and i: "i < length (jobs p)"
    and P: "P (shared p')" and jobs: "jobs p' = (jobs p)[i := t]"
    and own: "\<And>n. affordable P g cost (jobs p ! i) n \<Longrightarrow>
      \<exists>k. affordable P g cost t k \<and> g (shared p') + k + spent cost A p' \<le> g (shared p) + n + spent cost A p"
  shows "within P g cost A K p'"
proof -
  from old obtain ns where len: "length ns = length (jobs p)"
    and aff: "\<And>j. j < length (jobs p) \<Longrightarrow> affordable P g cost (jobs p ! j) (ns ! j)"
    and sum: "g (shared p) + sum_list ns + spent cost A p \<le> K"
    by (auto simp: within_def)
  from own [OF aff [OF i]] obtain k where k: "affordable P g cost t k"
      "g (shared p') + k + spent cost A p' \<le> g (shared p) + ns ! i + spent cost A p" by blast
  then have "sum_list (ns[i := k]) + (g (shared p') + spent cost A p') \<le> sum_list ns + (g (shared p) + spent cost A p)"
    using i len by (intro sum_list_pay) auto
  with sum have "g (shared p') + sum_list (ns[i := k]) + spent cost A p' \<le> K" by simp
  with P len aff k(1) i show ?thesis
    unfolding within_def jobs by (intro conjI exI [of _ "ns[i := k]"]) (auto simp: nth_list_update)
qed

lemma spent_update [simp]:
  "spent cost A (p\<lparr>shared := s\<rparr>) = spent cost A p" "spent cost A (p\<lparr>holder := h\<rparr>) = spent cost A p"
  "spent cost A (p\<lparr>jobs := ts\<rparr>) = spent cost A p" "spent cost A (p\<lparr>writing := w\<rparr>) = spent cost A p"
  by (simp_all add: spent_def accepted_def)

lemma spent_send:
  assumes "finite A" and "chans p' = (chans p)(tx := snd (try_send m (chans p tx)))"
    and "written p' = written p" "commands p' = commands p"
  shows "spent cost A p' \<le> spent cost A p + cost (Sent tx m)"
proof -
  let ?f = "\<lambda>p y. \<Sum>m \<leftarrow> accepted p y. cost (Sent y m)"
  have le: "?f p' y \<le> ?f p y + (if y = tx then cost (Sent tx m) else 0)" for y
    by (simp add: accepted_def assms try_send_def)
  have "sum (?f p') A \<le> (\<Sum>y \<in> A. ?f p y + (if y = tx then cost (Sent tx m) else 0))"
    by (rule sum_mono) (rule le)
  also have "\<dots> \<le> sum (?f p) A + cost (Sent tx m)"
    using assms(1) by (simp add: sum.distrib sum.delta)
  finally show ?thesis by (simp add: spent_def assms)
qed

lemma within_job_step:
  assumes w: "within P g cost A K p" and fin: "finite A" and i: "i < length (jobs p)" and step: "job_step i p = Some p'"
  shows "within P g cost A K p'"
proof -
  from w have P: "P (shared p)" by (simp add: within_def)
  from step show ?thesis
  proof (cases rule: job_stepE)
    case (Lock m t)
    with P show ?thesis by (intro withinI_update [OF w i, of p' t]) auto
  next
    case (Unlock m t)
    with P show ?thesis by (intro withinI_update [OF w i, of p' t]) auto
  next
    case (Sync f)
    show ?thesis
    proof (rule withinI_update [OF w i])
      show "jobs p' = (jobs p)[i := snd (f (shared p))]" by (simp add: Sync)
      from w i Sync P show "P (shared p')" by (auto simp: within_def)
      fix n assume "affordable P g cost (jobs p ! i) n"
      with Sync P obtain k where "affordable P g cost (snd (f (shared p))) k" "g (shared p') + k \<le> g (shared p) + n"
        by auto
      then show "\<exists>k. affordable P g cost (snd (f (shared p))) k \<and>
          g (shared p') + k + spent cost A p' \<le> g (shared p) + n + spent cost A p"
        by (intro exI [of _ k]) (simp add: Sync)
    qed
  next
    case (Send tx m t)
    show ?thesis
    proof (rule withinI_update [OF w i])
      fix n assume "affordable P g cost (jobs p ! i) n"
      with spent_send [OF fin, of p' p tx m cost] show "\<exists>k. affordable P g cost t k \<and>
          g (shared p') + k + spent cost A p' \<le> g (shared p) + n + spent cost A p"
        by (intro exI [of _ "n - cost (Sent tx m)"]) (simp add: Send)
    qed (use P in \<open>simp_all add: Send\<close>)
  next
    case (Spawn c t)
    show ?thesis
    proof (rule withinI_update [OF w i])
      fix n assume "affordable P g cost (jobs p ! i) n"
      then show "\<exists>k. affordable P g cost t k \<and>
          g (shared p') + k + spent cost A p' \<le> g (shared p) + n + spent cost A p"
        by (intro exI [of _ "n - cost (Spawned c)"]) (simp add: Spawn spent_def accepted_def)
    qed (use P in \<open>simp_all add: Spawn\<close>)
  qed
qed

lemma within_spent_le:
  "within P g cost A K p \<Longrightarrow> shared p' = shared p \<Longrightarrow> jobs p' = jobs p \<Longrightarrow> spent cost A p' \<le> spent cost A p \<Longrightarrow>
   within P g cost A K p'"
  unfolding within_def by fastforce

lemma within_move:
  assumes "finite A" and "within P g cost A K p" and "pool_move mv p = Some p'"
  shows "within P g cost A K p'"
proof (cases mv)
  case (Run i)
  with assms show ?thesis by (auto intro: within_job_step split: if_splits)
next
  case (Deliver tx)
  with assms obtain m c where "recv (chans p tx) = Some (m, c)" and
    p': "p' = p\<lparr>chans := (chans p)(tx := c), written := (written p)(tx := written p tx @ [m])\<rparr>"
    by (auto split: if_splits option.splits)
  then have "queue (chans p tx) = m # queue c" by (intro mpsc.pop_some [THEN conjunct1])
  then have "accepted p' y = accepted p y" for y by (simp add: accepted_def p')
  then have "spent cost A p' = spent cost A p" by (simp add: spent_def p')
  then show ?thesis by (intro within_spent_le [OF assms(2)]) (simp_all add: p')
next
  case (WriterEnds tx)
  with assms(3) have p': "p' = p\<lparr>writing := (writing p)(tx := False)\<rparr>" by simp
  show ?thesis by (rule within_spent_le [OF assms(2)]) (simp_all add: p')
next
  case (CloseConn i)
  with assms(3) have p': "p' = p\<lparr>chans := (chans p)(conn p i := close_rx (chans p (conn p i)))\<rparr>"
    by (auto split: if_splits)
  have "spent cost A p' \<le> spent cost A p"
    unfolding spent_def by (intro add_mono sum_mono) (auto simp: p' accepted_def close_rx_def)
  then show ?thesis by (intro within_spent_le [OF assms(2)]) (simp_all add: p')
qed

interpretation accounting: invariant_system
  "within P g cost A K" "\<lambda>p p'. finite A \<and> pool_step p p'" "within P g cost A K" for P g cost A K
  by unfold_locales (auto simp: pool_step_def intro: within_move)

lemma within_run:
  assumes "within P g cost A K p" and "finite A" and "pool_run mvs p = Some p'"
  shows "within P g cost A K p'"
proof -
  have "(\<lambda>p p'. finite A \<and> pool_step p p')\<^sup>*\<^sup>* p p'"
    using pool_run_steps [OF assms(3)] by (rule rtranclp_mono [THEN predicate2D, rotated]) (auto simp: assms(2))
  with assms(1) show ?thesis by (rule accounting.good_reachable)
qed

text \<open>The start: every task with its budget.\<close>

lemma spent_start [simp]: "spent cost A (start_pool txs s ts) = 0"
  by (simp add: spent_def start_pool_def accepted_def new_channel_def)

lemma spent_bound:
  assumes "P s" and "\<And>x. x \<in> set xs \<Longrightarrow> affordable P g cost (job x) (w x)"
    and "finite A" and "pool_run mvs (start_pool txs s (map job xs)) = Some p"
  shows "spent cost A p \<le> g s + sum_list (map w xs)"
proof -
  have "within P g cost A (g s + sum_list (map w xs)) (start_pool txs s (map job xs))"
    unfolding within_def spent_start
    by (intro conjI exI [of _ "map w xs"]) (simp_all add: start_pool_def assms)
  from within_run [OF this assms(3,4)] show ?thesis by (auto simp: within_def)
qed

end
