(* ===== verification/Guarantees.thy ===== *)
theory Guarantees
  imports Accounting
begin

text \<open>
  Two bounds that hold of the concurrent broker under every schedule, even one that ends writers and
  drops channels: a client gets no more answers with an id than it sent calls with it, and a unit is
  started once, and once more for every connection that took the service over and every explicit
  registration of it.
\<close>

section \<open>Answers\<close>

text \<open>
  What the bound needs of the codec: a request is never read as a response, and a response that is
  read back has the id with which it was written.
\<close>

definition ids_kept :: "codec \<Rightarrow> bool" where
  "ids_kept cd \<longleftrightarrow>
     (\<forall>r b resp. req_to_vec cd r = Some b \<longrightarrow> decode_packet cd b \<noteq> InResponse resp) \<and>
     (\<forall>r b resp. resp_to_vec cd r = Some b \<longrightarrow> decode_packet cd b = InResponse resp \<longrightarrow>
        response_call_id resp = response_call_id r)"

definition is_answer :: "codec \<Rightarrow> CallId \<Rightarrow> ClientMsg \<Rightarrow> bool" where
  "is_answer cd ci msg =
     (case msg of
        Outgoing b \<Rightarrow> (case decode_packet cd b of InResponse r \<Rightarrow> response_call_id r = Some ci | _ \<Rightarrow> False)
      | ShutdownMsg \<Rightarrow> False)"

definition answer_cost :: "codec \<Rightarrow> CallId \<Rightarrow> ClientSender \<Rightarrow> effect \<Rightarrow> nat" where
  "answer_cost cd ci tx e = (case e of Sent tx' m \<Rightarrow> if tx' = tx \<and> is_answer cd ci m then 1 else 0 | Spawned _ \<Rightarrow> 0)"

text \<open>An open call of the connection behind \<open>tx\<close> is credit for one answer.\<close>

definition open_call :: "CallId \<Rightarrow> ClientSender \<Rightarrow> ServerState \<Rightarrow> nat" where
  "open_call ci tx s = (case calls s ci of Some (_, tx') \<Rightarrow> if tx' = tx then 1 else 0 | None \<Rightarrow> 0)"

definition calls_sent :: "codec \<Rightarrow> CallId \<Rightarrow> bytes list \<Rightarrow> nat" where
  "calls_sent cd ci bufs =
     length (filter (\<lambda>b. case decode_packet cd b of InRequest (Call ci' _ _ _) \<Rightarrow> ci' = ci | _ \<Rightarrow> False) bufs)"

text \<open>The states: the called objects are services, and \<open>tx\<close> belongs to client \<open>c\<close>.\<close>

definition callers_known :: "string list \<Rightarrow> ClientId \<Rightarrow> ClientSender \<Rightarrow> ServerState \<Rightarrow> bool" where
  "callers_known ns c tx s \<longleftrightarrow> services_known ns s \<and> (\<forall>d. clients s d = Some tx \<longrightarrow> d = c)"

lemma answer_cost_simps [simp]:
  "answer_cost cd ci tx (Sent tx' m) = (if tx' = tx \<and> is_answer cd ci m then 1 else 0)"
  "answer_cost cd ci tx (Spawned c) = 0"
  by (simp_all add: answer_cost_def)

lemma not_answer:
  assumes "ids_kept cd"
  shows "req_to_vec cd r = Some b \<Longrightarrow> \<not> is_answer cd ci (Outgoing b)"
    and "resp_to_vec cd resp = Some b \<Longrightarrow> response_call_id resp \<noteq> Some ci \<Longrightarrow> \<not> is_answer cd ci (Outgoing b)"
  using assms by (auto simp: ids_kept_def is_answer_def split: incoming.split)

lemma callers_known_update [simp]:
  "callers_known ns c tx (s\<lparr>objects := x2\<rparr>) = callers_known ns c tx s"
  "callers_known ns c tx (s\<lparr>subscriptions := x3\<rparr>) = callers_known ns c tx s"
  "callers_known ns c tx (s\<lparr>calls := x4\<rparr>) = callers_known ns c tx s"
  "callers_known ns c tx s \<Longrightarrow> callers_known ns c tx (s\<lparr>services := (services s)(n \<mapsto> svc)\<rparr>)"
  "callers_known ns c tx (s\<lparr>services := purge_services active d (services s)\<rparr>) = callers_known ns c tx s"
  "callers_known ns c tx s \<Longrightarrow> callers_known ns c tx (s\<lparr>clients := purge_clients d (clients s)\<rparr>)"
  by (auto simp: callers_known_def purge_clients_def)

lemma open_call_update [simp]:
  "open_call ci tx (s\<lparr>objects := x2\<rparr>) = open_call ci tx s" "open_call ci tx (s\<lparr>subscriptions := x3\<rparr>) = open_call ci tx s"
  "open_call ci tx (s\<lparr>clients := x1\<rparr>) = open_call ci tx s" "open_call ci tx (s\<lparr>services := x5\<rparr>) = open_call ci tx s"
  by (simp_all add: open_call_def)

lemma open_call_purge: "open_call ci tx (s\<lparr>calls := purge_calls d (calls s)\<rparr>) \<le> open_call ci tx s"
  by (auto simp: open_call_def purge_calls_def map_retain_def split: option.split)

abbreviation answers_affordable where
  "answers_affordable cd ns c tx ci \<equiv> affordable (callers_known ns c tx) (open_call ci tx) (answer_cost cd ci tx)"

lemma answers_send_to_client:
  "(\<And>b. ser = Some b \<Longrightarrow> \<not> is_answer cd ci (Outgoing b)) \<Longrightarrow> answers_affordable cd ns c tx ci (send_to_client d ser) n"
  by (auto simp: send_to_client_def split: option.split)

lemma answers_send_to_client_other:
  "d \<noteq> c \<Longrightarrow> answers_affordable cd ns c tx ci (send_to_client d ser) n"
  by (auto simp: send_to_client_def callers_known_def split: option.split)

lemma answers_send_to_client_one: "answers_affordable cd ns c tx ci (send_to_client d ser) (Suc 0)"
  by (auto simp: send_to_client_def split: option.split)

lemma answers_call_activate:
  assumes "n \<in> set ns"
  shows "answers_affordable cd ns c tx ci (call_activate cd ci' n m a d) 0"
proof -
  have "\<exists>svc. services s n = Some svc" if "callers_known ns c tx s" for s
    using that assms by (auto simp: callers_known_def services_known_iff)
  then show ?thesis
    by (force simp: call_activate_def split: option.split ServiceState.split)
qed

lemma answers_handle_call:
  assumes ids: "ids_kept cd" and n: "n \<in> set ns"
  shows "answers_affordable cd ns c tx ci (handle_call cd ci' n m a d) (if d = c \<and> ci' = ci then 1 else 0)"
proof -
  let ?b = "if d = c \<and> ci' = ci then 1 else 0 :: nat"
  let ?gone = "send_to_client d (resp_to_vec cd (Error (Some ci') n ''Caller disconnected''))"
  have gone: "answers_affordable cd ns c tx ci ?gone ?b"
  proof (cases "d = c \<and> ci' = ci")
    case True
    then show ?thesis by (simp add: answers_send_to_client_one)
  next
    case False
    show ?thesis
    proof (cases "d = c")
      case True
      with False not_answer(2) [OF ids, of "Error (Some ci') n ''Caller disconnected''"] show ?thesis
        by (auto intro!: answers_send_to_client)
    qed (rule answers_send_to_client_other)
  qed
  have recorded: "answers_affordable cd ns c tx ci
      (with_lock Calls (\<lambda>s. (s\<lparr>calls := (calls s)(ci' \<mapsto> (d, caller_tx))\<rparr>, Done))) ?b"
    if "callers_known ns c tx s" "clients s d = Some caller_tx" for s caller_tx
    using that by (auto simp: open_call_def callers_known_def)
  have go: "answers_affordable cd ns c tx ci
      (seq (with_lock Calls (\<lambda>s. (s\<lparr>calls := (calls s)(ci' \<mapsto> (d, caller_tx))\<rparr>, Done))) t) ?b"
    if "callers_known ns c tx s" "clients s d = Some caller_tx" "answers_affordable cd ns c tx ci t 0" for s caller_tx t
    using that by (intro affordable_seq_le [OF recorded]) auto
  show ?thesis
    unfolding handle_call_def Let_def affordable.simps(2,3) affordable_Sync fst_conv snd_conv
    using gone not_answer(1) [OF ids]
    by (auto simp del: affordable_with_lock split del: if_split split: option.split
        intro!: exI [of _ ?b] intro: go recorded answers_call_activate [OF n])
qed

lemma answers_dispatch:
  assumes ids: "ids_kept cd" and ns: "set (called_objects cd [buf]) \<subseteq> set ns"
  shows "answers_affordable cd ns c tx ci (dispatch cd it d buf) (if d = c then calls_sent cd ci [buf] else 0)"
proof (cases "decode_packet cd buf")
  case (InRequest req)
  note free = not_answer(1) [OF ids] not_answer(2) [OF ids, where ci = ci]
  show ?thesis
  proof (cases req)
    case (Call ci' n m a)
    with InRequest ns have "n \<in> set ns" by (simp add: called_objects_def map_filter_simps)
    from answers_handle_call [OF ids this, of c tx ci ci' m a d] show ?thesis
      by (auto simp: dispatch_def InRequest Call calls_sent_def split: if_splits elim: affordable_mono)
  qed (use InRequest free in \<open>auto simp: dispatch_def handle_register_object_def handle_register_service_def
      handle_subscribe_def handle_publish_def handle_has_object_def Let_def calls_sent_def split: option.split
      intro!: affordable_seq_free affordable_for_each_free answers_send_to_client\<close>)
next
  case (InResponse resp)
  note free = not_answer(2) [OF ids, where ci = ci]
  show ?thesis
    using free by (auto simp: dispatch_def InResponse handle_response_def forward_response_def open_call_def calls_sent_def
        split: option.split)
qed (simp add: dispatch_def)

lemma answers_cleanup: "answers_affordable cd ns c tx ci (cleanup_client d) 0"
  by (auto simp: cleanup_client_def Let_def intro!: affordable_seq_free exI [of _ 0] open_call_purge)

lemma calls_sent_sum: "(\<Sum>b \<leftarrow> bufs. calls_sent cd ci [b]) = calls_sent cd ci bufs"
  by (induction bufs) (simp_all add: calls_sent_def)

lemma answers_client_run:
  assumes ids: "ids_kept cd" and ns: "set (called_objects cd (fst (read_all r))) \<subseteq> set ns"
  shows "answers_affordable cd ns c tx ci (client_run cd it d r)
     (if d = c then calls_sent cd ci (fst (read_all r)) else 0)"
proof -
  let ?w = "\<lambda>buf. if d = c then calls_sent cd ci [buf] else 0"
  have "answers_affordable cd ns c tx ci (dispatch cd it d buf) (?w buf)" if "buf \<in> set (fst (read_all r))" for buf
    using that ns by (intro answers_dispatch ids) (force simp: called_objects_def List.map_filter_def split: if_splits)
  then have "answers_affordable cd ns c tx ci (for_each (dispatch cd it d) (fst (read_all r)))
      (sum_list (map ?w (fst (read_all r))))"
    by (rule affordable_for_each)
  from affordable_seq [OF this answers_cleanup [of _ _ _ _ _ d]] show ?thesis
    by (cases "d = c") (simp_all add: client_run_def reader_loop_eq calls_sent_sum)
qed

text \<open>
  C14: under every schedule of the concurrent broker, whatever its writers and channels do, the
  messages accepted for a client contain at most as many answers (results and errors) with a call id
  as the client sent calls with that id, as long as the called objects are known as services. Nobody
  gets an answer that he did not ask for, and no call is answered twice.
\<close>

theorem no_client_gets_more_answers_than_calls:
  assumes "ids_kept cd" and "services_known (all_called cd cs) s"
    and "\<forall>d. clients s d = Some tx \<longrightarrow> d = c" and "open_call ci tx s = 0"
    and "pool_run mvs (start_pool txs s (client_jobs cd it cs)) = Some p"
  shows "length (filter (is_answer cd ci) (accepted p tx))
     \<le> (\<Sum>(d, r) \<leftarrow> cs. if d = c then calls_sent cd ci (fst (read_all r)) else 0)"
proof -
  have "spent (answer_cost cd ci tx) {tx} p \<le> open_call ci tx s
      + (\<Sum>(d, r) \<leftarrow> cs. if d = c then calls_sent cd ci (fst (read_all r)) else 0)"
  proof (rule spent_bound)
    show "callers_known (all_called cd cs) c tx s" using assms by (simp add: callers_known_def)
    show "pool_run mvs (start_pool txs s (map (\<lambda>(d, r). client_run cd it d r) cs)) = Some p"
      using assms(5) by (simp add: client_jobs_def)
    fix x assume x: "x \<in> set cs"
    obtain d r where "x = (d, r)" by force
    with x answers_client_run [OF assms(1), of r "all_called cd cs" c tx ci it d] show "answers_affordable cd (all_called cd cs) c tx ci (case x of (d, r) \<Rightarrow> client_run cd it d r)
        (case x of (d, r) \<Rightarrow> if d = c then calls_sent cd ci (fst (read_all r)) else 0)"
      by (fastforce simp: all_called_def)
  qed simp
  moreover have "(\<Sum>m \<leftarrow> ms. answer_cost cd ci tx (Sent tx m)) = length (filter (is_answer cd ci) ms)" for ms
    by (induction ms) simp_all
  ultimately show ?thesis by (simp add: spent_def assms(4))
qed

theorem no_client_gets_more_answers_than_calls_witness:
  "\<exists>p. pool_run (replicate 9 (Run 0) @ replicate 4 (Run 1))
       (start_pool id (demo_state\<lparr>services := [''math'' \<mapsto> stopped_entry ''math.service'']\<rparr>)
         (client_jobs demo_codec demo_order
           [(caller, \<lparr>avail = concat (map frame [[1]]), ends = None\<rparr>), (worker, \<lparr>avail = concat (map frame [[10]]), ends = None\<rparr>)])) = Some p \<and>
     accepted p 2 = [Outgoing [10]] \<and> is_answer demo_codec call_1 (Outgoing [10]) \<and>
     length (filter (is_answer demo_codec call_1) (accepted p 2)) \<le> 1"
proof -
  let ?cs = "[(caller, \<lparr>avail = concat (map frame [[1]]), ends = None\<rparr>), (worker, \<lparr>avail = concat (map frame [[10]]), ends = None\<rparr>)]"
  let ?s = "demo_state\<lparr>services := [''math'' \<mapsto> stopped_entry ''math.service'']\<rparr>"
  let ?p = "pool_run (replicate 9 (Run 0) @ replicate 4 (Run 1)) (start_pool id ?s (client_jobs demo_codec demo_order ?cs))"
  have bufs: "fst (read_all \<lparr>avail = concat (map frame [[x]]), ends = None\<rparr>) = [[x]]" for x
    using read_all_concat [of "[[x]]" "[]" None] by (simp add: read_all_empty packet_fits_def BUF_SIZE_eq)
  note defs = numeral_eq_Suc pool_run_append start_pool_def job_step_def client_jobs_def client_run_def reader_loop_eq
    dispatch_def handle_call_def handle_response_def forward_response_def Let_def with_lock_def demo_state_def fun_eq_iff
    try_send_def new_channel_def client_channel_places_def accepted_def
  have "map_option (\<lambda>p. accepted p 2) ?p = Some [Outgoing [10]]"
    using bufs by (simp add: defs)
  then obtain p where p: "?p = Some p" "accepted p 2 = [Outgoing [10]]" by auto
  have ids: "ids_kept demo_codec"
    by (auto simp: ids_kept_def demo_codec_def decode_packet_def split: if_splits)
  have known: "services_known (all_called demo_codec ?cs) ?s"
    using bufs by (simp add: all_called_def called_objects_def map_filter_simps services_known_def)
  have "\<forall>d. clients ?s d = Some 2 \<longrightarrow> d = caller" "open_call call_1 2 ?s = 0"
    by (simp_all add: demo_state_def open_call_def)
  from no_client_gets_more_answers_than_calls [OF ids known this p(1)] bufs p show ?thesis
    by (simp add: calls_sent_def is_answer_def)
qed

section \<open>Starts\<close>

text \<open>A stopped service is credit for one start of its unit.\<close>

definition start_cost :: "string \<Rightarrow> effect \<Rightarrow> nat" where
  "start_cost u e = (case e of Spawned c \<Rightarrow> if c = spawn_service u then 1 else 0 | Sent _ _ \<Rightarrow> 0)"

definition stopped_service :: "string \<Rightarrow> ServerState \<Rightarrow> nat" where
  "stopped_service n s =
     (case services s n of Some svc \<Rightarrow> if state svc = Stopped then 1 else 0 | None \<Rightarrow> 0)"

text \<open>Only the service \<open>n\<close> has the unit \<open>u\<close>, and only clients of \<open>W\<close> own it.\<close>

definition unit_of :: "string \<Rightarrow> string \<Rightarrow> ClientId set \<Rightarrow> ServerState \<Rightarrow> bool" where
  "unit_of n u W s \<longleftrightarrow>
     (\<forall>n' svc. services s n' = Some svc \<longrightarrow> (service_name svc = u \<longleftrightarrow> n' = n)) \<and>
     (\<forall>svc c. services s n = Some svc \<longrightarrow> owner svc = Some c \<longrightarrow> c \<in> W)"

definition registers_object :: "codec \<Rightarrow> string \<Rightarrow> bytes list \<Rightarrow> bool" where
  "registers_object cd n bufs \<longleftrightarrow> (\<exists>b \<in> set bufs. decode_packet cd b = InRequest (RegisterObject n))"

definition service_registrations :: "codec \<Rightarrow> string \<Rightarrow> bytes list \<Rightarrow> nat" where
  "service_registrations cd n bufs =
     length (filter (\<lambda>b. case decode_packet cd b of InRequest (RegisterService n' _) \<Rightarrow> n' = n | _ \<Rightarrow> False) bufs)"

text \<open>The packets that register services keep the unit of \<open>n\<close> and use it for nothing else.\<close>

definition unit_kept :: "codec \<Rightarrow> string \<Rightarrow> string \<Rightarrow> bytes list \<Rightarrow> bool" where
  "unit_kept cd n u bufs \<longleftrightarrow>
     list_all (\<lambda>b. case decode_packet cd b of InRequest (RegisterService n' u') \<Rightarrow> u' = u \<longleftrightarrow> n' = n | _ \<Rightarrow> True) bufs"

lemma start_cost_simps [simp]:
  "start_cost u (Sent tx m) = 0" "start_cost u (Spawned (spawn_service v)) = (if v = u then 1 else 0)"
  by (simp_all add: start_cost_def spawn_service_def)

lemma unit_of_update [simp]:
  "unit_of n u W (s\<lparr>clients := x1\<rparr>) = unit_of n u W s" "unit_of n u W (s\<lparr>objects := x2\<rparr>) = unit_of n u W s"
  "unit_of n u W (s\<lparr>subscriptions := x3\<rparr>) = unit_of n u W s" "unit_of n u W (s\<lparr>calls := x4\<rparr>) = unit_of n u W s"
  by (simp_all add: unit_of_def)

lemma stopped_service_update [simp]:
  "stopped_service n (s\<lparr>clients := x1\<rparr>) = stopped_service n s" "stopped_service n (s\<lparr>objects := x2\<rparr>) = stopped_service n s"
  "stopped_service n (s\<lparr>subscriptions := x3\<rparr>) = stopped_service n s" "stopped_service n (s\<lparr>calls := x4\<rparr>) = stopped_service n s"
  by (simp_all add: stopped_service_def)

abbreviation starts_affordable where
  "starts_affordable n u W \<equiv> affordable (unit_of n u W) (stopped_service n) (start_cost u)"

lemma starts_send_to_client: "starts_affordable n u W (send_to_client d ser) 0"
  by (auto simp: send_to_client_def split: option.split)

lemma unit_ofD:
  assumes "unit_of n u W s" and "services s n' = Some svc"
  shows "service_name svc = u \<longleftrightarrow> n' = n" and "n' = n \<Longrightarrow> owner svc = Some c \<Longrightarrow> c \<in> W"
  using assms by (auto simp: unit_of_def)

lemma unit_of_insert:
  assumes "unit_of n u W s" and "service_name svc = u \<longleftrightarrow> n' = n"
    and "\<And>c. n' = n \<Longrightarrow> owner svc = Some c \<Longrightarrow> c \<in> W"
  shows "unit_of n u W (s\<lparr>services := (services s)(n' \<mapsto> svc)\<rparr>)"
  using assms by (auto simp: unit_of_def)

lemma unit_of_replace:
  assumes "unit_of n u W s" and "services s n' = Some svc" and "service_name svc' = service_name svc"
    and "\<And>c. n' = n \<Longrightarrow> owner svc' = Some c \<Longrightarrow> c \<in> W \<or> owner svc = Some c"
  shows "unit_of n u W (s\<lparr>services := (services s)(n' \<mapsto> svc')\<rparr>)"
  using assms(3,4) unit_ofD [OF assms(1,2)] by (intro unit_of_insert assms(1)) auto

lemma starts_call_activate: "starts_affordable n u W (call_activate cd ci n' m a d) 0"
  by (auto simp: call_activate_def stopped_service_def unit_ofD(1) split: option.split ServiceState.split
      intro!: affordable_seq_free starts_send_to_client elim: unit_of_replace)

lemma starts_handle_call: "starts_affordable n u W (handle_call cd ci n' m a d) 0"
  by (auto simp: handle_call_def Let_def split: option.split
      intro!: affordable_seq_free starts_send_to_client starts_call_activate)

lemma starts_finish:
  "starts_affordable n u W (seq (for_each (\<lambda>req. send_to_client d (f req)) reqs) (send_to_client d ser)) 0"
  by (intro affordable_seq_free affordable_for_each_free starts_send_to_client)

lemma starts_register_object:
  assumes "n' = n \<Longrightarrow> d \<in> W"
  shows "starts_affordable n u W (handle_register_object cd n' d) 0"
  unfolding handle_register_object_def Let_def
  using assms starts_send_to_client
  by (intro affordable_seq_free)
    (auto simp: stopped_service_def split: option.split intro!: exI [of _ 0] starts_finish elim: unit_of_replace)

lemma starts_register_service:
  assumes "u' = u \<longleftrightarrow> n' = n"
  shows "starts_affordable n u W (handle_register_service n' u' d) (if n' = n then 1 else 0)"
proof -
  note unit = unit_ofD [of n u W _ n']
  show ?thesis
    using assms
    by (auto simp: handle_register_service_def stopped_service_def split: option.split
        intro!: unit_of_insert dest: unit(2))
qed

lemma starts_dispatch:
  assumes "registers_object cd n [buf] \<Longrightarrow> d \<in> W" and "unit_kept cd n u [buf]"
  shows "starts_affordable n u W (dispatch cd it d buf) (service_registrations cd n [buf])"
proof (cases "decode_packet cd buf")
  case (InRequest req)
  show ?thesis
  proof (cases req)
    case (RegisterObject n')
    with InRequest assms show ?thesis
      by (auto simp: dispatch_def service_registrations_def registers_object_def intro!: starts_register_object)
  next
    case (RegisterService n' u')
    with InRequest assms(2) starts_register_service [of u' u n' n W d] show ?thesis
      by (auto simp: dispatch_def service_registrations_def unit_kept_def)
  next
    case (Call ci n' m a)
    with InRequest show ?thesis
      by (simp add: dispatch_def service_registrations_def starts_handle_call)
  qed (use InRequest in \<open>auto simp: dispatch_def service_registrations_def handle_subscribe_def handle_publish_def
      handle_has_object_def Let_def split: option.split
      intro!: affordable_seq_free affordable_for_each_free starts_send_to_client\<close>)
next
  case (InResponse resp)
  then show ?thesis
    by (auto simp: dispatch_def handle_response_def forward_response_def service_registrations_def split: option.split)
qed (simp add: dispatch_def)

lemma cleanup_service_simps [simp]:
  "service_name (cleanup_service d active svc) = service_name svc"
  "owner (cleanup_service d active svc) = Some c \<longleftrightarrow> owner svc = Some c \<and> c \<noteq> d"
  "state (cleanup_service d active svc) = Stopped \<longleftrightarrow> owner svc = Some d \<or> state svc = Stopped"
  by (auto simp: cleanup_service_def)

lemma unit_of_purge:
  assumes "unit_of n u W s"
  shows "unit_of n u W (s\<lparr>services := purge_services active d (services s)\<rparr>)"
    and "stopped_service n (s\<lparr>services := purge_services active d (services s)\<rparr>) \<le> stopped_service n s + 1"
    and "d \<notin> W \<Longrightarrow> stopped_service n (s\<lparr>services := purge_services active d (services s)\<rparr>) \<le> stopped_service n s"
  using assms by (auto simp: unit_of_def stopped_service_def purge_services_def split: option.split) metis

lemma starts_cleanup: "starts_affordable n u W (cleanup_client d) (if d \<in> W then 1 else 0)"
  unfolding cleanup_client_def Let_def
  by (intro affordable_seq_free affordable_lookup)
    (auto intro!: exI [of _ 0] unit_of_purge simp del: One_nat_def)

lemma service_registrations_sum: "(\<Sum>b \<leftarrow> bufs. service_registrations cd n [b]) = service_registrations cd n bufs"
  by (induction bufs) (simp_all add: service_registrations_def)

lemma starts_client_run:
  assumes "registers_object cd n (fst (read_all r)) \<Longrightarrow> d \<in> W" and "unit_kept cd n u (fst (read_all r))"
  shows "starts_affordable n u W (client_run cd it d r)
     (service_registrations cd n (fst (read_all r)) + (if d \<in> W then 1 else 0))"
proof -
  have "starts_affordable n u W (dispatch cd it d buf) (service_registrations cd n [buf])"
    if "buf \<in> set (fst (read_all r))" for buf
    using that assms by (intro starts_dispatch) (auto simp: registers_object_def unit_kept_def list_all_iff)
  then have "starts_affordable n u W (for_each (dispatch cd it d) (fst (read_all r)))
      (\<Sum>buf \<leftarrow> fst (read_all r). service_registrations cd n [buf])"
    by (rule affordable_for_each)
  from affordable_seq [OF this starts_cleanup] show ?thesis
    by (simp add: client_run_def reader_loop_eq service_registrations_sum)
qed

text \<open>The clients that register the object of a service.\<close>

definition takers :: "codec \<Rightarrow> string \<Rightarrow> (ClientId \<times> reader) list \<Rightarrow> ClientId set" where
  "takers cd n cs = {d. \<exists>r. (d, r) \<in> set cs \<and> registers_object cd n (fst (read_all r))}"

text \<open>
  C9: under every schedule of the concurrent broker the unit of a stopped service is started at most
  once, and once more for every connection that registered the service's object (when it goes, the
  service stops) and for every packet that registers the service again: however many clients call
  it at the same time, they do not start it twice.
\<close>

theorem unit_starts_bounded:
  assumes "unit_of n u {} s" and "list_all (\<lambda>(d, r). unit_kept cd n u (fst (read_all r))) cs"
    and "pool_run mvs (start_pool txs s (client_jobs cd it cs)) = Some p"
  shows "count_list (commands p) (spawn_service u)
     \<le> 1 + (\<Sum>(d, r) \<leftarrow> cs. service_registrations cd n (fst (read_all r)) + (if d \<in> takers cd n cs then 1 else 0))"
proof -
  let ?W = "takers cd n cs"
  have "spent (start_cost u) {} p \<le> stopped_service n s
      + (\<Sum>(d, r) \<leftarrow> cs. service_registrations cd n (fst (read_all r)) + (if d \<in> ?W then 1 else 0))"
  proof (rule spent_bound)
    show "unit_of n u ?W s" using assms(1) by (simp add: unit_of_def)
    show "pool_run mvs (start_pool txs s (map (\<lambda>(d, r). client_run cd it d r) cs)) = Some p"
      using assms(3) by (simp add: client_jobs_def)
    fix x assume x: "x \<in> set cs"
    obtain d r where dr: "x = (d, r)" by force
    with x assms(2) have "unit_kept cd n u (fst (read_all r))" by (auto simp: list_all_iff)
    with x dr show "starts_affordable n u ?W (case x of (d, r) \<Rightarrow> client_run cd it d r)
        (case x of (d, r) \<Rightarrow> service_registrations cd n (fst (read_all r)) + (if d \<in> ?W then 1 else 0))"
      unfolding dr split_conv by (intro starts_client_run) (auto simp: takers_def)
  qed simp
  moreover have "(\<Sum>c \<leftarrow> cs. start_cost u (Spawned c)) = count_list cs (spawn_service u)" for cs
    by (induction cs) (simp_all add: start_cost_def)
  moreover have "stopped_service n s \<le> 1"
    by (simp add: stopped_service_def split: option.split)
  ultimately show ?thesis by (simp add: spent_def)
qed

theorem unit_starts_bounded_witness:
  "\<exists>p. pool_run (replicate 12 (Run 0) @ replicate 11 (Run 1)) (start_pool id service_state
       (client_jobs demo_codec demo_order
         [(caller, \<lparr>avail = concat (map frame [[1]]), ends = None\<rparr>), (worker, \<lparr>avail = concat (map frame [[1]]), ends = None\<rparr>)])) = Some p \<and>
     commands p = [spawn_service ''math.service''] \<and> count_list (commands p) (spawn_service ''math.service'') \<le> 1"
proof -
  let ?cs = "[(caller, \<lparr>avail = concat (map frame [[1]]), ends = None\<rparr>), (worker, \<lparr>avail = concat (map frame [[1]]), ends = None\<rparr>)]"
  let ?mvs = "replicate 12 (Run 0) @ replicate 11 (Run 1)"
  have bufs: "fst (read_all \<lparr>avail = concat (map frame [[1]]), ends = None\<rparr>) = [[1]]"
    using read_all_concat [of "[[1]]" "[]" None] by (simp add: read_all_empty packet_fits_def BUF_SIZE_eq)
  note defs = numeral_eq_Suc pool_run_append start_pool_def job_step_def client_jobs_def client_run_def reader_loop_eq
    dispatch_def handle_call_def call_activate_def Let_def with_lock_def service_state_def stopped_entry_def fun_eq_iff
  have "map_option commands (pool_run ?mvs (start_pool id service_state (client_jobs demo_codec demo_order ?cs)))
      = Some [spawn_service ''math.service'']"
    using bufs by (simp add: defs)
  then obtain p where p: "pool_run ?mvs (start_pool id service_state (client_jobs demo_codec demo_order ?cs)) = Some p"
      "commands p = [spawn_service ''math.service'']" by auto
  have "unit_of ''math'' ''math.service'' {} service_state"
    by (auto simp: unit_of_def service_state_def stopped_entry_def)
  moreover have "list_all (\<lambda>(d, r). unit_kept demo_codec ''math'' ''math.service'' (fst (read_all r))) ?cs"
    using bufs by (simp add: unit_kept_def)
  ultimately show ?thesis
    using unit_starts_bounded [OF _ _ p(1)] p bufs
    by (force simp: service_registrations_def takers_def registers_object_def)
qed

end
