(* ===== verification/Stranded_Call.thy ===== *)
theory Stranded_Call
  imports Guarantees
begin

text \<open>
  What becomes of the callers of a worker that is lost: nothing. The cleanup of a connection removes the
  open calls that the lost client made, not those that it had taken to answer, and nobody is told.
\<close>

section \<open>Who speaks of a call\<close>

text \<open>No packet is a call with the id or a response that carries it.\<close>

definition silent_on :: "codec \<Rightarrow> CallId \<Rightarrow> bytes \<Rightarrow> bool" where
  "silent_on cd ci buf =
     (case decode_packet cd buf of
        InRequest (Call ci' n m a) \<Rightarrow> ci' \<noteq> ci
      | InResponse resp \<Rightarrow> response_call_id resp \<noteq> Some ci
      | _ \<Rightarrow> True)"

definition call_open :: "CallId \<Rightarrow> ClientId \<Rightarrow> ClientSender \<Rightarrow> ServerState \<Rightarrow> bool" where
  "call_open ci c tx s \<longleftrightarrow> calls s ci = Some (c, tx)"

lemma call_open_update [simp]:
  "call_open ci c tx (s\<lparr>objects := x1\<rparr>) = call_open ci c tx s" "call_open ci c tx (s\<lparr>clients := x2\<rparr>) = call_open ci c tx s"
  "call_open ci c tx (s\<lparr>subscriptions := x3\<rparr>) = call_open ci c tx s" "call_open ci c tx (s\<lparr>services := x4\<rparr>) = call_open ci c tx s"
  "ci' \<noteq> ci \<Longrightarrow> call_open ci c tx (s\<lparr>calls := (calls s)(ci' := e)\<rparr>) = call_open ci c tx s"
  by (simp_all add: call_open_def)

text \<open>The task leaves the call open and sends no answer to it.\<close>

abbreviation silent_task where
  "silent_task cd ci c tx t \<equiv> affordable (call_open ci c tx) (\<lambda>_. 0) (answer_cost cd ci tx) t 0"

lemma silent_send: "(\<And>b. ser = Some b \<Longrightarrow> \<not> is_answer cd ci (Outgoing b)) \<Longrightarrow> silent_task cd ci c tx (send_to_client d ser)"
  by (auto simp: send_to_client_def split: option.split)

lemma silent_dispatch:
  assumes ids: "ids_kept cd" and "silent_on cd ci buf"
  shows "silent_task cd ci c tx (dispatch cd it d buf)"
proof (cases "decode_packet cd buf")
  case (InRequest req)
  have "response_call_id (no_such_object ci' n) = Some ci'" for ci' n by (simp add: no_such_object_def)
  with InRequest assms(2) not_answer [OF ids, where ci = ci] show ?thesis
    by (cases req)
      (auto simp: silent_on_def dispatch_def handle_register_object_def handle_register_service_def handle_subscribe_def
        handle_publish_def handle_has_object_def handle_call_def call_activate_def Let_def
        split: option.split ServiceState.split intro!: affordable_seq_free affordable_for_each_free silent_send)
next
  case (InResponse resp)
  with assms not_answer(2) [OF ids, where ci = ci] show ?thesis
    by (auto simp: silent_on_def dispatch_def handle_response_def forward_response_def split: option.split)
qed (simp add: dispatch_def)

lemma silent_cleanup: "d \<noteq> c \<Longrightarrow> silent_task cd ci c tx (cleanup_client d)"
  by (auto simp: cleanup_client_def Let_def call_open_def purge_calls_def map_retain_def intro!: affordable_seq_free)

section \<open>The call is never answered\<close>

text \<open>
  C19: A worker that is lost with a call in its hands leaves the caller waiting for ever. Whatever
  connections come to their end, start again or register the object anew, under every schedule: as
  long as no packet carries an answer with the call's id, which only the lost worker knew, the call stays
  open and not a single answer, result or error, is put into the caller's channel.
\<close>

theorem lost_worker_strands_callers:
  assumes "ids_kept cd" and "calls s ci = Some (c, tx)"
    and "list_all (\<lambda>(d, r). d \<noteq> c \<and> list_all (silent_on cd ci) (fst (read_all r))) cs"
    and "pool_run mvs (start_pool txs s (client_jobs cd it cs)) = Some p"
  shows "calls (shared p) ci = Some (c, tx) \<and> filter (is_answer cd ci) (accepted p tx) = []"
proof -
  let ?job = "\<lambda>(d, r). client_run cd it d r"
  let ?within = "within (call_open ci c tx) (\<lambda>_. 0) (answer_cost cd ci tx) {tx} 0"
  have "silent_task cd ci c tx (?job x)" if "x \<in> set cs" for x
    using that assms(3)
    by (auto simp: list_all_iff client_run_def reader_loop_eq
        intro!: affordable_seq_free affordable_for_each_free silent_dispatch [OF assms(1)] silent_cleanup)
  then have "?within (start_pool txs s (map ?job cs))"
    unfolding within_def spent_start
    by (intro conjI exI [of _ "map (\<lambda>_. 0) cs"]) (simp_all add: start_pool_def call_open_def assms(2))
  from within_run [OF this _ assms(4) [unfolded client_jobs_def]] have "?within p" by blast
  then have "call_open ci c tx (shared p)" and "spent (answer_cost cd ci tx) {tx} p = 0"
    unfolding within_def by auto
  moreover have "(\<Sum>m \<leftarrow> ms. answer_cost cd ci tx (Sent tx m)) = length (filter (is_answer cd ci) ms)" for ms
    by (induction ms) simp_all
  ultimately show ?thesis by (simp add: call_open_def spent_def del: answer_cost_simps)
qed

theorem lost_worker_strands_callers_witness:
  "\<exists>mvs p. pool_run mvs (start_pool id (demo_state\<lparr>calls := [call_1 \<mapsto> (caller, 2)]\<rparr>)
       (client_jobs demo_codec demo_order [(worker, \<lparr>avail = concat (map frame [[2]]), ends = None\<rparr>)])) = Some p \<and> stuck p \<and>
     calls (shared p) call_1 = Some (caller, 2) \<and> filter (is_answer demo_codec call_1) (accepted p 2) = []"
proof -
  let ?r = "\<lparr>avail = concat (map frame [[2]]), ends = None\<rparr> :: reader" and ?s = "demo_state\<lparr>calls := [call_1 \<mapsto> (caller, 2)]\<rparr>"
  let ?p0 = "start_pool id ?s (client_jobs demo_codec demo_order [(worker, ?r)])"
  obtain mvs p where run: "pool_run mvs ?p0 = Some p" "stuck p"
    using some_schedule_is_complete [of ?p0] by auto
  have ids: "ids_kept demo_codec"
    by (auto simp: ids_kept_def demo_codec_def decode_packet_def split: if_splits)
  have "fst (read_all ?r) = [[2]]"
    using read_all_concat [of "[[2]]" "[]" None] by (simp add: read_all_empty packet_fits_def BUF_SIZE_eq)
  then have "list_all (\<lambda>(d, r). d \<noteq> caller \<and> list_all (silent_on demo_codec call_1) (fst (read_all r))) [(worker, ?r)]"
    by (simp add: silent_on_def decode_packet_def demo_codec_def)
  from lost_worker_strands_callers [OF ids _ this run(1), of 2] run show ?thesis by auto
qed

end
