(* ===== verification/At_Most_Once.thy ===== *)
theory At_Most_Once
  imports Guarantees
begin

text \<open>
  A call is carried to a worker at most once. It may go straight to the owner of its object or wait in
  the queue of a service that is being started; queues are flushed by whoever registers the object,
  survive the loss of an owner and may be flushed while further calls arrive. Under every schedule the
  places of a call in queues and the messages that carry it to workers are paid for by the packets that
  made the call.
\<close>

section \<open>Calls on their way\<close>

definition has_call_id :: "CallId \<Rightarrow> RpcRequest \<Rightarrow> bool" where
  "has_call_id ci req = (case req of Call ci' n m a \<Rightarrow> ci' = ci | _ \<Rightarrow> False)"

text \<open>A message that a worker reads as a call with the id.\<close>

definition is_call :: "codec \<Rightarrow> CallId \<Rightarrow> ClientMsg \<Rightarrow> bool" where
  "is_call cd ci msg =
     (case msg of
        Outgoing b \<Rightarrow> (case decode_packet cd b of InRequest req \<Rightarrow> has_call_id ci req | _ \<Rightarrow> False)
      | ShutdownMsg \<Rightarrow> False)"

text \<open>What the bound needs of the codec: a message that is read as a call was written as one, with its id.\<close>

definition calls_told_apart :: "codec \<Rightarrow> bool" where
  "calls_told_apart cd \<longleftrightarrow>
     (\<forall>r b ci. req_to_vec cd r = Some b \<longrightarrow> is_call cd ci (Outgoing b) \<longrightarrow> has_call_id ci r) \<and>
     (\<forall>r b ci. resp_to_vec cd r = Some b \<longrightarrow> \<not> is_call cd ci (Outgoing b))"

definition call_cost :: "codec \<Rightarrow> CallId \<Rightarrow> effect \<Rightarrow> nat" where
  "call_cost cd ci e = (case e of Sent tx m \<Rightarrow> if is_call cd ci m then 1 else 0 | Spawned _ \<Rightarrow> 0)"

text \<open>A call that waits in the queue of its service is credit for one message.\<close>

definition queued_calls :: "CallId \<Rightarrow> RpcRequest list \<Rightarrow> nat" where
  "queued_calls ci reqs = (\<Sum>req \<leftarrow> reqs. if has_call_id ci req then 1 else 0)"

definition waiting :: "CallId \<Rightarrow> string \<Rightarrow> ServerState \<Rightarrow> nat" where
  "waiting ci n s = (case services s n of None \<Rightarrow> 0 | Some svc \<Rightarrow> queued_calls ci (pending_calls svc))"

text \<open>The call waits for no service but \<open>n\<close>.\<close>

definition waits_only_for :: "CallId \<Rightarrow> string \<Rightarrow> ServerState \<Rightarrow> bool" where
  "waits_only_for ci n s \<longleftrightarrow> (\<forall>n' svc. services s n' = Some svc \<longrightarrow> n' \<noteq> n \<longrightarrow> queued_calls ci (pending_calls svc) = 0)"

lemma queued_calls_simps [simp]:
  "queued_calls ci [] = 0" "queued_calls ci (req # reqs) = (if has_call_id ci req then 1 else 0) + queued_calls ci reqs"
  "queued_calls ci (reqs @ reqs') = queued_calls ci reqs + queued_calls ci reqs'"
  by (simp_all add: queued_calls_def)

lemma queued_calls_filter: "queued_calls ci (filter P reqs) \<le> queued_calls ci reqs"
  by (induction reqs) simp_all

lemma call_cost_simps [simp]:
  "call_cost cd ci (Sent tx m) = (if is_call cd ci m then 1 else 0)" "call_cost cd ci (Spawned c) = 0"
  by (simp_all add: call_cost_def)

lemma waiting_update [simp]:
  "waiting ci n (s\<lparr>clients := x1\<rparr>) = waiting ci n s" "waiting ci n (s\<lparr>objects := x2\<rparr>) = waiting ci n s"
  "waiting ci n (s\<lparr>subscriptions := x3\<rparr>) = waiting ci n s" "waiting ci n (s\<lparr>calls := x4\<rparr>) = waiting ci n s"
  by (simp_all add: waiting_def)

lemma waits_only_for_update [simp]:
  "waits_only_for ci n (s\<lparr>clients := x1\<rparr>) = waits_only_for ci n s" "waits_only_for ci n (s\<lparr>objects := x2\<rparr>) = waits_only_for ci n s"
  "waits_only_for ci n (s\<lparr>subscriptions := x3\<rparr>) = waits_only_for ci n s" "waits_only_for ci n (s\<lparr>calls := x4\<rparr>) = waits_only_for ci n s"
  by (simp_all add: waits_only_for_def)

lemma waits_only_for_insert:
  "waits_only_for ci n s \<Longrightarrow> (n' \<noteq> n \<Longrightarrow> queued_calls ci (pending_calls svc) = 0) \<Longrightarrow>
   waits_only_for ci n (s\<lparr>services := (services s)(n' \<mapsto> svc)\<rparr>)"
  by (auto simp: waits_only_for_def)

lemma waits_only_forD: "waits_only_for ci n s \<Longrightarrow> services s n' = Some svc \<Longrightarrow> n' \<noteq> n \<Longrightarrow> queued_calls ci (pending_calls svc) = 0"
  by (auto simp: waits_only_for_def)

abbreviation carries where
  "carries cd ci n \<equiv> affordable (waits_only_for ci n) (waiting ci n) (call_cost cd ci)"

section \<open>Budgets of the handlers\<close>

lemma carries_send:
  "(\<And>b. ser = Some b \<Longrightarrow> \<not> is_call cd ci (Outgoing b)) \<Longrightarrow> carries cd ci n (send_to_client d ser) k"
  by (auto simp: send_to_client_def split: option.split)

lemma carries_request:
  assumes "calls_told_apart cd"
  shows "carries cd ci n (send_to_client d (req_to_vec cd req)) (if has_call_id ci req then 1 else 0)"
  using assms by (auto simp: send_to_client_def calls_told_apart_def split: option.split)

lemma carries_register_object:
  assumes told: "calls_told_apart cd"
  shows "carries cd ci n (handle_register_object cd n' d) 0"
proof -
  have flush: "carries cd ci n (seq (for_each (\<lambda>req. send_to_client d (req_to_vec cd req)) reqs)
      (send_to_client d (resp_to_vec cd (Registered n')))) (queued_calls ci reqs)" for reqs
    unfolding queued_calls_def
    by (rule affordable_seq_le [OF affordable_for_each carries_send [where k = 0]])
      (use told in \<open>auto simp: calls_told_apart_def intro: carries_request [OF told]\<close>)
  have taken: "waits_only_for ci n s' \<and> waiting ci n s' + queued_calls ci (pending_calls svc) \<le> waiting ci n s"
    if "waits_only_for ci n s" "services s n' = Some svc"
      "s' = s\<lparr>services := (services s)(n' \<mapsto> svc\<lparr>state := Running d, owner := Some d, pending_calls := []\<rparr>)\<rparr>" for s s' svc
    using that waits_only_forD [OF that(1,2)] by (cases "n' = n") (auto simp: waiting_def intro: waits_only_for_insert)
  let ?done = "\<lambda>reqs. seq (for_each (\<lambda>req. send_to_client d (req_to_vec cd req)) reqs) (send_to_client d (resp_to_vec cd (Registered n')))"
  let ?second = "\<lambda>s. case services s n' of
      Some svc \<Rightarrow> (s\<lparr>services := (services s)(n' \<mapsto> svc\<lparr>state := Running d, owner := Some d, pending_calls := []\<rparr>)\<rparr>,
        ?done (pending_calls svc))
    | None \<Rightarrow> (s, ?done [])"
  have second: "waits_only_for ci n (fst (?second s)) \<and>
      (\<exists>k. carries cd ci n (snd (?second s)) k \<and> waiting ci n (fst (?second s)) + k \<le> waiting ci n s + 0)"
    if s: "waits_only_for ci n s" for s
  proof (cases "services s n'")
    case None
    with s flush [of "[]"] show ?thesis by (intro conjI exI [of _ 0]) simp_all
  next
    case (Some svc)
    with taken [OF s Some refl] flush [of "pending_calls svc"] show ?thesis
      by (intro conjI exI [of _ "queued_calls ci (pending_calls svc)"]) simp_all
  qed
  show ?thesis
    unfolding handle_register_object_def Let_def using second
    by (intro affordable_seq_free) (simp_all only: affordable_with_lock, simp_all)
qed

lemma carries_register_service: "carries cd ci n (handle_register_service n' u d) 0"
  by (auto simp: handle_register_service_def waiting_def split: option.split intro!: waits_only_for_insert
      dest: waits_only_forD)

lemma carries_enqueue:
  assumes "waits_only_for ci n s" and svc: "services s n' = Some svc" and "ci' = ci \<longrightarrow> n' = n"
    and svc': "pending_calls svc' = pending_calls svc @ [Call ci' n' m a]"
  shows "waits_only_for ci n (s\<lparr>services := (services s)(n' \<mapsto> svc')\<rparr>)"
    and "waiting ci n (s\<lparr>services := (services s)(n' \<mapsto> svc')\<rparr>) \<le> waiting ci n s + (if ci' = ci then 1 else 0)"
proof -
  show "waits_only_for ci n (s\<lparr>services := (services s)(n' \<mapsto> svc')\<rparr>)"
    using waits_only_forD [OF assms(1,2)] assms(3)
    by (intro waits_only_for_insert [OF assms(1)]) (auto simp: svc' has_call_id_def)
  show "waiting ci n (s\<lparr>services := (services s)(n' \<mapsto> svc')\<rparr>) \<le> waiting ci n s + (if ci' = ci then 1 else 0)"
    by (simp add: waiting_def svc svc' has_call_id_def)
qed

lemma carries_call_activate:
  assumes told: "calls_told_apart cd" and "ci' = ci \<longrightarrow> n' = n"
  shows "carries cd ci n (call_activate cd ci' n' m a d) (if ci' = ci then 1 else 0)"
proof -
  have refuse: "carries cd ci n (seq (send_to_client d (resp_to_vec cd (no_such_object ci' n'))) (Unlock ServicesM Done)) 0"
    by (rule affordable_seq_free [OF carries_send]) (use told in \<open>auto simp: calls_told_apart_def\<close>)
  define k where "k = (if ci' = ci then 1 else 0 :: nat)"
  have queued: "waits_only_for ci n (s\<lparr>services := (services s)(n' \<mapsto> svc')\<rparr>)"
      "waiting ci n (s\<lparr>services := (services s)(n' \<mapsto> svc')\<rparr>) \<le> waiting ci n s + k"
    if "waits_only_for ci n s" "services s n' = Some svc" "pending_calls svc' = pending_calls svc @ [Call ci' n' m a]" for s svc svc'
    unfolding k_def by (rule carries_enqueue [OF that(1,2) assms(2) that(3)])+
  have "carries cd ci n (call_activate cd ci' n' m a d) k"
    using refuse
    by (auto simp: call_activate_def split: option.split ServiceState.split intro!: queued exI [of _ 0])
  then show ?thesis by (simp add: k_def)
qed

lemma carries_handle_call:
  assumes told: "calls_told_apart cd" and "ci' = ci \<longrightarrow> n' = n"
  shows "carries cd ci n (handle_call cd ci' n' m a d) (if ci' = ci then 1 else 0)"
proof -
  let ?k = "if ci' = ci then 1 else 0 :: nat"
  have gone: "carries cd ci n (send_to_client d (resp_to_vec cd (Error (Some ci') n' ''Caller disconnected''))) ?k"
    using told by (intro carries_send) (auto simp: calls_told_apart_def)
  have forward: "carries cd ci n (Send wtx (Outgoing b) Done) ?k" if "req_to_vec cd (Call ci' n' m a) = Some b" for wtx b
    using told that by (fastforce simp: calls_told_apart_def has_call_id_def)
  have recorded: "carries cd ci n (with_lock Calls (\<lambda>s. (s\<lparr>calls := (calls s)(ci' \<mapsto> e)\<rparr>, Done))) k" for e k
    by (auto intro: exI [of _ 0])
  show ?thesis
    unfolding handle_call_def Let_def affordable.simps(2,3) affordable_Sync fst_conv snd_conv
    by (auto simp del: affordable_with_lock split del: if_split split: option.split
        intro!: exI [of _ ?k] affordable_seq_free [OF recorded] recorded gone forward carries_call_activate assms)
qed

text \<open>The packets that call with the id, and that such a packet names the object \<open>n\<close>.\<close>

definition calls_only :: "codec \<Rightarrow> CallId \<Rightarrow> string \<Rightarrow> bytes \<Rightarrow> bool" where
  "calls_only cd ci n buf =
     (case decode_packet cd buf of InRequest (Call ci' n' m a) \<Rightarrow> ci' = ci \<longrightarrow> n' = n | _ \<Rightarrow> True)"

lemma carries_dispatch:
  assumes told: "calls_told_apart cd" and only: "calls_only cd ci n buf"
  shows "carries cd ci n (dispatch cd it d buf) (calls_sent cd ci [buf])"
proof (cases "decode_packet cd buf")
  case (InRequest req)
  have free: "resp_to_vec cd resp = Some b \<Longrightarrow> \<not> is_call cd ci (Outgoing b)" for resp b
    using told by (auto simp: calls_told_apart_def)
  show ?thesis
  proof (cases req)
    case (Call ci' n' m a)
    with InRequest only carries_handle_call [OF told, of ci' ci n' n m a d] show ?thesis
      by (auto simp: calls_only_def dispatch_def calls_sent_def)
  qed (use InRequest free in \<open>auto simp: dispatch_def calls_sent_def handle_subscribe_def handle_publish_def
      handle_has_object_def Let_def split: option.split
      intro!: affordable_seq_free affordable_for_each_free carries_send carries_register_object [OF told] carries_register_service\<close>)
next
  case (InResponse resp)
  with told show ?thesis
    by (auto simp: dispatch_def calls_sent_def handle_response_def forward_response_def calls_told_apart_def split: option.split)
qed (simp add: dispatch_def)

lemma carries_cleanup: "carries cd ci n (cleanup_client d) 0"
proof -
  have pending: "queued_calls ci (pending_calls (cleanup_service d active svc)) \<le> queued_calls ci (pending_calls svc)" for active svc
    by (simp add: cleanup_service_def queued_calls_filter)
  have purge: "purge_services active d m n' = map_option (cleanup_service d active) (m n')" for active m n'
    by (simp add: purge_services_def map_values_def)
  have "waits_only_for ci n (s\<lparr>services := purge_services active d (services s)\<rparr>) \<and>
      waiting ci n (s\<lparr>services := purge_services active d (services s)\<rparr>) \<le> waiting ci n s"
    if "waits_only_for ci n s" for active s
    using that pending [of active] pending [of active, THEN le_trans, of _ 0, simplified]
    by (auto simp: waits_only_for_def waiting_def purge split: option.split)
  then show ?thesis
    unfolding cleanup_client_def Let_def
    by (intro affordable_seq_free affordable_lookup) (auto intro!: exI [of _ 0])
qed

lemma carries_client_run:
  assumes "calls_told_apart cd" and "list_all (calls_only cd ci n) (fst (read_all r))"
  shows "carries cd ci n (client_run cd it d r) (calls_sent cd ci (fst (read_all r)))"
proof -
  have "carries cd ci n (dispatch cd it d buf) (calls_sent cd ci [buf])" if "buf \<in> set (fst (read_all r))" for buf
    using that assms by (intro carries_dispatch) (auto simp: list_all_iff)
  then have "carries cd ci n (for_each (dispatch cd it d) (fst (read_all r))) (\<Sum>buf \<leftarrow> fst (read_all r). calls_sent cd ci [buf])"
    by (rule affordable_for_each)
  from affordable_seq [OF this carries_cleanup] show ?thesis
    by (simp add: client_run_def reader_loop_eq calls_sent_sum)
qed

section \<open>At most once\<close>

text \<open>
  C13: Under every schedule of the concurrent broker, whatever its writers and channels do, a call is
  carried to workers at most once for each packet that made it: all channels together accept no more
  messages with the call's id than the clients sent, however often its service is started, lost, taken over
  or registered again while the call waits. With fresh ids no method runs twice for one call.
\<close>

theorem call_carried_at_most_once:
  assumes "calls_told_apart cd" and "finite A"
    and "\<forall>n' svc. services s n' = Some svc \<longrightarrow> \<not> list_ex (has_call_id ci) (pending_calls svc)"
    and "list_all (\<lambda>(d, r). list_all (calls_only cd ci n) (fst (read_all r))) cs"
    and "pool_run mvs (start_pool txs s (client_jobs cd it cs)) = Some p"
  shows "(\<Sum>tx \<in> A. length (filter (is_call cd ci) (accepted p tx))) \<le> (\<Sum>(d, r) \<leftarrow> cs. calls_sent cd ci (fst (read_all r)))"
proof -
  have none: "\<not> list_ex (has_call_id ci) reqs \<Longrightarrow> queued_calls ci reqs = 0" for reqs
    by (induction reqs) auto
  have start: "waits_only_for ci n s" "waiting ci n s = 0"
    using assms(3) none by (auto simp: waits_only_for_def waiting_def split: option.split)
  have "spent (call_cost cd ci) A p \<le> waiting ci n s + (\<Sum>(d, r) \<leftarrow> cs. calls_sent cd ci (fst (read_all r)))"
  proof (rule spent_bound [where P = "waits_only_for ci n" and g = "waiting ci n"])
    show "pool_run mvs (start_pool txs s (map (\<lambda>(d, r). client_run cd it d r) cs)) = Some p"
      using assms(5) by (simp add: client_jobs_def)
    fix x assume x: "x \<in> set cs"
    obtain d r where dr: "x = (d, r)" by force
    with x assms(4) have "list_all (calls_only cd ci n) (fst (read_all r))"
      by (auto simp: list_all_iff [of _ cs])
    from carries_client_run [OF assms(1) this] show "carries cd ci n (case x of (d, r) \<Rightarrow> client_run cd it d r)
        (case x of (d, r) \<Rightarrow> calls_sent cd ci (fst (read_all r)))"
      by (simp add: dr)
  qed (use start(1) assms(2) in simp_all)
  moreover have "(\<Sum>m \<leftarrow> ms. call_cost cd ci (Sent tx m)) = length (filter (is_call cd ci) ms)" for tx ms
    by (induction ms) simp_all
  ultimately show ?thesis
    using start(2) by (simp add: spent_def del: call_cost_simps)
qed

theorem call_carried_at_most_once_witness:
  "\<exists>mvs p. pool_run mvs (start_pool id service_state (client_jobs demo_codec demo_order
       [(caller, \<lparr>avail = concat (map frame [[1]]), ends = None\<rparr>), (worker, \<lparr>avail = concat (map frame [[2], [2]]), ends = None\<rparr>)])) = Some p \<and>
     stuck p \<and> length (filter (is_call demo_codec call_1) (accepted p 1)) + length (filter (is_call demo_codec call_1) (accepted p 2)) \<le> 1"
proof -
  let ?cs = "[(caller, \<lparr>avail = concat (map frame [[1]]), ends = None\<rparr>), (worker, \<lparr>avail = concat (map frame [[2], [2]]), ends = None\<rparr>)] :: (ClientId \<times> reader) list"
  let ?p0 = "start_pool id service_state (client_jobs demo_codec demo_order ?cs)"
  obtain mvs p where run: "pool_run mvs ?p0 = Some p" "stuck p"
    using some_schedule_is_complete [of ?p0] by auto
  have bufs: "fst (read_all \<lparr>avail = concat (map frame [[1]]), ends = None\<rparr>) = [[1]]"
      "fst (read_all \<lparr>avail = concat (map frame [[2], [2]]), ends = None\<rparr>) = [[2], [2]]"
    using read_all_concat [of "[[1]]" "[]" None] read_all_concat [of "[[2], [2]]" "[]" None]
    by (simp_all add: read_all_empty packet_fits_def BUF_SIZE_eq)
  have told: "calls_told_apart demo_codec"
    by (auto simp: calls_told_apart_def is_call_def has_call_id_def demo_codec_def decode_packet_def split: if_splits)
  have none: "\<forall>n' svc. services service_state n' = Some svc \<longrightarrow> \<not> list_ex (has_call_id call_1) (pending_calls svc)"
    by (auto simp: service_state_def stopped_entry_def split: if_splits)
  have dec: "decode_packet demo_codec [1] = InRequest (Call call_1 ''math'' ''add'' JNull)"
      "decode_packet demo_codec [2] = InRequest (RegisterObject ''math'')"
    by (simp_all add: decode_packet_def demo_codec_def)
  have "list_all (\<lambda>(d, r). list_all (calls_only demo_codec call_1 ''math'') (fst (read_all r))) ?cs"
    using bufs by (simp add: calls_only_def dec)
  from call_carried_at_most_once [OF told _ none this run(1), of "{1, 2}"] bufs
  have "length (filter (is_call demo_codec call_1) (accepted p 1)) + length (filter (is_call demo_codec call_1) (accepted p 2)) \<le> 1"
    by (simp add: calls_sent_def dec)
  with run show ?thesis by blast
qed

end
