(* ===== verification/Ipc_Client.thy ===== *)
theory Ipc_Client
  imports Framing Channel
begin

text \<open>
  The client library, \<^verbatim>\<open>src/src/client.rs\<close> on Unix: the actor that owns the connection, as a
  function of the events of its \<open>tokio::select!\<close> loop, and the operations of a handle, as functions
  of what the actor answers.

  Parameters: the codec and the message \<open>msg\<close> of its errors; the conversion \<open>de\<close> of a JSON value to
  the caller's type.
\<close>

section \<open>Connecting\<close>

datatype transport = Tcp string | Unix string

text \<open>The transport is chosen by the environment variable \<open>BROKER_ADDR\<close>, here as in the worker.\<close>

definition pick_transport :: "string option \<Rightarrow> transport" where
  "pick_transport broker_addr = (case broker_addr of Some ip \<Rightarrow> Tcp ip | None \<Rightarrow> Unix UNIX_PATH)"

section \<open>The actor\<close>

text \<open>
  A request carries the number of the oneshot channel that waits for the reply, a subscription the
  number of the channel that takes its updates.
\<close>

datatype ActorMsg = Request RpcRequest nat | SubscribeTo string string nat

type_synonym reply = "io_error + RpcResponse"

record actor =
  stream_in :: reader
  stream_out :: writer
  subs :: "string \<times> string \<rightharpoonup> nat list"
  updates :: "nat \<Rightarrow> json channel"
  replies :: "(nat \<times> reply) list"

definition actor_queue_places :: nat where "actor_queue_places = 64"
definition update_places :: nat where "update_places = 16"

fun expects_response :: "RpcRequest \<Rightarrow> bool" where
  "expects_response (Publish _ _ _) = False"
| "expects_response (Subscribe _ _) = False"
| "expects_response _ = True"

definition resolve :: "nat \<Rightarrow> reply \<Rightarrow> actor \<Rightarrow> actor" where
  "resolve resp_tx x a = a\<lparr>replies := replies a @ [(resp_tx, x)]\<rparr>"

text \<open>
  The reply to a request, once a packet has come or the stream has ended. The stream of a reader holds all
  that will come; that the actor may await a reply that does not come is in \<^verbatim>\<open>Client_Handles\<close>.
\<close>

definition read_reply :: "codec \<Rightarrow> string \<Rightarrow> reader \<Rightarrow> reply \<times> reader" where
  "read_reply cd msg r =
     (case read_packet r of
        (Inl e, r') \<Rightarrow> (Inl e, r')
      | (Inr data, r') \<Rightarrow>
          (case resp_from_slice cd data of
             Some resp \<Rightarrow> (Inr resp, r')
           | None \<Rightarrow> (Inl (IoError InvalidData msg), r')))"

fun actor_message :: "codec \<Rightarrow> string \<Rightarrow> ActorMsg \<Rightarrow> actor \<Rightarrow> actor" where
  "actor_message cd msg (Request req resp_tx) a =
     (case req_to_vec cd req of
        None \<Rightarrow> resolve resp_tx (Inl (IoError InvalidData msg)) a
      | Some data \<Rightarrow>
          (case write_packet (stream_out a) data of
             (Some e, w) \<Rightarrow> resolve resp_tx (Inl e) (a\<lparr>stream_out := w\<rparr>)
           | (None, w) \<Rightarrow>
               (if expects_response req
                then case read_reply cd msg (stream_in a) of
                       (x, r) \<Rightarrow> resolve resp_tx x (a\<lparr>stream_out := w, stream_in := r\<rparr>)
                else resolve resp_tx (Inr (Event '''' '''' JNull)) (a\<lparr>stream_out := w\<rparr>))))"
| "actor_message cd msg (SubscribeTo object_name topic tx) a =
     (let a' = a\<lparr>subs := (subs a)((object_name, topic) \<mapsto>
                 (case subs a (object_name, topic) of None \<Rightarrow> [] | Some txs \<Rightarrow> txs) @ [tx])\<rparr>
      in case req_to_vec cd (Subscribe object_name topic) of
           None \<Rightarrow> a'
         | Some data \<Rightarrow> a'\<lparr>stream_out := snd (write_packet (stream_out a') data)\<rparr>)"

text \<open>\<open>subscribers.retain(|tx| tx.try_send(..))\<close>: the subscribers that stay, and the channels.\<close>

fun offer :: "json \<Rightarrow> nat list \<Rightarrow> (nat \<Rightarrow> json channel) \<Rightarrow> nat list \<times> (nat \<Rightarrow> json channel)" where
  "offer args [] chs = ([], chs)"
| "offer args (tx # txs) chs =
     (case try_send args (chs tx) of
        (res, c) \<Rightarrow>
          (case offer args txs (chs(tx := c)) of
             (kept, chs') \<Rightarrow> (if res = SendOk then tx # kept else kept, chs')))"

text \<open>A packet that arrives while no request is pending; \<open>False\<close> when the loop ends.\<close>

definition actor_packet :: "codec \<Rightarrow> bytes \<Rightarrow> actor \<Rightarrow> actor \<times> bool" where
  "actor_packet cd data a =
     (if data = [] then (a, False)
      else (case resp_from_slice cd data of
              Some (Event object_name topic args) \<Rightarrow>
                (case subs a (object_name, topic) of
                   None \<Rightarrow> a
                 | Some txs \<Rightarrow>
                     (case offer args txs (updates a) of
                        (kept, chs) \<Rightarrow> a\<lparr>subs := (subs a)((object_name, topic) \<mapsto> kept), updates := chs\<rparr>))
            | _ \<Rightarrow> a, True))"

text \<open>
  The events of the loop. \<open>FromHandle k m\<close>: a message of a handle wins the \<open>select!\<close>; the read
  that loses is dropped, and with it the \<open>k\<close> bytes of an unfinished packet that it had taken from
  the stream. \<open>FromStream\<close>: a read completes; an error only disables the branch. \<open>NoHandles\<close>: the
  same when every handle is gone, where an error leaves no branch and ends the loop.
\<close>

datatype actor_event = FromHandle nat ActorMsg | FromStream | NoHandles

definition drop_unfinished :: "nat \<Rightarrow> reader \<Rightarrow> reader" where
  "drop_unfinished k r =
     (case read_packet r of
        (Inl _, _) \<Rightarrow> r\<lparr>avail := drop k (avail r)\<rparr>
      | (Inr d, _) \<Rightarrow> if k < 4 + length d then r\<lparr>avail := drop k (avail r)\<rparr> else r)"

fun actor_step :: "codec \<Rightarrow> string \<Rightarrow> actor_event \<Rightarrow> actor \<Rightarrow> actor \<times> bool" where
  "actor_step cd msg (FromHandle k m) a =
     (actor_message cd msg m (a\<lparr>stream_in := drop_unfinished k (stream_in a)\<rparr>), True)"
| "actor_step cd msg FromStream a =
     (case read_packet (stream_in a) of
        (Inl e, r) \<Rightarrow> (a\<lparr>stream_in := r\<rparr>, True)
      | (Inr data, r) \<Rightarrow> actor_packet cd data (a\<lparr>stream_in := r\<rparr>))"
| "actor_step cd msg NoHandles a =
     (case read_packet (stream_in a) of
        (Inl e, r) \<Rightarrow> (a\<lparr>stream_in := r\<rparr>, False)
      | (Inr data, r) \<Rightarrow> actor_packet cd data (a\<lparr>stream_in := r\<rparr>))"

fun actor_run :: "codec \<Rightarrow> string \<Rightarrow> actor_event list \<Rightarrow> actor \<Rightarrow> actor \<times> bool" where
  "actor_run cd msg [] a = (a, True)"
| "actor_run cd msg (ev # evs) a =
     (case actor_step cd msg ev a of
        (a', False) \<Rightarrow> (a', False)
      | (a', True) \<Rightarrow> actor_run cd msg evs a')"

definition new_actor :: "reader \<Rightarrow> writer \<Rightarrow> actor" where
  "new_actor r w =
     \<lparr>stream_in = r, stream_out = w, subs = Map.empty, updates = (\<lambda>_. new_channel update_places), replies = []\<rparr>"

section \<open>The operations of a handle\<close>

text \<open>
  What a handle makes of the fate of its message: \<open>None\<close> when the actor's queue is closed,
  \<open>Some None\<close> when the actor drops the oneshot channel, else the reply.
\<close>

definition await_reply :: "reply option option \<Rightarrow> reply" where
  "await_reply fate =
     (case fate of
        None \<Rightarrow> Inl (IoError BrokenPipe ''Actor dropped'')
      | Some None \<Rightarrow> Inl (IoError ConnectionAborted ''Actor task ended: channel closed'')
      | Some (Some x) \<Rightarrow> x)"

definition unexpected_response :: io_error where
  "unexpected_response = IoError InvalidData ''Unexpected response type''"

definition remote_call_request :: "CallId \<Rightarrow> string \<Rightarrow> string \<Rightarrow> json \<Rightarrow> RpcRequest" where
  "remote_call_request call_id object method args = Call call_id object method args"

definition remote_call :: "(json \<Rightarrow> string + 't) \<Rightarrow> reply option option \<Rightarrow> io_error + 't" where
  "remote_call de fate =
     (case await_reply fate of
        Inl e \<Rightarrow> Inl e
      | Inr (Result _ _ v) \<Rightarrow>
          (case de v of Inr t \<Rightarrow> Inr t | Inl e \<Rightarrow> Inl (IoError InvalidData (''Deserialize error: '' @ e)))
      | Inr (Error _ _ m) \<Rightarrow> Inl (IoError Other (''Remote error: '' @ m))
      | Inr _ \<Rightarrow> Inl unexpected_response)"

definition publish_request :: "string \<Rightarrow> string \<Rightarrow> json \<Rightarrow> RpcRequest" where
  "publish_request object topic args = Publish object topic args"

text \<open>\<open>publish\<close> does not wait for the reply.\<close>

definition publish :: "bool \<Rightarrow> io_error + unit" where
  "publish accepted = (if accepted then Inr () else Inl (IoError BrokenPipe ''Actor dropped''))"

definition has_object_request :: "string \<Rightarrow> nat \<Rightarrow> ActorMsg" where
  "has_object_request object resp_tx = Request (HasObject object) resp_tx"

definition has_object :: "reply option option \<Rightarrow> io_error + bool" where
  "has_object fate =
     (case await_reply fate of
        Inl e \<Rightarrow> Inl e
      | Inr (HasObjectResult _ exists) \<Rightarrow> Inr exists
      | Inr _ \<Rightarrow> Inl unexpected_response)"

text \<open>The polling loop over the fates of its requests; \<open>None\<close> while it is still polling.\<close>

fun wait_for_object :: "reply option option list \<Rightarrow> (io_error + unit) option" where
  "wait_for_object [] = None"
| "wait_for_object (fate # fates) =
     (case has_object fate of
        Inl e \<Rightarrow> Some (Inl e)
      | Inr True \<Rightarrow> Some (Inr ())
      | Inr False \<Rightarrow> wait_for_object fates)"

text \<open>The message of \<open>subscribe\<close> and the channel whose receiver it returns; a refused message is ignored.\<close>

definition subscribe :: "string \<Rightarrow> string \<Rightarrow> nat \<Rightarrow> ActorMsg \<times> json channel" where
  "subscribe object topic tx_updates = (SubscribeTo object topic tx_updates, new_channel update_places)"

text \<open>The task of \<open>subscribe_async\<close>: the callback runs on every update, in order.\<close>

fun run_callback :: "(json \<Rightarrow> 's \<Rightarrow> 's) \<Rightarrow> json list \<Rightarrow> 's \<Rightarrow> 's" where
  "run_callback callback [] st = st"
| "run_callback callback (m # ms) st = run_callback callback ms (callback m st)"

text \<open>\<open>subscribe_async\<close>: the message, and what the task makes of the updates that arrive.\<close>

definition subscribe_async ::
    "string \<Rightarrow> string \<Rightarrow> (json \<Rightarrow> 's \<Rightarrow> 's) \<Rightarrow> nat \<Rightarrow> json list \<Rightarrow> 's \<Rightarrow> (ActorMsg \<times> json channel) \<times> 's" where
  "subscribe_async object topic callback tx received st =
     (subscribe object topic tx, run_callback callback received st)"

section \<open>Lemmas\<close>

lemma read_packet_framed:
  "packet_fits d \<Longrightarrow> read_packet \<lparr>avail = frame d @ r, ends = e\<rparr> = (Inr d, \<lparr>avail = r, ends = e\<rparr>)"
  using read_packet_frame [of d r "\<lparr>avail = [], ends = e\<rparr>"] by (simp add: packet_fits_def)

lemma drop_unfinished_0 [simp]: "drop_unfinished 0 r = r"
  by (simp add: drop_unfinished_def split: prod.split sum.split)

lemma actor_message_replies:
  "map fst (replies (actor_message cd msg m a)) =
     map fst (replies a) @ (case m of Request _ resp_tx \<Rightarrow> [resp_tx] | SubscribeTo _ _ _ \<Rightarrow> [])"
  by (cases m) (simp_all add: resolve_def Let_def split: option.split prod.split)

lemma actor_packet_replies: "replies (fst (actor_packet cd data a)) = replies a"
  by (simp add: actor_packet_def split: option.split RpcResponse.split prod.split)

text \<open>Subscribers of one topic are told apart by their channels.\<close>

lemma offer_others: "tx \<notin> set txs \<Longrightarrow> snd (offer args txs chs) tx = chs tx"
  by (induction txs arbitrary: chs) (auto simp: split_beta)

lemma offer_distinct:
  "distinct txs \<Longrightarrow> tx \<in> set txs \<Longrightarrow> snd (offer args txs chs) tx = snd (try_send args (chs tx))"
proof (induction txs arbitrary: chs)
  case (Cons x txs)
  then show ?case by (cases "tx = x") (auto simp: split_beta offer_others)
qed simp

lemma offer_kept:
  "distinct txs \<Longrightarrow> fst (offer args txs chs) = filter (\<lambda>tx. fst (try_send args (chs tx)) = SendOk) txs"
proof (induction txs arbitrary: chs)
  case (Cons x txs)
  have "filter (\<lambda>tx. fst (try_send args ((chs(x := c)) tx)) = SendOk) txs =
      filter (\<lambda>tx. fst (try_send args (chs tx)) = SendOk) txs" for c
    using Cons.prems by (intro filter_cong) auto
  with Cons show ?case by (simp add: split_beta)
qed simp

end
