(* ===== verification/Polling.thy ===== *)
theory Polling
  imports Started_Service Ipc_Client
begin

text \<open>
  Waiting for an object, through client library, broker and wire: the polls of \<open>wait_for_object\<close> as
  requests of the client's actor, their handling by the broker at states that change in between, and
  the answers on the stream back.
\<close>

section \<open>The polls\<close>

text \<open>What the broker puts on the client's stream when the polls reach it at the states \<open>ss\<close>.\<close>

definition poll_answers ::
    "codec \<Rightarrow> (ClientId fset \<Rightarrow> ClientId list) \<Rightarrow> ClientId \<Rightarrow> ClientSender \<Rightarrow> bytes \<Rightarrow> ServerState list \<Rightarrow> bytes" where
  "poll_answers cd it c tx b ss =
     sent (fst (writer_loop open_writer (sent_to tx (concat (map (\<lambda>s. snd (run_task (dispatch cd it c b) s)) ss)))))"

text \<open>The actor handles the polls with the reply channels \<open>ks\<close>, one after the other.\<close>

definition actor_polls :: "codec \<Rightarrow> string \<Rightarrow> string \<Rightarrow> nat list \<Rightarrow> actor \<Rightarrow> actor" where
  "actor_polls cd msg n ks a = fold (\<lambda>k. actor_message cd msg (has_object_request n k)) ks a"

text \<open>What the loop is told, poll by poll.\<close>

definition poll_fates :: "actor \<Rightarrow> reply option option list" where
  "poll_fates a = map (\<lambda>(k, x). Some (Some x)) (replies a)"

definition polls_coded :: "codec \<Rightarrow> string \<Rightarrow> bytes \<Rightarrow> (bool \<Rightarrow> bytes) \<Rightarrow> bool" where
  "polls_coded cd n b rb \<longleftrightarrow>
     codec_req cd (HasObject n) \<and> req_to_vec cd (HasObject n) = Some b \<and> packet_fits b \<and>
     (\<forall>e. codec_resp cd (HasObjectResult n e) \<and> resp_to_vec cd (HasObjectResult n e) = Some (rb e) \<and> packet_fits (rb e))"

lemma poll_answers_eq:
  assumes "polls_coded cd n b rb" and "\<forall>s \<in> set ss. clients s c = Some tx"
  shows "poll_answers cd it c tx b ss = concat (map (\<lambda>s. frame (rb (objects s n \<noteq> None))) ss)"
proof -
  have "decode_packet cd b = InRequest (HasObject n)"
    using assms(1) by (auto simp: polls_coded_def intro: decode_packet_request)
  with assms have "concat (map (\<lambda>s. snd (run_task (dispatch cd it c b) s)) ss) =
      map (\<lambda>p. Sent tx (Outgoing p)) (map (\<lambda>s. rb (objects s n \<noteq> None)) ss)"
    by (induction ss) (simp_all add: dispatch_def run_has_object to_client_def polls_coded_def)
  then show ?thesis
    unfolding poll_answers_def using assms(1)
    by (simp only: sent_to_packets) (subst writer_loop_packets, auto simp: list_all_iff polls_coded_def comp_def)
qed

lemma actor_polls_run:
  assumes coded: "polls_coded cd n b rb" and "length es = length ks"
  shows "actor_polls cd msg n ks
       (a\<lparr>stream_in := \<lparr>avail = concat (map (\<lambda>e. frame (rb e)) es), ends = en\<rparr>, stream_out := open_writer\<lparr>sent := out\<rparr>\<rparr>) =
     a\<lparr>stream_in := \<lparr>avail = [], ends = en\<rparr>, stream_out := open_writer\<lparr>sent := out @ concat (replicate (length ks) (frame b))\<rparr>,
       replies := replies a @ zip ks (map (\<lambda>e. Inr (HasObjectResult n e)) es)\<rparr>"
  using assms(2)
proof (induction ks arbitrary: es a out)
  case Nil
  then show ?case by (simp add: actor_polls_def)
next
  case (Cons k ks)
  then obtain e es' where es: "es = e # es'" "length es' = length ks" by (cases es) auto
  have fits: "packet_fits (rb e)" "packet_fits b" using coded by (auto simp: polls_coded_def)
  have reply: "resp_from_slice cd (rb e) = Some (HasObjectResult n e)"
  proof -
    have "codec_resp cd (HasObjectResult n e)" "resp_to_vec cd (HasObjectResult n e) = Some (rb e)"
      using coded by (simp_all add: polls_coded_def)
    then show ?thesis by (auto simp: codec_resp_def)
  qed
  have read: "read_packet \<lparr>avail = frame (rb e) @ rest, ends = en\<rparr> = (Inr (rb e), \<lparr>avail = rest, ends = en\<rparr>)" for rest
    using read_packet_framed [OF fits(1)] by simp
  have written: "write_packet (open_writer\<lparr>sent := out\<rparr>) b = (None, open_writer\<lparr>sent := out @ frame b\<rparr>)"
    using fits(2) by (simp add: write_packet_unlimited packet_fits_def)
  have "actor_message cd msg (has_object_request n k)
      (a\<lparr>stream_in := \<lparr>avail = concat (map (\<lambda>e. frame (rb e)) es), ends = en\<rparr>, stream_out := open_writer\<lparr>sent := out\<rparr>\<rparr>) =
    (resolve k (Inr (HasObjectResult n e)) a)\<lparr>stream_in := \<lparr>avail = concat (map (\<lambda>e. frame (rb e)) es'), ends = en\<rparr>,
      stream_out := open_writer\<lparr>sent := out @ frame b\<rparr>\<rparr>"
    using coded by (simp add: es has_object_request_def polls_coded_def written read_reply_def read reply resolve_def)
  with Cons.IH [OF es(2), where a = "resolve k (Inr (HasObjectResult n e)) a" and out = "out @ frame b"] show ?case
    by (simp add: actor_polls_def es resolve_def)
qed

lemma map_zip_second: "length xs = length ys \<Longrightarrow> map (\<lambda>(k, x). f x) (zip xs ys) = map f ys"
  by (induction xs ys rule: list_induct2) simp_all

lemma wait_for_object_polls:
  "wait_for_object (map (\<lambda>e. Some (Some (Inr (HasObjectResult n e)))) es) = (if True \<in> set es then Some (Inr ()) else None)"
  by (induction es) (auto simp: has_object_def await_reply_def split: bool.split)

text \<open>
  C26: \<open>wait_for_object\<close> waits exactly as long as it has to. When its polls reach the broker at the states
  \<open>ss\<close>, one after the other, the actor writes one packet for each, resolves each with what the broker's map
  said at that moment, and the loop has ended after \<open>k\<close> polls, with success, exactly if the object was
  registered at one of the first \<open>k\<close> states; else it goes on polling, and never fails.
\<close>

theorem wait_for_object_waits_exactly:
  assumes "polls_coded cd n b rb" and "\<forall>s \<in> set ss. clients s c = Some tx"
    and "a = actor_polls cd msg n [0..<length ss] (new_actor \<lparr>avail = poll_answers cd it c tx b ss, ends = e\<rparr> open_writer)"
  shows "replies a = zip [0..<length ss] (map (\<lambda>s. Inr (HasObjectResult n (objects s n \<noteq> None))) ss) \<and>
     sent (stream_out a) = concat (replicate (length ss) (frame b)) \<and>
     (\<forall>k. wait_for_object (take k (poll_fates a)) =
        (if \<exists>s \<in> set (take k ss). objects s n \<noteq> None then Some (Inr ()) else None))"
proof -
  let ?es = "map (\<lambda>s. objects s n \<noteq> None) ss"
  have "new_actor \<lparr>avail = poll_answers cd it c tx b ss, ends = e\<rparr> open_writer =
      (new_actor \<lparr>avail = [], ends = e\<rparr> open_writer)\<lparr>stream_in := \<lparr>avail = concat (map (\<lambda>e. frame (rb e)) ?es), ends = e\<rparr>,
        stream_out := open_writer\<lparr>sent := []\<rparr>\<rparr>"
    using poll_answers_eq [OF assms(1,2), of it] by (simp add: new_actor_def open_writer_def comp_def)
  then have a: "replies a = zip [0..<length ss] (map (\<lambda>s. Inr (HasObjectResult n (objects s n \<noteq> None))) ss)"
      "sent (stream_out a) = concat (replicate (length ss) (frame b))"
    using actor_polls_run [OF assms(1), where es = ?es and ks = "[0..<length ss]" and a = "new_actor \<lparr>avail = [], ends = e\<rparr> open_writer" and out = "[]"]
    by (simp_all add: assms(3) new_actor_def open_writer_def comp_def)
  have "poll_fates a = map (\<lambda>e. Some (Some (Inr (HasObjectResult n e)))) ?es"
    unfolding poll_fates_def a(1) by (simp add: map_zip_second comp_def)
  then have "wait_for_object (take k (poll_fates a)) = (if True \<in> set (take k ?es) then Some (Inr ()) else None)" for k
    by (simp add: take_map wait_for_object_polls del: map_map)
  with a show ?thesis by (simp add: take_map image_iff Bex_def)
qed

definition polling_codec :: codec where
  "polling_codec =
     \<lparr>req_to_vec = (\<lambda>r. if r = HasObject ''math'' then Some [6] else None),
      resp_to_vec = (\<lambda>r. if r = HasObjectResult ''math'' True then Some [7]
        else if r = HasObjectResult ''math'' False then Some [8] else None),
      req_from_slice = (\<lambda>b. if b = [6] then Some (HasObject ''math'') else None),
      resp_from_slice = (\<lambda>b. if b = [7] then Some (HasObjectResult ''math'' True)
        else if b = [8] then Some (HasObjectResult ''math'' False) else None)\<rparr>"

theorem wait_for_object_waits_exactly_witness:
  "wait_for_object (take 2 (poll_fates (actor_polls polling_codec ''e'' ''math'' [0..<3]
       (new_actor \<lparr>avail = poll_answers polling_codec demo_order caller 2 [6]
          [demo_state\<lparr>objects := Map.empty\<rparr>, demo_state\<lparr>objects := Map.empty\<rparr>, demo_state], ends = None\<rparr> open_writer)))) = None \<and>
   wait_for_object (poll_fates (actor_polls polling_codec ''e'' ''math'' [0..<3]
       (new_actor \<lparr>avail = poll_answers polling_codec demo_order caller 2 [6]
          [demo_state\<lparr>objects := Map.empty\<rparr>, demo_state\<lparr>objects := Map.empty\<rparr>, demo_state], ends = None\<rparr> open_writer))) = Some (Inr ())"
proof -
  let ?ss = "[demo_state\<lparr>objects := Map.empty\<rparr>, demo_state\<lparr>objects := Map.empty\<rparr>, demo_state]"
  let ?a = "actor_polls polling_codec ''e'' ''math'' [0..<length ?ss]
       (new_actor \<lparr>avail = poll_answers polling_codec demo_order caller 2 [6] ?ss, ends = None\<rparr> open_writer)"
  have "polls_coded polling_codec ''math'' [6] (\<lambda>e. if e then [7] else [8])"
    by (auto simp: polls_coded_def polling_codec_def codec_req_def codec_resp_def packet_fits_def BUF_SIZE_eq)
  then have polls: "wait_for_object (take k (poll_fates ?a)) =
      (if \<exists>s \<in> set (take k ?ss). objects s ''math'' \<noteq> None then Some (Inr ()) else None)" and len: "length (replies ?a) = 3" for k
    using wait_for_object_waits_exactly [of polling_codec "''math''" "[6]" _ ?ss caller 2 ?a "''e''" demo_order None, OF _ _ refl]
    by (simp_all add: demo_state_def)
  have "take 3 (poll_fates ?a) = poll_fates ?a" using len by (simp add: poll_fates_def)
  with polls [of 2] polls [of 3] show ?thesis by (simp add: demo_state_def eval_nat_numeral)
qed

end
