(* ===== verification/Publication.thy ===== *)
theory Publication
  imports Started_Service Pubsub Ipc_Client
begin

text \<open>
  Publish and subscribe through all components: the subscriber's handle and actor, the broker's handlers
  of both connections, its writer, and the subscriber's actor again up to the callback.
\<close>

section \<open>The broker\<close>

lemma sent_to_broadcast:
  "distinct txs \<Longrightarrow> sent_to tx (map (\<lambda>x. Sent x m) txs) = (if tx \<in> set txs then [m] else [])"
  by (induction txs) auto

text \<open>A client that is subscribed, with a channel of its own.\<close>

definition subscribed_as :: "ClientId \<Rightarrow> ClientSender \<Rightarrow> string \<Rightarrow> string \<Rightarrow> ServerState \<Rightarrow> bool" where
  "subscribed_as c tx n t s \<longleftrightarrow>
     c |\<in>| subscribers (subscriptions s) n t \<and> clients s c = Some tx \<and>
     (\<forall>d \<in> fset (subscribers (subscriptions s) n t). clients s d \<noteq> None) \<and> inj_on (clients s) (dom (clients s))"

definition publications_coded ::
    "codec \<Rightarrow> string \<Rightarrow> string \<Rightarrow> json list \<Rightarrow> (json \<Rightarrow> bytes) \<Rightarrow> (json \<Rightarrow> bytes) \<Rightarrow> bool" where
  "publications_coded cd n t vs pb eb \<longleftrightarrow>
     list_all (\<lambda>v. codec_req cd (Publish n t v) \<and> req_to_vec cd (Publish n t v) = Some (pb v) \<and> packet_fits (pb v) \<and>
       codec_resp cd (Event n t v) \<and> resp_to_vec cd (Event n t v) = Some (eb v) \<and> packet_fits (eb v) \<and> eb v \<noteq> []) vs"

lemma run_publications:
  assumes it: "iter_ok it" and sub: "subscribed_as c tx n t s"
  shows "publications_coded cd n t vs pb eb \<Longrightarrow>
    \<exists>es. run_task (for_each (dispatch cd it d) (map pb vs)) s = (s, es) \<and> sent_to tx es = map (\<lambda>v. Outgoing (eb v)) vs"
proof (induction vs)
  case (Cons v vs)
  let ?txs = "List.map_filter (clients s) (subscriber_list it s n t)"
  have "inj_on (clients s) (dom (clients s))" using sub by (simp add: subscribed_as_def)
  then have "distinct ?txs"
    by (intro distinct_map_filter distinct_subscriber_list [OF it]) (metis inj_onD domI)
  moreover have "tx \<in> set ?txs"
    using sub by (auto simp: set_map_filter set_subscriber_list [OF it] subscribed_as_def)
  ultimately have one: "sent_to tx (map (\<lambda>x. Sent x (Outgoing (eb v))) ?txs) = [Outgoing (eb v)]"
    by (simp add: sent_to_broadcast)
  from Cons.prems have v: "decode_packet cd (pb v) = InRequest (Publish n t v)" "resp_to_vec cd (Event n t v) = Some (eb v)"
    by (auto simp: publications_coded_def intro: decode_packet_request)
  from Cons obtain es where es: "run_task (for_each (dispatch cd it d) (map pb vs)) s = (s, es)"
      "sent_to tx es = map (\<lambda>v. Outgoing (eb v)) vs"
    by (auto simp: publications_coded_def)
  have "run_task (for_each (dispatch cd it d) (map pb (v # vs))) s = (s, map (\<lambda>x. Sent x (Outgoing (eb v))) ?txs @ es)"
    using v es(1) by (simp add: dispatch_def run_publish run_seq)
  with one es(2) show ?case by simp
qed simp

section \<open>The subscriber\<close>

lemma actor_events:
  "publications_coded cd n t vs pb eb \<Longrightarrow> subs a (n, t) = Some [tx] \<Longrightarrow>
   updates a tx = \<lparr>places = k, queue = q, rx_open = True\<rparr> \<Longrightarrow> length q + length vs \<le> k \<Longrightarrow>
   actor_run cd msg (replicate (length vs) FromStream) (a\<lparr>stream_in := \<lparr>avail = concat (map (\<lambda>v. frame (eb v)) vs), ends = e\<rparr>\<rparr>) =
     (a\<lparr>stream_in := \<lparr>avail = [], ends = e\<rparr>, updates := (updates a)(tx := \<lparr>places = k, queue = q @ vs, rx_open = True\<rparr>)\<rparr>, True)"
proof (induction vs arbitrary: a q)
  case Nil
  then show ?case by (simp add: fun_upd_idem)
next
  case (Cons v vs)
  then have v: "packet_fits (eb v)" "eb v \<noteq> []" "codec_resp cd (Event n t v)" "resp_to_vec cd (Event n t v) = Some (eb v)"
    by (simp_all add: publications_coded_def)
  then have event: "resp_from_slice cd (eb v) = Some (Event n t v)" by (auto simp: codec_resp_def)
  let ?a = "a\<lparr>updates := (updates a)(tx := \<lparr>places = k, queue = q @ [v], rx_open = True\<rparr>)\<rparr>"
  have "actor_step cd msg FromStream (a\<lparr>stream_in := \<lparr>avail = concat (map (\<lambda>v. frame (eb v)) (v # vs)), ends = e\<rparr>\<rparr>) =
      (?a\<lparr>stream_in := \<lparr>avail = concat (map (\<lambda>v. frame (eb v)) vs), ends = e\<rparr>\<rparr>, True)"
    using Cons.prems(2-4) v(2) event
    by (simp add: read_packet_framed [OF v(1)] actor_packet_def try_send_def fun_upd_idem)
  moreover have "actor_run cd msg (replicate (length vs) FromStream) (?a\<lparr>stream_in := \<lparr>avail = concat (map (\<lambda>v. frame (eb v)) vs), ends = e\<rparr>\<rparr>) =
     (?a\<lparr>stream_in := \<lparr>avail = [], ends = e\<rparr>, updates := (updates ?a)(tx := \<lparr>places = k, queue = (q @ [v]) @ vs, rx_open = True\<rparr>)\<rparr>, True)"
    by (rule Cons.IH) (use Cons.prems in \<open>simp_all add: publications_coded_def\<close>)
  ultimately have "actor_run cd msg (replicate (length (v # vs)) FromStream)
      (a\<lparr>stream_in := \<lparr>avail = concat (map (\<lambda>v. frame (eb v)) (v # vs)), ends = e\<rparr>\<rparr>) =
    (?a\<lparr>stream_in := \<lparr>avail = [], ends = e\<rparr>, updates := (updates ?a)(tx := \<lparr>places = k, queue = (q @ [v]) @ vs, rx_open = True\<rparr>)\<rparr>, True)"
    by (simp only: list.size replicate_Suc add_Suc_right add_0_right actor_run.simps prod.case bool.case)
  moreover have "(updates ?a)(tx := ch) = (updates a)(tx := ch)" for ch by (simp add: fun_eq_iff)
  ultimately show ?case by (simp only: append.simps append_assoc) (simp add: fun_eq_iff)
qed

section \<open>From publisher to callback\<close>

text \<open>What the publisher's actor writes for the publications \<open>vs\<close>.\<close>

definition published :: "codec \<Rightarrow> string \<Rightarrow> string \<Rightarrow> string \<Rightarrow> json list \<Rightarrow> bytes" where
  "published cd msg n t vs =
     sent (stream_out (fold (\<lambda>v. actor_message cd msg (Request (publish_request n t v) 0)) vs
       (new_actor \<lparr>avail = [], ends = None\<rparr> open_writer)))"

lemma published_eq:
  assumes "publications_coded cd n t vs pb eb"
  shows "published cd msg n t vs = concat (map (\<lambda>v. frame (pb v)) vs)"
proof -
  have "sent (stream_out (fold (\<lambda>v. actor_message cd msg (Request (publish_request n t v) 0)) vs a)) =
      sent (stream_out a) @ concat (map (\<lambda>v. frame (pb v)) vs)"
    if "room (stream_out a) = None" "flush_err (stream_out a) = None" "publications_coded cd n t vs pb eb" for a
    using that
  proof (induction vs arbitrary: a)
    case (Cons v vs)
    let ?a = "actor_message cd msg (Request (publish_request n t v) 0) a"
    have "?a = resolve 0 (Inr (Event '''' '''' JNull)) (a\<lparr>stream_out := (stream_out a)\<lparr>sent := sent (stream_out a) @ frame (pb v)\<rparr>\<rparr>)"
      using Cons.prems by (simp add: publications_coded_def publish_request_def write_packet_unlimited packet_fits_def)
    with Cons.IH [of ?a] Cons.prems show ?case by (simp add: publications_coded_def resolve_def del: actor_message.simps)
  qed simp
  with assms show ?thesis by (simp add: published_def new_actor_def)
qed

text \<open>
  C7: A publication runs through all components to the callback. A client subscribes; another publishes
  values, no more than a subscription has places; the broker acknowledges the subscription and relays each
  publication to the subscriber's channel once and in order; the writer carries them to the subscriber's
  actor, which leaves the acknowledgement aside and puts every value into the subscription's channel; the
  callback sees exactly the published values, in the order in which they were published.
\<close>

theorem publication_end_to_end:
  assumes "reachable cd it s" and "iter_ok it" and "clients s c = Some ctx" and "publications_coded cd n t vs pb eb"
    and "length vs \<le> update_places"
    and "codec_req cd (Subscribe n t)" and "req_to_vec cd (Subscribe n t) = Some sb" and "packet_fits sb"
    and "codec_resp cd (Subscribed n t)" and "resp_to_vec cd (Subscribed n t) = Some ab" and "packet_fits ab" and "ab \<noteq> []"
    and "run_task (dispatch cd it c sb) s = (s1, es1)"
    and "run_task (for_each (dispatch cd it d) (fst (read_all \<lparr>avail = published cd msg n t vs, ends = None\<rparr>))) s1 = (s2, es2)"
    and "actor_run cd msg (FromHandle 0 (fst (subscribe n t tx)) # replicate (Suc (length vs)) FromStream)
      (new_actor \<lparr>avail = sent (fst (writer_loop open_writer (sent_to ctx (es1 @ es2)))), ends = e\<rparr> open_writer) = (a, running)"
  shows "running \<and> sent (stream_out a) = frame sb \<and> queue (updates a tx) = vs \<and>
     snd (subscribe_async n t callback tx (queue (updates a tx)) st) = fold callback vs st"
proof -
  let ?ack = "\<lparr>avail = frame ab @ concat (map (\<lambda>v. frame (eb v)) vs), ends = e\<rparr>"
  have sub: "decode_packet cd sb = InRequest (Subscribe n t)"
    using assms(6,7) by (rule decode_packet_request)
  have es1: "es1 = [Sent ctx (Outgoing ab)]" and s1: "s1 = fst (run_task (handle_subscribe cd n t c) s)"
    using assms(3,10,13) sub by (auto simp: dispatch_def run_subscribe to_client_def)
  have "broker_ok s1"
    unfolding s1 using reachable_ok [OF assms(1)] assms(3) by (intro broker_inv) simp_all
  then have "subscribed_as c ctx n t s1"
    unfolding subscribed_as_def
  proof (intro conjI)
    show "\<forall>d \<in> fset (subscribers (subscriptions s1) n t). clients s1 d \<noteq> None"
      using broker_okD(2) [OF \<open>broker_ok s1\<close>] by blast
    show "inj_on (clients s1) (dom (clients s1))"
      using broker_okD(5) [OF \<open>broker_ok s1\<close>] by (intro inj_onI) (metis domD)
  qed (use assms(3) in \<open>simp_all add: s1 run_subscribe subscribers_def Let_def\<close>)
  moreover have "fst (read_all \<lparr>avail = published cd msg n t vs, ends = None\<rparr>) = map pb vs"
    using assms(4) read_all_concat [of "map pb vs" "[]" None]
    by (simp add: published_eq [OF assms(4)] read_all_empty publications_coded_def list_all_iff comp_def)
  ultimately obtain es where "run_task (for_each (dispatch cd it d) (fst (read_all \<lparr>avail = published cd msg n t vs, ends = None\<rparr>))) s1 = (s1, es)"
      "sent_to ctx es = map (\<lambda>v. Outgoing (eb v)) vs"
    using run_publications [OF assms(2) _ assms(4)] by metis
  with assms(14) es1 have "sent_to ctx (es1 @ es2) = map Outgoing (ab # map eb vs)" by simp
  then have wire: "sent (fst (writer_loop open_writer (sent_to ctx (es1 @ es2)))) = frame ab @ concat (map (\<lambda>v. frame (eb v)) vs)"
    using assms(4,11) by (simp only:) (subst writer_loop_packets, auto simp: publications_coded_def list_all_iff comp_def)
  let ?a = "(new_actor ?ack (open_writer\<lparr>sent := frame sb\<rparr>))\<lparr>subs := [(n, t) \<mapsto> [tx]]\<rparr>"
  have "actor_step cd msg (FromHandle 0 (fst (subscribe n t tx))) (new_actor ?ack open_writer) = (?a, True)"
    using assms(7,8) by (simp add: subscribe_def new_actor_def write_packet_unlimited packet_fits_def)
  moreover have "resp_from_slice cd ab = Some (Subscribed n t)" using assms(9,10) by (auto simp: codec_resp_def)
  then have "actor_step cd msg FromStream ?a = (?a\<lparr>stream_in := \<lparr>avail = concat (map (\<lambda>v. frame (eb v)) vs), ends = e\<rparr>\<rparr>, True)"
    using assms(11,12) by (simp add: new_actor_def read_packet_framed actor_packet_def)
  moreover have "actor_run cd msg (replicate (length vs) FromStream) (?a\<lparr>stream_in := \<lparr>avail = concat (map (\<lambda>v. frame (eb v)) vs), ends = e\<rparr>\<rparr>) =
      (?a\<lparr>stream_in := \<lparr>avail = [], ends = e\<rparr>,
        updates := (updates ?a)(tx := \<lparr>places = update_places, queue = [] @ vs, rx_open = True\<rparr>)\<rparr>, True)"
    by (rule actor_events [OF assms(4)]) (use assms(5) in \<open>simp_all add: new_actor_def new_channel_def\<close>)
  ultimately have "running" "a = ?a\<lparr>stream_in := \<lparr>avail = [], ends = e\<rparr>,
        updates := (updates ?a)(tx := \<lparr>places = update_places, queue = vs, rx_open = True\<rparr>)\<rparr>"
    using assms(15) unfolding wire by (simp_all del: actor_step.simps)
  moreover have "run_callback callback vs st = fold callback vs st" for vs st
    by (induction vs arbitrary: st) simp_all
  ultimately show ?thesis by (simp add: subscribe_async_def new_actor_def)
qed

text \<open>A codec for a topic of which the numbers up to 99 are published.\<close>

definition news_codec :: codec where
  "news_codec =
     \<lparr>req_to_vec = (\<lambda>r. case r of Subscribe n t \<Rightarrow> Some [3] | Publish n t (JNumber (NInt i)) \<Rightarrow> Some [4, of_int i] | _ \<Rightarrow> None),
      resp_to_vec = (\<lambda>r. case r of Subscribed n t \<Rightarrow> Some [5] | Event n t (JNumber (NInt i)) \<Rightarrow> Some [6, of_int i] | _ \<Rightarrow> None),
      req_from_slice = (\<lambda>b. if b = [3] then Some (Subscribe ''news'' ''t'')
        else if length b = 2 \<and> b ! 0 = 4 then Some (Publish ''news'' ''t'' (JNumber (NInt (uint (b ! 1))))) else None),
      resp_from_slice = (\<lambda>b. if b = [5] then Some (Subscribed ''news'' ''t'')
        else if length b = 2 \<and> b ! 0 = 6 then Some (Event ''news'' ''t'' (JNumber (NInt (uint (b ! 1))))) else None)\<rparr>"

definition news_start :: ServerState where
  "news_start = fst (run_task (history news_codec demo_order [Connect ''c'' 2]) (empty_state Map.empty))"

text \<open>The subscriber's actor when a client subscribes and 1 and 2 are published.\<close>

definition news_actor :: actor where
  "news_actor =
     (let vs = [JNumber (NInt 1), JNumber (NInt 2)];
          (s1, es1) = run_task (dispatch news_codec demo_order (ClientId ''c'') [3]) news_start;
          wire = published news_codec ''e'' ''news'' ''t'' vs;
          es2 = snd (run_task (for_each (dispatch news_codec demo_order (ClientId ''p'')) (fst (read_all \<lparr>avail = wire, ends = None\<rparr>))) s1)
      in fst (actor_run news_codec ''e'' (FromHandle 0 (fst (subscribe ''news'' ''t'' 7)) # replicate (Suc (length vs)) FromStream)
        (new_actor \<lparr>avail = sent (fst (writer_loop open_writer (sent_to 2 (es1 @ es2)))), ends = None\<rparr> open_writer)))"

theorem publication_end_to_end_witness:
  "queue (updates news_actor 7) = [JNumber (NInt 1), JNumber (NInt 2)] \<and> sent (stream_out news_actor) = frame [3]"
proof -
  let ?vs = "[JNumber (NInt 1), JNumber (NInt 2)]"
  let ?pb = "\<lambda>v. the (req_to_vec news_codec (Publish ''news'' ''t'' v))" and ?eb = "\<lambda>v. the (resp_to_vec news_codec (Event ''news'' ''t'' v))"
  have reach: "reachable news_codec demo_order news_start"
    unfolding news_start_def by (intro reachable_history reachable_initial initial_no_services) (simp add: empty_state_def)
  have c: "clients news_start (ClientId ''c'') = Some 2" by (simp add: news_start_def run_spawn_client empty_state_def)
  have vs: "publications_coded news_codec ''news'' ''t'' ?vs ?pb ?eb" "length ?vs \<le> update_places"
    by (simp_all add: publications_coded_def codec_req_def codec_resp_def news_codec_def packet_fits_def BUF_SIZE_eq update_places_def)
  have sub: "codec_req news_codec (Subscribe ''news'' ''t'')" "req_to_vec news_codec (Subscribe ''news'' ''t'') = Some [3]" "packet_fits [3]"
    and ack: "codec_resp news_codec (Subscribed ''news'' ''t'')" "resp_to_vec news_codec (Subscribed ''news'' ''t'') = Some [5]" "packet_fits [5]" "[5] \<noteq> []"
    by (simp_all add: codec_req_def codec_resp_def news_codec_def packet_fits_def BUF_SIZE_eq)
  let ?run1 = "run_task (dispatch news_codec demo_order (ClientId ''c'') [3]) news_start"
  let ?run2 = "\<lambda>s1. run_task (for_each (dispatch news_codec demo_order (ClientId ''p''))
      (fst (read_all \<lparr>avail = published news_codec ''e'' ''news'' ''t'' ?vs, ends = None\<rparr>))) s1"
  obtain s1 es1 where r1: "?run1 = (s1, es1)" by force
  obtain s2 es2 where r2: "?run2 s1 = (s2, es2)" by force
  obtain a running where r3: "actor_run news_codec ''e'' (FromHandle 0 (fst (subscribe ''news'' ''t'' 7)) # replicate (Suc (length ?vs)) FromStream)
      (new_actor \<lparr>avail = sent (fst (writer_loop open_writer (sent_to 2 (es1 @ es2)))), ends = None\<rparr> open_writer) = (a, running)" by force
  have "news_actor = a"
    by (simp only: news_actor_def Let_def r1 r2 r3 prod.case fst_conv snd_conv)
  note result = publication_end_to_end [OF reach iter_ok_demo c vs sub ack r1 r2 r3, where callback = "\<lambda>_ st. st" and st = "()"]
  show ?thesis
    unfolding \<open>news_actor = a\<close> by (intro conjI result [THEN conjunct2, THEN conjunct1] result [THEN conjunct2, THEN conjunct2, THEN conjunct1])
qed

end
