(* ===== verification/Oversize.thy ===== *)
theory Oversize
  imports Pubsub Lifecycle
begin

text \<open>
  Messages that outgrow a packet. The broker decodes what it reads and encodes what it passes on, and
  the second text can be longer than the first (\<^verbatim>\<open>serde_json\<close> writes the number \<^verbatim>\<open>1e15\<close> with eighteen
  characters). \<open>write_packet\<close> refuses a packet that is too long, and the writer of the receiver ends.
\<close>

section \<open>What is passed on\<close>

text \<open>The bytes that the broker passes on for a packet, and the clients that are to get them.\<close>

fun relayed :: "codec \<Rightarrow> incoming \<Rightarrow> bytes option" where
  "relayed cd (InRequest (Call call_id object_name method args)) = req_to_vec cd (Call call_id object_name method args)"
| "relayed cd (InRequest (Publish object_name topic args)) = resp_to_vec cd (Event object_name topic args)"
| "relayed cd _ = None"

fun receivers :: "ServerState \<Rightarrow> incoming \<Rightarrow> ClientId set" where
  "receivers s (InRequest (Call call_id object_name method args)) = {c. objects s object_name = Some c}"
| "receivers s (InRequest (Publish object_name topic args)) = fset (subscribers (subscriptions s) object_name topic)"
| "receivers s _ = {}"

lemma relay_reaches:
  assumes "reachable cd it s" and "iter_ok it" and "clients s d \<noteq> None"
    and "relayed cd (decode_packet cd buf) = Some b" and "c \<in> receivers s (decode_packet cd buf)"
    and "run_task (dispatch cd it d buf) s = (s', es)"
  shows "\<exists>tx. clients s c = Some tx \<and> Sent tx (Outgoing b) \<in> set es \<and> clients s' = clients s \<and> objects s' = objects s"
proof -
  have ok: "broker_ok s" using assms(1) by (rule reachable_ok)
  consider (call) ci n m a where "decode_packet cd buf = InRequest (Call ci n m a)"
    | (publication) n t a where "decode_packet cd buf = InRequest (Publish n t a)"
    using assms(4) by (cases "(cd, decode_packet cd buf)" rule: relayed.cases) auto
  then show ?thesis
  proof cases
    case call
    then obtain tx where "objects s n = Some c" "clients s c = Some tx"
      using assms(5) broker_okD(1) [OF ok] by auto
    with call assms(3,4,6) show ?thesis
      by (auto simp: dispatch_def run_handle_call Let_def)
  next
    case publication
    then have c: "c |\<in>| subscribers (subscriptions s) n t" using assms(5) by simp
    with broker_okD(2) [OF ok] obtain tx where tx: "clients s c = Some tx" by blast
    have "c \<in> set (subscriber_list it s n t)"
      using set_subscriber_list [OF assms(2), of s n t] c by simp
    with publication tx assms(4,6) show ?thesis
      by (auto simp: dispatch_def run_publish set_map_filter image_iff)
  qed
qed

lemma writer_loop_append:
  "writer_loop w ms = (w1, True) \<Longrightarrow> writer_loop w (ms @ ms') = writer_loop w1 ms'"
  by (induction w ms rule: writer_loop.induct) (auto split: prod.splits option.splits)

text \<open>
  C20: One packet can silence any connection. A call or publication whose packet fits but whose text as
  the broker writes it does not is put into the channel of the object's owner, or of every subscriber;
  there it ends the writer without a trace on the stream, so that neither it nor any later message
  reaches that client, while the broker keeps the client registered, as the owner of its objects.
\<close>

theorem oversize_message_silences_receivers:
  assumes "reachable cd it s" and "iter_ok it" and "clients s d \<noteq> None"
    and "relayed cd (decode_packet cd buf) = Some b" and "BUF_SIZE < length b"
    and "c \<in> receivers s (decode_packet cd buf)" and "run_task (dispatch cd it d buf) s = (s', es)"
  shows "\<exists>tx. clients s' c = Some tx \<and> Sent tx (Outgoing b) \<in> set es \<and>
     (\<forall>w w1 before later. writer_loop w before = (w1, True) \<longrightarrow>
        writer_loop w (before @ Outgoing b # later) = (w1, False)) \<and>
     (\<forall>n. objects s n = Some c \<longrightarrow> objects s' n = Some c)"
proof -
  obtain tx where "clients s c = Some tx" "Sent tx (Outgoing b) \<in> set es" "clients s' = clients s" "objects s' = objects s"
    using relay_reaches [OF assms(1-4,6,7)] by blast
  with assms(5) show ?thesis
    by (intro exI [of _ tx]) (simp add: writer_loop_append write_packet_def)
qed

definition growing_codec :: codec where
  "growing_codec = demo_codec\<lparr>resp_to_vec := (\<lambda>r. if r = Event ''news'' ''t'' (JNumber (NInt 1)) then Some (replicate 70000 49)
       else resp_to_vec demo_codec r),
     req_from_slice := (\<lambda>b. if b = [4] then Some (Publish ''news'' ''t'' (JNumber (NInt 1))) else req_from_slice demo_codec b)\<rparr>"

lemma growing_decodes:
  "decode_packet growing_codec [2] = InRequest (RegisterObject ''math'')"
  "decode_packet growing_codec [3] = InRequest (Subscribe ''news'' ''t'')"
  "decode_packet growing_codec [4] = InRequest (Publish ''news'' ''t'' (JNumber (NInt 1)))"
  by (simp_all add: decode_packet_def growing_codec_def demo_codec_def)

lemma growing_reachable: "reachable growing_codec it news_state"
proof -
  let ?evs = "demo_events @ [Packet caller [3]]"
  have enabled: "enabled_history growing_codec it ?evs (empty_state Map.empty)"
    and run: "fst (run_task (history growing_codec it ?evs) (empty_state Map.empty)) = news_state"
    by (auto simp: demo_events_def empty_state_def run_spawn_client dispatch_def run_register_object run_subscribe
        growing_decodes news_state_def demo_state_def worker_def caller_def Let_def)
  then show ?thesis
    by (metis reachable_history reachable_initial initial_no_services)
qed

theorem oversize_message_silences_receivers_witness:
  "\<exists>es. snd (run_task (dispatch growing_codec demo_order worker [4]) news_state) = es \<and>
     Sent 2 (Outgoing (replicate 70000 49)) \<in> set es \<and>
     writer_loop open_writer [Outgoing (replicate 70000 49), Outgoing [11]] = (open_writer, False)"
proof -
  let ?b = "replicate 70000 49 :: bytes"
  note dec = growing_decodes(3)
  have b: "relayed growing_codec (decode_packet growing_codec [4]) = Some ?b" "BUF_SIZE < length ?b"
    unfolding dec by (simp_all add: growing_codec_def BUF_SIZE_eq)
  have "caller \<in> receivers news_state (decode_packet growing_codec [4])"
    unfolding dec by (simp add: news_state_def subscribers_def)
  moreover have "clients news_state worker \<noteq> None" by (simp add: news_state_def demo_state_def)
  moreover obtain s' es where run: "run_task (dispatch growing_codec demo_order worker [4]) news_state = (s', es)" by force
  ultimately obtain tx where tx: "clients s' caller = Some tx" "Sent tx (Outgoing ?b) \<in> set es"
      "\<forall>w w1 before later. writer_loop w before = (w1, True) \<longrightarrow> writer_loop w (before @ Outgoing ?b # later) = (w1, False)"
    using oversize_message_silences_receivers [OF growing_reachable iter_ok_demo _ b] by blast
  have "s' = news_state" using run by (simp add: dispatch_def dec run_publish)
  with tx(1) have "tx = 2" by (simp add: news_state_def demo_state_def)
  with tx run spec [OF spec [OF spec [OF tx(3), of open_writer], of open_writer], of "[]"] show ?thesis by auto
qed

end
