(* ===== verification/Startup.thy ===== *)
theory Startup
  imports Examples
begin

text \<open>
  Starting the broker, \<open>run_broker\<close> and what it calls in \<^verbatim>\<open>src/src/broker.rs\<close> on Unix: the address of
  the TCP listener, the stale socket file, the choice of listeners by \<open>APP_MODE\<close>, the accept loop
  and the built-in object \<open>rob\<close>.

  Parameters: the local IP address, what lies at the socket path, whether binding succeeds, what
  \<open>accept\<close> yields, and the order in which the keys of the object map are listed.
\<close>

section \<open>Addresses\<close>

text \<open>\<open>str::parse::<u16>\<close>: an optional plus sign, then decimal digits.\<close>

definition parse_u16 :: "string \<Rightarrow> nat option" where
  "parse_u16 cs =
     Option.bind (parse_nat (case cs of c # r \<Rightarrow> if c = CHR ''+'' then r else cs | [] \<Rightarrow> []))
       (\<lambda>n. if n < 2 ^ 16 then Some n else None)"

text \<open>\<open>s.rsplit(c).next()\<close>: what follows the last \<open>c\<close>.\<close>

definition after_last :: "char \<Rightarrow> string \<Rightarrow> string" where
  "after_last c s = rev (takeWhile (\<lambda>x. x \<noteq> c) (rev s))"

definition get_local_ip_port :: "string option \<Rightarrow> string" where
  "get_local_ip_port local_ip =
     (case local_ip of
        Some ip \<Rightarrow>
          (let port = (case parse_u16 (after_last CHR '':'' TCP_ADDR) of Some p \<Rightarrow> p | None \<Rightarrow> 5123)
           in ip @ '':'' @ show_nat port)
      | None \<Rightarrow> TCP_ADDR)"

section \<open>Listeners\<close>

datatype socket_path = Missing | StatError | IsSocket | IsSymlink | OtherFile

text \<open>Whether \<open>start_unix_listener\<close> removes what lies at the socket path.\<close>

fun removes_stale :: "socket_path \<Rightarrow> bool" where
  "removes_stale IsSocket = True"
| "removes_stale _ = False"

definition app_mode :: "string option \<Rightarrow> string" where
  "app_mode env = (case env of Some m \<Rightarrow> m | None \<Rightarrow> ''release'')"

text \<open>
  The accept loop of a listener: a connection with a peer address becomes a client with a fresh UUID
  and a new channel; errors are logged. Each turn of the loop is a \<open>tokio::select!\<close> between the
  shutdown signal, which ends it, and one accept.
\<close>

datatype accepted_conn = Accepted string ClientSender | PeerError | AcceptError

fun accept_events :: "accepted_conn list \<Rightarrow> event list" where
  "accept_events [] = []"
| "accept_events (Accepted uuid tx # as) = Connect uuid tx # accept_events as"
| "accept_events (_ # as) = accept_events as"

datatype 'a turn = CtrlC | Ready 'a

text \<open>The events that the loop causes, and whether it has ended.\<close>

fun listener_loop :: "('a list \<Rightarrow> event list) \<Rightarrow> 'a turn list \<Rightarrow> event list \<times> bool" where
  "listener_loop accept [] = ([], False)"
| "listener_loop accept (CtrlC # ts) = ([], True)"
| "listener_loop accept (Ready x # ts) = (case listener_loop accept ts of (evs, ended) \<Rightarrow> (accept [x] @ evs, ended))"

definition start_tcp_listener ::
    "string option \<Rightarrow> (string \<Rightarrow> io_error option) \<Rightarrow> accepted_conn turn list \<Rightarrow> io_error + string \<times> event list \<times> bool" where
  "start_tcp_listener local_ip bind turns =
     (let addr = get_local_ip_port local_ip
      in case bind addr of Some e \<Rightarrow> Inl e | None \<Rightarrow> Inr (addr, listener_loop accept_events turns))"

text \<open>The result tells whether something was removed from the socket path.\<close>

definition start_unix_listener ::
    "socket_path \<Rightarrow> io_error option \<Rightarrow> accepted_conn turn list \<Rightarrow> io_error + bool \<times> event list \<times> bool" where
  "start_unix_listener at_path bind_unix turns =
     (case bind_unix of Some e \<Rightarrow> Inl e | None \<Rightarrow> Inr (removes_stale at_path, listener_loop accept_events turns))"

text \<open>
  \<open>run_broker\<close>: \<open>bind\<close> tells for an address the error of binding to it, \<open>bind_unix\<close> the same for the
  socket path; then the turns of the listeners and whether the worker of \<open>rob\<close> has ended. The broker
  returns when all of them have.
\<close>

record listening =
  tcp :: "string option"
  unix_removed :: bool
  tcp_clients :: "event list"
  unix_clients :: "event list"
  returned :: bool

definition run_broker ::
    "string option \<Rightarrow> string option \<Rightarrow> (string \<Rightarrow> io_error option) \<Rightarrow> socket_path \<Rightarrow> io_error option
      \<Rightarrow> accepted_conn turn list \<Rightarrow> accepted_conn turn list \<Rightarrow> bool \<Rightarrow> io_error + listening" where
  "run_broker env local_ip bind at_path bind_unix tcp_turns unix_turns rob_ended =
     (let mode = app_mode env;
          tcp_result = (if mode = ''debug'' then map_sum id Some (start_tcp_listener local_ip bind tcp_turns)
                        else Inr None)
      in case tcp_result of
           Inl e \<Rightarrow> Inl e
         | Inr tcp_listener \<Rightarrow>
             (case start_unix_listener at_path bind_unix unix_turns of
                Inl e \<Rightarrow> Inl e
              | Inr (removed, unix_evs, unix_ended) \<Rightarrow>
                  Inr (case tcp_listener of
                         Some (addr, tcp_evs, tcp_ended) \<Rightarrow>
                           \<lparr>tcp = Some addr, unix_removed = removed, tcp_clients = tcp_evs, unix_clients = unix_evs,
                            returned = unix_ended \<and> rob_ended \<and> tcp_ended\<rparr>
                       | None \<Rightarrow>
                           \<lparr>tcp = None, unix_removed = removed, tcp_clients = [], unix_clients = unix_evs,
                            returned = unix_ended \<and> rob_ended\<rparr>)))"

text \<open>What happens before the signal.\<close>

fun before_signal :: "'a turn list \<Rightarrow> 'a list" where
  "before_signal [] = []"
| "before_signal (CtrlC # ts) = []"
| "before_signal (Ready x # ts) = x # before_signal ts"

lemma accept_events_append: "accept_events (as @ bs) = accept_events as @ accept_events bs"
  by (induction as rule: accept_events.induct) simp_all

lemma listener_loop_eq:
  assumes "\<And>as bs. accept (as @ bs) = accept as @ accept bs" and "accept [] = []"
  shows "listener_loop accept ts = (accept (before_signal ts), CtrlC \<in> set ts)"
proof (induction ts rule: before_signal.induct)
  case (3 x ts)
  with assms(1) [of "[x]" "before_signal ts"] show ?case by simp
qed (simp_all add: assms(2))

lemma accept_loop_eq: "listener_loop accept_events ts = (accept_events (before_signal ts), CtrlC \<in> set ts)"
  by (rule listener_loop_eq) (simp_all add: accept_events_append)

section \<open>The object \<open>rob\<close>\<close>

text \<open>\<open>ListObjects::call\<close>: the names of the registered objects; it reads the map under its mutex.\<close>

definition list_objects :: "((string \<rightharpoonup> ClientId) \<Rightarrow> string list) \<Rightarrow> ServerState \<Rightarrow> string \<Rightarrow> json \<Rightarrow> json" where
  "list_objects keys s method args =
     (if method = ''listObjects'' then JArray (map JString (keys (objects s))) else JNull)"

section \<open>Properties\<close>

text \<open>The TCP listener's address is the local IP address with the port of \<open>TCP_ADDR\<close>, 5123.\<close>

theorem tcp_address: "get_local_ip_port (Some ip) = ip @ '':5123'' \<and> get_local_ip_port None = ''0.0.0.0:5123''"
proof -
  have "after_last CHR '':'' TCP_ADDR = ''5123''"
    by (simp add: after_last_def TCP_ADDR_def)
  moreover have "parse_u16 ''5123'' = Some 5123"
    by (simp add: parse_u16_def parse_nat_def char_digit_def)
  moreover have "show_nat 5123 = ''5123''"
    by (simp add: show_nat.simps digit_char_def char_of_def bit_Suc_0_iff)
  ultimately show ?thesis by (simp add: get_local_ip_port_def TCP_ADDR_def)
qed

text \<open>
  C40: When the broker comes up, it listens on TCP only in debug mode (not in release mode, which is the
  default, and not in a mode it does not know), the socket path is bound, and nothing but a socket was
  removed from it: a symbolic link or a regular file at the path is left alone. It accepts exactly the
  connections that arrive before the shutdown signal, and returns when the signal has reached every
  listener and the worker of \<open>rob\<close> has ended.
\<close>

theorem broker_startup:
  assumes "run_broker env local_ip bind at_path bind_unix tcp_turns unix_turns rob_ended = Inr l"
  shows "(tcp l \<noteq> None \<longleftrightarrow> env = Some ''debug'') \<and> bind_unix = None \<and>
     (unix_removed l \<longrightarrow> at_path = IsSocket) \<and>
     (\<forall>addr. tcp l = Some addr \<longrightarrow> addr = get_local_ip_port local_ip \<and> bind addr = None) \<and>
     unix_clients l = accept_events (before_signal unix_turns) \<and>
     tcp_clients l = (if tcp l = None then [] else accept_events (before_signal tcp_turns)) \<and>
     (returned l \<longleftrightarrow> rob_ended \<and> CtrlC \<in> set unix_turns \<and> (tcp l \<noteq> None \<longrightarrow> CtrlC \<in> set tcp_turns))"
  using assms
  by (cases at_path)
    (auto simp: run_broker_def app_mode_def start_tcp_listener_def start_unix_listener_def accept_loop_eq Let_def
      split: option.splits if_splits sum.splits)

theorem broker_startup_witness:
  "\<exists>l. run_broker (Some ''debug'') (Some ''10.0.0.1'') (\<lambda>_. None) IsSymlink None
        [CtrlC] [Ready (Accepted ''a'' 1), CtrlC, Ready (Accepted ''b'' 2)] True = Inr l \<and>
     tcp l \<noteq> None \<and> \<not> unix_removed l \<and> unix_clients l = [Connect ''a'' 1] \<and> returned l"
proof -
  obtain l where l: "run_broker (Some ''debug'') (Some ''10.0.0.1'') (\<lambda>_. None) IsSymlink None
        [CtrlC] [Ready (Accepted ''a'' 1), CtrlC, Ready (Accepted ''b'' 2)] True = Inr l"
    by (simp add: run_broker_def app_mode_def start_tcp_listener_def start_unix_listener_def Let_def)
  from broker_startup [OF l] l show ?thesis by auto
qed

lemma accept_clients:
  assumes "reachable cd it s" and "distinct (map fst conns)" and "distinct (map snd conns)"
    and "\<forall>(u, tx) \<in> set conns. clients s (ClientId u) = None \<and> (\<forall>c. clients s c \<noteq> Some tx)"
  shows "reachable cd it (fst (run_task (history cd it (map (\<lambda>(u, tx). Connect u tx) conns)) s)) \<and>
     clients (fst (run_task (history cd it (map (\<lambda>(u, tx). Connect u tx) conns)) s)) =
       clients s ++ map_of (map (\<lambda>(u, tx). (ClientId u, tx)) conns)"
  using assms
proof (induction conns arbitrary: s)
  case (Cons c conns)
  obtain u tx where c: "c = (u, tx)" by force
  let ?s1 = "s\<lparr>clients := (clients s)(ClientId u \<mapsto> tx)\<rparr>"
  have "broker_step cd it s ?s1"
    using Cons.prems(4) by (intro broker_step.event [of s "Connect u tx"]) (auto simp: c run_spawn_client)
  then have r1: "reachable cd it ?s1" by (rule reachable_step [OF Cons.prems(1)])
  have fresh: "\<forall>(u', tx') \<in> set conns. clients ?s1 (ClientId u') = None \<and> (\<forall>d. clients ?s1 d \<noteq> Some tx')"
    using Cons.prems(2-4) by (force simp: c)
  have add: "(clients s)(ClientId u \<mapsto> tx) ++ map_of (map (\<lambda>(u, tx). (ClientId u, tx)) conns) =
      (clients s ++ map_of (map (\<lambda>(u, tx). (ClientId u, tx)) conns))(ClientId u \<mapsto> tx)"
    using Cons.prems(2) by (intro map_add_upd_left) (auto simp: c dom_map_of_conv_image_fst image_image split_beta)
  have "distinct (map fst conns)" "distinct (map snd conns)" using Cons.prems(2,3) by simp_all
  note IH = Cons.IH [OF r1 this fresh]
  have now: "clients ?s1 = (clients s)(ClientId u \<mapsto> tx)" by simp
  from IH [unfolded now add] show ?case
    unfolding c list.map split_conv history_Cons event_task.simps run_spawn_client fst_conv map_of.simps snd_conv map_add_upd
    by blast
qed simp

fun connections :: "accepted_conn list \<Rightarrow> (string \<times> ClientSender) list" where
  "connections [] = []"
| "connections (Accepted u tx # as) = (u, tx) # connections as"
| "connections (_ # as) = connections as"

lemma accept_events_connections: "accept_events as = map (\<lambda>(u, tx). Connect u tx) (connections as)"
  by (induction as rule: connections.induct) simp_all

text \<open>
  Every connection that a listener accepts becomes a client with its own channel and connection
  errors change nothing: after the start and any sequence of accepts with fresh UUIDs and channels the
  clients are exactly the accepted connections, the services are those found on disk, nothing else is
  registered, and the state is reachable.
\<close>

theorem accepted_connections_become_clients:
  assumes "distinct (map fst (connections as))" and "distinct (map snd (connections as))"
  shows "\<exists>s. fst (run_task (history cd it (accept_events as)) (empty_state (load_service_activations env Map.empty))) = s \<and>
     reachable cd it s \<and>
     (\<forall>u tx. clients s (ClientId u) = Some tx \<longleftrightarrow> Accepted u tx \<in> set as) \<and>
     services s = load_service_activations env Map.empty \<and> objects s = Map.empty \<and> calls s = Map.empty"
proof -
  let ?init = "empty_state (load_service_activations env Map.empty)"
  let ?s = "fst (run_task (history cd it (map (\<lambda>(u, tx). Connect u tx) (connections as))) ?init)"
  have "reachable cd it ?init"
    by (rule reachable_initial) (auto simp: initial_state_def)
  moreover have none: "clients ?init = Map.empty" by (simp add: empty_state_def)
  ultimately have s: "reachable cd it ?s"
      "clients ?s = map_of (map (\<lambda>(u, tx). (ClientId u, tx)) (connections as))"
    using accept_clients [OF _ assms, of cd it ?init] unfolding none by auto
  have conns: "(u, tx) \<in> set (connections as) \<longleftrightarrow> Accepted u tx \<in> set as" for u tx
    by (induction as rule: connections.induct) auto
  have "distinct (map fst (map (\<lambda>(u, tx). (ClientId u, tx)) (connections as)))"
    using assms(1) by (auto simp: distinct_map inj_on_def comp_def split_beta)
  then have "clients ?s (ClientId u) = Some tx \<longleftrightarrow> Accepted u tx \<in> set as" for u tx
    unfolding s(2) by (subst map_of_eq_Some_iff) (auto simp flip: conns)
  moreover have "services (fst (run_task (history cd it (map (\<lambda>(u, tx). Connect u tx) cs)) s)) = services s \<and>
      objects (fst (run_task (history cd it (map (\<lambda>(u, tx). Connect u tx) cs)) s)) = objects s \<and>
      calls (fst (run_task (history cd it (map (\<lambda>(u, tx). Connect u tx) cs)) s)) = calls s" for cs s
    by (induction cs arbitrary: s) (auto simp: run_spawn_client)
  ultimately show ?thesis
    using s(1) by (auto simp: accept_events_connections empty_state_def)
qed

theorem accepted_connections_become_clients_witness:
  "clients (fst (run_task (history demo_codec demo_order (accept_events [Accepted ''a'' 1, PeerError, Accepted ''b'' 2, AcceptError]))
     (empty_state (load_service_activations demo_activation_env Map.empty)))) (ClientId ''b'') = Some 2"
  using accepted_connections_become_clients [of "[Accepted ''a'' 1, PeerError, Accepted ''b'' 2, AcceptError]" demo_codec demo_order demo_activation_env]
  by auto

end
