(* ===== verification/Windows_Broker.thy ===== *)
theory Windows_Broker
  imports Schedules Worker Startup
begin

text \<open>
  The program compiled for Windows, where it differs: handlers without services, the panic of
  \<open>RegisterService\<close>, the listener on a named pipe, and the loops with which clients and workers open
  it. Everything else is the code of the other theories; the map of services is never touched.

  Parameters: what creating and connecting an instance of the pipe yields, and what each attempt to
  open it yields.
\<close>

section \<open>Handlers\<close>

text \<open>
  \<open>unimplemented!\<close> panics. The release profile aborts the process on a panic; with the default
  profile it unwinds the reader task, whose dropped signal ends the writer, and \<open>run\<close> goes on to the
  cleanup. A handler that panics is \<open>None\<close>.
\<close>

datatype panic_mode = Unwind | Abort

definition handle_register_object_windows :: "codec \<Rightarrow> string \<Rightarrow> ClientId \<Rightarrow> task" where
  "handle_register_object_windows cd object_name cid =
     seq (with_lock Objects (\<lambda>s. (s\<lparr>objects := (objects s)(object_name \<mapsto> cid)\<rparr>, Done)))
       (send_to_client cid (resp_to_vec cd (Registered object_name)))"

definition handle_call_windows :: "codec \<Rightarrow> CallId \<Rightarrow> string \<Rightarrow> string \<Rightarrow> json \<Rightarrow> ClientId \<Rightarrow> task" where
  "handle_call_windows cd call_id object_name method args cid =
     Lock Clients (Lock Objects (Sync (\<lambda>s.
       let worker_id_opt = objects s object_name;
           worker_tx_opt = Option.bind worker_id_opt (clients s);
           caller_tx_opt = clients s cid
       in (s, Unlock Objects (Unlock Clients
         (case caller_tx_opt of
            None \<Rightarrow>
              send_to_client cid
                (resp_to_vec cd (Error (Some call_id) object_name ''Caller disconnected''))
          | Some caller_tx \<Rightarrow>
              seq (with_lock Calls (\<lambda>s. (s\<lparr>calls := (calls s)(call_id \<mapsto> (cid, caller_tx))\<rparr>, Done)))
                (case (worker_id_opt, worker_tx_opt) of
                   (Some _, Some worker_tx) \<Rightarrow>
                     (case req_to_vec cd (Call call_id object_name method args) of
                        None \<Rightarrow> Done
                      | Some bytes \<Rightarrow> Send worker_tx (Outgoing bytes) Done)
                 | _ \<Rightarrow> send_to_client cid (resp_to_vec cd (no_such_object call_id object_name)))))))))"

fun handle_request_windows ::
    "codec \<Rightarrow> (ClientId fset \<Rightarrow> ClientId list) \<Rightarrow> RpcRequest \<Rightarrow> ClientId \<Rightarrow> task option" where
  "handle_request_windows cd it (RegisterObject object_name) cid = Some (handle_register_object_windows cd object_name cid)"
| "handle_request_windows cd it (RegisterService object_name name) cid = None"
| "handle_request_windows cd it (Call call_id object_name method args) cid =
     Some (handle_call_windows cd call_id object_name method args cid)"
| "handle_request_windows cd it (Subscribe object_name topic) cid = Some (handle_subscribe cd object_name topic cid)"
| "handle_request_windows cd it (Publish object_name topic args) cid = Some (handle_publish cd it object_name topic args)"
| "handle_request_windows cd it (HasObject object_name) cid = Some (handle_has_object cd object_name cid)"

definition dispatch_windows ::
    "codec \<Rightarrow> (ClientId fset \<Rightarrow> ClientId list) \<Rightarrow> ClientId \<Rightarrow> bytes \<Rightarrow> task option" where
  "dispatch_windows cd it cid buf =
     (case decode_packet cd buf of
        InRequest req \<Rightarrow> handle_request_windows cd it req cid
      | InResponse resp \<Rightarrow> Some (handle_response cd resp cid)
      | InInvalid \<Rightarrow> Some Done)"

section \<open>Connections\<close>

text \<open>The reader loop: what it does until it ends, and whether it ended by a panic.\<close>

function reader_loop_windows ::
    "codec \<Rightarrow> (ClientId fset \<Rightarrow> ClientId list) \<Rightarrow> ClientId \<Rightarrow> reader \<Rightarrow> task \<times> bool" where
  "reader_loop_windows cd it cid r =
     (case read_packet r of
        (Inl err, _) \<Rightarrow> (Done, False)
      | (Inr buf, r') \<Rightarrow>
          (case dispatch_windows cd it cid buf of
             None \<Rightarrow> (Done, True)
           | Some t \<Rightarrow> (case reader_loop_windows cd it cid r' of (k, panicked) \<Rightarrow> (seq t k, panicked))))"
  by pat_completeness auto
termination
  by (relation "measure (\<lambda>(cd, it, cid, r). length (avail r))") (auto intro: read_packet_shrinks [OF sym])

declare reader_loop_windows.simps [simp del]

definition cleanup_client_windows :: "ClientId \<Rightarrow> task" where
  "cleanup_client_windows cid =
     seq (with_lock Clients (\<lambda>s. (s\<lparr>clients := purge_clients cid (clients s)\<rparr>, Done)))
     (seq (with_lock Objects (\<lambda>s. (s\<lparr>objects := purge_objects cid (objects s)\<rparr>, Done)))
     (seq (with_lock Subscriptions (\<lambda>s. (s\<lparr>subscriptions := purge_subscriptions cid (subscriptions s)\<rparr>, Done)))
     (with_lock Calls (\<lambda>s. (s\<lparr>calls := purge_calls cid (calls s)\<rparr>, Done)))))"

text \<open>What a connection does, and whether the process is gone at its end.\<close>

definition client_run_windows ::
    "panic_mode \<Rightarrow> codec \<Rightarrow> (ClientId fset \<Rightarrow> ClientId list) \<Rightarrow> ClientId \<Rightarrow> reader \<Rightarrow> task \<times> bool" where
  "client_run_windows mode cd it cid r =
     (case reader_loop_windows cd it cid r of
        (t, panicked) \<Rightarrow>
          if panicked \<and> mode = Abort then (t, True) else (seq t (cleanup_client_windows cid), False))"

section \<open>The named pipe\<close>

text \<open>
  One turn of the listener: a new instance of the pipe is created and waits for a client. A failure
  of either is logged, followed by a pause of 200 milliseconds.
\<close>

datatype pipe_turn = PipeConnected string ClientSender | PipeConnectFailed | PipeCreationFailed

fun pipe_events :: "pipe_turn list \<Rightarrow> event list" where
  "pipe_events [] = []"
| "pipe_events (PipeConnected uuid tx # ts) = Connect uuid tx # pipe_events ts"
| "pipe_events (PipeConnectFailed # ts) = pipe_events ts"
| "pipe_events (PipeCreationFailed # ts) = pipe_events ts"

fun pipe_pause :: "pipe_turn \<Rightarrow> nat" where
  "pipe_pause (PipeConnected _ _) = 0"
| "pipe_pause PipeConnectFailed = 200"
| "pipe_pause PipeCreationFailed = 200"

text \<open>
  The listener, which \<open>run_broker\<close> starts in the place of the one for the Unix socket; \<open>sd\<close> is the
  message of the error with which the system refuses the security descriptor. The memory of the
  descriptor and its attributes is in \<^verbatim>\<open>Pipe_Security\<close>.
\<close>

definition start_named_pipe_listener :: "string option \<Rightarrow> pipe_turn turn list \<Rightarrow> io_error + event list \<times> bool" where
  "start_named_pipe_listener sd turns =
     (case sd of Some e \<Rightarrow> Inl (IoError Other e) | None \<Rightarrow> Inr (listener_loop pipe_events turns))"

lemma pipe_events_append: "pipe_events (as @ bs) = pipe_events as @ pipe_events bs"
  by (induction as rule: pipe_events.induct) simp_all

text \<open>
  Opening the pipe, in the client library and in the worker: attempts until one succeeds, with 100
  milliseconds between them, whatever the error. The result tells the number of failed attempts.
\<close>

partial_function (option) open_pipe :: "(nat \<Rightarrow> io_error + 'c) \<Rightarrow> nat \<Rightarrow> ('c \<times> nat) option" where
  "open_pipe attempts k =
     (case attempts k of
        Inr pipe \<Rightarrow> Some (pipe, k)
      | Inl e \<Rightarrow> open_pipe attempts (Suc k))"

definition run_worker_windows ::
    "codec \<Rightarrow> string \<Rightarrow> string list \<Rightarrow> (string \<rightharpoonup> 'o shared_object) \<Rightarrow> nat option
      \<Rightarrow> (nat \<Rightarrow> io_error + (reader \<times> writer)) \<Rightarrow> 'o \<Rightarrow> ((io_error option \<times> writer option) \<times> 'o) option" where
  "run_worker_windows cd msg ks objs stop attempts st =
     (case open_pipe attempts 0 of
        None \<Rightarrow> None
      | Some (pipe, _) \<Rightarrow> Some (run_worker cd msg ks objs stop (Inr pipe) st))"

section \<open>What the handlers do\<close>

lemma reader_loop_windows_eq:
  "reader_loop_windows cd it c r =
     (for_each (the \<circ> dispatch_windows cd it c) (takeWhile (\<lambda>b. dispatch_windows cd it c b \<noteq> None) (fst (read_all r))),
      \<not> list_all (\<lambda>b. dispatch_windows cd it c b \<noteq> None) (fst (read_all r)))"
proof (induction r rule: read_all.induct)
  case (1 r)
  show ?case
  proof (cases "read_packet r")
    case (Pair res r')
    show ?thesis
    proof (cases res)
      case (Inl e)
      with Pair show ?thesis by (simp add: reader_loop_windows.simps [of cd it c r] read_all_Err)
    next
      case (Inr d)
      with 1 [OF Pair [symmetric] Inr] Pair show ?thesis
        by (simp add: reader_loop_windows.simps [of cd it c r] read_all_Ok split: option.split)
    qed
  qed
qed

lemma dispatch_windows_panics:
  "dispatch_windows cd it c b = None \<longleftrightarrow> (\<exists>n u. decode_packet cd b = InRequest (RegisterService n u))"
proof (cases "decode_packet cd b")
  case (InRequest req)
  then show ?thesis by (cases req) (simp_all add: dispatch_windows_def)
qed (simp_all add: dispatch_windows_def)

lemma disciplined_dispatch_windows:
  "dispatch_windows cd it c b = Some t \<Longrightarrow> disciplined (\<lambda>_. True) t []"
proof (cases "decode_packet cd b")
  case (InRequest req)
  assume "dispatch_windows cd it c b = Some t"
  with InRequest have "handle_request_windows cd it req c = Some t" by (simp add: dispatch_windows_def)
  then show ?thesis
    by (cases req)
      (auto simp: handle_register_object_windows_def handle_call_windows_def handle_subscribe_def handle_publish_def
        handle_has_object_def Let_def less_mutex_def split: option.split
        intro!: disciplined_seq disciplined_for_each disciplined_send_to_client)
qed (auto simp: dispatch_windows_def handle_response_def forward_response_def split: option.split)

lemma disciplined_client_run_windows:
  "disciplined (\<lambda>_. True) (fst (client_run_windows mode cd it c r)) []"
proof -
  have "disciplined (\<lambda>_. True) (fst (reader_loop_windows cd it c r)) []"
    unfolding reader_loop_windows_eq fst_conv
    by (intro disciplined_for_each) (auto dest!: set_takeWhileD intro: disciplined_dispatch_windows)
  moreover have "disciplined (\<lambda>_. True) (cleanup_client_windows c) []"
    by (auto simp: cleanup_client_windows_def intro!: disciplined_seq)
  ultimately show ?thesis
    by (auto simp: client_run_windows_def intro: disciplined_seq split: prod.split)
qed

definition windows_jobs ::
    "panic_mode \<Rightarrow> codec \<Rightarrow> (ClientId fset \<Rightarrow> ClientId list) \<Rightarrow> (ClientId \<times> reader) list \<Rightarrow> task list" where
  "windows_jobs mode cd it cs = map (\<lambda>(c, r). fst (client_run_windows mode cd it c r)) cs"

text \<open>
  On Windows the broker terminates under every schedule, with no condition on what its clients
  call: the answer about an unknown object is sent with no mutex held, so the connection that does not
  read it delays nobody else.
\<close>

theorem windows_schedules_finish:
  assumes "p0 = start_pool txs s (windows_jobs mode cd it cs)"
  shows "\<not> runs_for_ever p0 \<and>
     (\<forall>mvs p. list_all ordinary mvs \<and> pool_run mvs p0 = Some p \<and> stuck p \<longrightarrow>
        jobs p = replicate (length cs) Done \<and> (\<forall>tx. accepted p tx = written p tx))"
proof (intro conjI allI impI)
  show "\<not> runs_for_ever p0" by (rule schedules_finite) (simp add: assms)
  fix mvs p
  assume run: "list_all ordinary mvs \<and> pool_run mvs p0 = Some p \<and> stuck p"
  have "fresh_pool (\<lambda>_. True) p0"
    by (auto simp: assms fresh_pool_def start_pool_def windows_jobs_def list_all_iff disciplined_client_run_windows)
  moreover have "length (jobs p) = length cs"
    using run pool_run_length by (force simp: assms start_pool_def windows_jobs_def)
  ultimately show "jobs p = replicate (length cs) Done" "accepted p tx = written p tx" for tx
    using run stuck_finishes [of "\<lambda>_. True" p0 mvs p] start_pool_places [of txs s] by (auto simp: assms)
qed

theorem windows_schedules_finish_witness:
  "\<exists>mvs p. pool_run mvs (start_pool id demo_state (windows_jobs Abort demo_codec demo_order
       [(caller, \<lparr>avail = concat (map frame [[1]]), ends = None\<rparr>)])) = Some p \<and> stuck p \<and> jobs p = [Done]"
proof -
  let ?p0 = "start_pool id demo_state (windows_jobs Abort demo_codec demo_order
       [(caller, \<lparr>avail = concat (map frame [[1]]), ends = None\<rparr>)])"
  obtain mvs p where "list_all ordinary mvs" "pool_run mvs ?p0 = Some p" "stuck p"
    using some_schedule_is_complete [of ?p0] by auto
  with windows_schedules_finish [of ?p0, OF refl] show ?thesis by fastforce
qed

section \<open>The panic\<close>

lemma run_cleanup_windows [task_run]:
  "run_task (cleanup_client_windows cid) s =
     (s\<lparr>clients := purge_clients cid (clients s), objects := purge_objects cid (objects s),
        subscriptions := purge_subscriptions cid (subscriptions s), calls := purge_calls cid (calls s)\<rparr>, [])"
  by (simp add: cleanup_client_windows_def task_run)

text \<open>
  C37: on Windows a \<open>RegisterService\<close> request is not answered, and what follows it depends on the
  build. With the release profile of the repository, which aborts on a panic, the packets before it are
  handled and then the broker process is gone, with every connection. In a build that unwinds, the
  connection ends there (the packets behind it are lost) and is cleaned up.
\<close>

theorem register_service_panics_windows:
  assumes "fst (read_all r) = bufs @ buf # rest"
    and "\<forall>b \<in> set bufs. \<exists>t. dispatch_windows cd it c b = Some t"
    and "decode_packet cd buf = InRequest (RegisterService n u)"
    and "snd (run_task (fst (client_run_windows Unwind cd it c r)) s) = es"
    and "fst (run_task (fst (client_run_windows Unwind cd it c r)) s) = s'"
  shows "client_run_windows Abort cd it c r = (for_each (the \<circ> dispatch_windows cd it c) bufs, True) \<and>
     es = snd (run_task (for_each (the \<circ> dispatch_windows cd it c) bufs) s) \<and>
     \<not> snd (client_run_windows Unwind cd it c r) \<and>
     \<not> clients_mention (clients s') c \<and> \<not> objects_mention (objects s') c \<and>
     \<not> subscriptions_mention (subscriptions s') c \<and> \<not> calls_mention (calls s') c"
proof -
  have none: "dispatch_windows cd it c buf = None"
    using assms(3) by (auto simp: dispatch_windows_panics)
  have "takeWhile (\<lambda>b. dispatch_windows cd it c b \<noteq> None) (fst (read_all r)) = bufs"
    using assms(2) none by (auto simp: assms(1) takeWhile_append)
  moreover have "\<not> list_all (\<lambda>b. dispatch_windows cd it c b \<noteq> None) (fst (read_all r))"
    using none by (simp add: assms(1))
  ultimately have loop: "reader_loop_windows cd it c r = (for_each (the \<circ> dispatch_windows cd it c) bufs, True)"
    unfolding reader_loop_windows_eq by simp
  obtain s1 es1 where run: "run_task (for_each (the \<circ> dispatch_windows cd it c) bufs) s = (s1, es1)" by force
  show ?thesis
    using assms(4,5) loop run
    by (auto simp: client_run_windows_def run_seq run_cleanup_windows clients_table.purge_iff objects_table.purge_iff
        subscriptions_table.purge_iff calls_table.purge_iff)
qed

definition windows_codec :: codec where
  "windows_codec = demo_codec\<lparr>req_from_slice :=
     (\<lambda>b. if b = [4] then Some (RegisterService ''math'' ''math.service'') else req_from_slice demo_codec b)\<rparr>"

theorem register_service_panics_windows_witness:
  "snd (client_run_windows Abort windows_codec demo_order caller
       \<lparr>avail = concat (map frame [[1], [4], [3]]), ends = None\<rparr>)
   \<and> clients (fst (run_task (fst (client_run_windows Unwind windows_codec demo_order caller
       \<lparr>avail = concat (map frame [[1], [4], [3]]), ends = None\<rparr>)) demo_state)) caller = None"
proof -
  let ?r = "\<lparr>avail = concat (map frame [[1], [4], [3]]), ends = None\<rparr>"
  have "fst (read_all ?r) = [[1]] @ [4] # [[3]]"
    using read_all_concat [of "[[1], [4], [3]]" "[]" None] by (simp add: read_all_empty packet_fits_def BUF_SIZE_eq)
  moreover have "\<forall>b \<in> set [[1]]. \<exists>t. dispatch_windows windows_codec demo_order caller b = Some t"
    by (simp add: dispatch_windows_def decode_packet_def windows_codec_def demo_codec_def)
  moreover have "decode_packet windows_codec [4] = InRequest (RegisterService ''math'' ''math.service'')"
    by (simp add: decode_packet_def windows_codec_def)
  ultimately show ?thesis
    using register_service_panics_windows [of ?r "[[1]]" "[4]" "[[3]]" windows_codec demo_order caller, OF _ _ _ refl refl]
    by (force simp: clients_mention_def)
qed

section \<open>Opening the pipe\<close>

definition first_success :: "(nat \<Rightarrow> io_error + 'c) \<Rightarrow> nat \<Rightarrow> 'c \<times> nat \<Rightarrow> bool" where
  "first_success attempts k res \<longleftrightarrow>
     k \<le> snd res \<and> attempts (snd res) = Inr (fst res) \<and> (\<forall>j. k \<le> j \<longrightarrow> j < snd res \<longrightarrow> isl (attempts j))"

lemma open_pipe_result:
  assumes "open_pipe attempts k = Some res"
  shows "first_success attempts k res"
proof (rule open_pipe.raw_induct [where P = first_success, OF _ assms])
  fix f and attempts :: "nat \<Rightarrow> io_error + 'c" and k and res
  assume IH: "\<And>attempts k res. f attempts k = Some res \<Longrightarrow> first_success attempts k res"
    and step: "(case attempts k of Inl e \<Rightarrow> f attempts (Suc k) | Inr pipe \<Rightarrow> Some (pipe, k)) = Some res"
  show "first_success attempts k res"
  proof (cases "attempts k")
    case (Inl e)
    with step have "first_success attempts (Suc k) res" by (intro IH) simp
    with Inl show ?thesis
      unfolding first_success_def by (metis Suc_leD Suc_leI le_less sum.disc(1))
  qed (use step in \<open>auto simp: first_success_def\<close>)
qed

lemma open_pipe_succeeds:
  "attempts (k + n) = Inr c \<Longrightarrow> (\<And>j. k \<le> j \<Longrightarrow> j < k + n \<Longrightarrow> isl (attempts j)) \<Longrightarrow>
   open_pipe attempts k = Some (c, k + n)"
proof (induction n arbitrary: k)
  case 0
  then show ?case by (simp add: open_pipe.simps)
next
  case (Suc n)
  from Suc.prems(2) [of k] obtain e where "attempts k = Inl e" by (auto simp: isl_def)
  with Suc.IH [of "Suc k"] Suc.prems show ?case by (simp add: open_pipe.simps [of _ k])
qed

text \<open>
  On Windows opening the pipe never fails: a client or worker takes the first instance that it
  can open and waits for one as long as there is none. A worker without a broker therefore never comes
  back to its supervisor (on Unix it does at once, with an error), so no shutdown signal ends it.
\<close>

theorem windows_worker_waits_for_pipe:
  "run_worker_windows cd msg ks objs stop attempts st =
     (if \<exists>k. \<not> isl (attempts k)
      then Some (run_worker cd msg ks objs stop (attempts (LEAST k. \<not> isl (attempts k))) st) else None)"
proof (cases "\<exists>k. \<not> isl (attempts k)")
  case True
  let ?n = "LEAST k. \<not> isl (attempts k)"
  from True have "\<not> isl (attempts ?n)" by (metis LeastI_ex)
  then obtain c where c: "attempts ?n = Inr c" by (cases "attempts ?n") auto
  have "open_pipe attempts 0 = Some (c, 0 + ?n)"
    by (rule open_pipe_succeeds) (use c in \<open>auto dest: not_less_Least\<close>)
  with True c show ?thesis by (simp add: run_worker_windows_def)
next
  case False
  then have "open_pipe attempts 0 = None"
    by (metis first_success_def open_pipe_result not_None_eq sum.disc(2))
  with False show ?thesis by (simp add: run_worker_windows_def)
qed

end
