(* ===== verification/Pipe_Security.thy ===== *)
theory Pipe_Security
  imports Windows_Broker
begin

text \<open>
  The memory that \<open>start_named_pipe_listener\<close> (\<^verbatim>\<open>src/src/broker.rs\<close>, Windows) hands to the system: the
  security descriptor, the attributes that point to it, and the shared holder whose last owner
  releases them. The function and the task that it spawns run concurrently; which of them lets go of
  the holder last is open.

  Parameters: the address at which the system puts the descriptor or its error, the address of the
  box, the size of the attributes, and what \<open>LocalFree\<close> returns for an address. A run is the trace of
  the calls that concern this memory.
\<close>

section \<open>The attributes\<close>

text \<open>An address; 0 is the null pointer.\<close>

type_synonym address = "64 word"

record security_attributes =
  nLength :: "32 word"
  lpSecurityDescriptor :: address
  bInheritHandle :: "32 word"

definition PIPE_PATH :: string where
  "PIPE_PATH = [CHR 92, CHR 92, CHR 46, CHR 92] @ ''pipe'' @ [CHR 92] @ ''ipc_broker''"

definition pipe_attributes :: "64 word \<Rightarrow> address \<Rightarrow> security_attributes" where
  "pipe_attributes sa_size p_sd = \<lparr>nLength = ucast sa_size, lpSecurityDescriptor = p_sd, bInheritHandle = 0\<rparr>"

datatype memory_call =
    ConvertDescriptor string address
  | BoxIntoRaw security_attributes address
  | CreateInstance string address
  | LocalFree address
  | Warned string

section \<open>The holder\<close>

text \<open>\<open>SecurityAttributesHolder::drop\<close>; \<open>local_free\<close> is null for an address that it has released.\<close>

definition holder_drop :: "(address \<Rightarrow> address) \<Rightarrow> address \<Rightarrow> memory_call list" where
  "holder_drop local_free ptr =
     (if ptr = 0 then []
      else LocalFree ptr #
        (if local_free ptr \<noteq> 0 then [Warned ''LocalFree failed when freeing SECURITY_DESCRIPTOR''] else []))"

text \<open>
  The holder is in an \<open>Arc\<close> with two owners, the function and the task of the listener. The moves:
  the function returns, the task creates an instance of the pipe, the task ends.
\<close>

record holder =
  ptr :: address
  strong :: nat
  function_owns :: bool
  task_owns :: bool
  trace :: "memory_call list"

datatype holder_move = FunctionReturns | InstanceCreated | TaskEnds

definition release_owner :: "(address \<Rightarrow> address) \<Rightarrow> holder \<Rightarrow> holder" where
  "release_owner local_free h =
     (let h' = h\<lparr>strong := strong h - 1\<rparr>
      in if strong h' = 0 then h'\<lparr>trace := trace h' @ holder_drop local_free (ptr h')\<rparr> else h')"

fun holder_step :: "(address \<Rightarrow> address) \<Rightarrow> holder_move \<Rightarrow> holder \<Rightarrow> holder option" where
  "holder_step local_free FunctionReturns h =
     (if function_owns h then Some (release_owner local_free (h\<lparr>function_owns := False\<rparr>)) else None)"
| "holder_step local_free InstanceCreated h =
     (if task_owns h then Some (h\<lparr>trace := trace h @ [CreateInstance PIPE_PATH (ptr h)]\<rparr>) else None)"
| "holder_step local_free TaskEnds h =
     (if task_owns h then Some (release_owner local_free (h\<lparr>task_owns := False\<rparr>)) else None)"

fun holder_run :: "(address \<Rightarrow> address) \<Rightarrow> holder_move list \<Rightarrow> holder \<Rightarrow> holder option" where
  "holder_run local_free [] h = Some h"
| "holder_run local_free (mv # mvs) h = Option.bind (holder_step local_free mv h) (holder_run local_free mvs)"

text \<open>The function up to the point at which the task is spawned.\<close>

definition listener_memory :: "64 word \<Rightarrow> string + address \<Rightarrow> address \<Rightarrow> io_error + holder" where
  "listener_memory sa_size converted boxed =
     (case converted of
        Inl e \<Rightarrow> Inl (IoError Other e)
      | Inr p_sd \<Rightarrow>
          Inr \<lparr>ptr = boxed, strong = 2, function_owns = True, task_owns = True,
               trace = [ConvertDescriptor ''D:(A;;GA;;;WD)'' p_sd, BoxIntoRaw (pipe_attributes sa_size p_sd) boxed]\<rparr>)"

section \<open>When the attributes are released\<close>

definition owners :: "holder \<Rightarrow> nat" where
  "owners h = (if function_owns h then 1 else 0) + (if task_owns h then 1 else 0)"

text \<open>What holds at every moment: the count is the number of owners; the instances precede the release.\<close>

definition holder_ok :: "(address \<Rightarrow> address) \<Rightarrow> memory_call list \<Rightarrow> address \<Rightarrow> holder \<Rightarrow> bool" where
  "holder_ok local_free start boxed h \<longleftrightarrow>
     ptr h = boxed \<and> strong h = owners h \<and>
     (\<exists>n. trace h = start @ replicate n (CreateInstance PIPE_PATH boxed) @
        (if owners h = 0 then holder_drop local_free boxed else []))"

lemma holder_ok_step:
  "holder_ok local_free start boxed h \<Longrightarrow> holder_step local_free mv h = Some h' \<Longrightarrow> holder_ok local_free start boxed h'"
proof (cases mv)
  case InstanceCreated
  assume "holder_ok local_free start boxed h" "holder_step local_free mv h = Some h'"
  with InstanceCreated show ?thesis
    by (auto simp: holder_ok_def owners_def simp flip: replicate_append_same split: if_splits
        intro: exI [where x = "Suc _"])
qed (auto simp: holder_ok_def owners_def release_owner_def Let_def split: if_splits)

lemma holder_ok_run:
  "holder_ok local_free start boxed h \<Longrightarrow> holder_run local_free mvs h = Some h' \<Longrightarrow> holder_ok local_free start boxed h'"
  by (induction mvs arbitrary: h) (auto simp: bind_eq_Some_conv dest: holder_ok_step)

text \<open>
  On Windows, however the function and the listener's task overlap, every instance of the pipe
  is created with the boxed attributes before they are released; they are released exactly when the
  second of the two owners is gone, and once. The release goes through \<open>LocalFree\<close>, though the
  attributes come from a box; the security descriptor, which the system allocated for \<open>LocalFree\<close>, is
  never released.
\<close>

theorem pipe_attributes_released_once:
  assumes "listener_memory sa_size (Inr p_sd) boxed = Inr h0" and "boxed \<noteq> 0" and "p_sd \<noteq> boxed"
    and "holder_run local_free mvs h0 = Some h"
  shows "(\<exists>n tail. trace h = trace h0 @ replicate n (CreateInstance PIPE_PATH boxed) @ tail \<and>
       (if function_owns h \<or> task_owns h then tail = [] else hd tail = LocalFree boxed \<and> tail \<noteq> [])) \<and>
     count_list (trace h) (LocalFree boxed) = (if function_owns h \<or> task_owns h then 0 else 1) \<and>
     LocalFree p_sd \<notin> set (trace h)"
proof -
  have start: "trace h0 = [ConvertDescriptor ''D:(A;;GA;;;WD)'' p_sd, BoxIntoRaw (pipe_attributes sa_size p_sd) boxed]"
    and ok: "holder_ok local_free (trace h0) boxed h0"
    using assms(1) by (auto simp: listener_memory_def holder_ok_def owners_def)
  from holder_ok_run [OF ok assms(4)] obtain n where "trace h = trace h0 @ replicate n (CreateInstance PIPE_PATH boxed) @
      (if owners h = 0 then holder_drop local_free boxed else [])"
    unfolding holder_ok_def by blast
  moreover have "owners h = 0 \<longleftrightarrow> \<not> function_owns h \<and> \<not> task_owns h"
    by (simp add: owners_def)
  ultimately have tr: "trace h = trace h0 @ replicate n (CreateInstance PIPE_PATH boxed) @
      (if function_owns h \<or> task_owns h then [] else holder_drop local_free boxed)"
    by auto
  have none: "count_list (replicate n (CreateInstance PIPE_PATH boxed)) (LocalFree boxed) = 0"
    by (simp add: count_list_0_iff)
  show ?thesis
  proof (intro conjI)
    show "\<exists>n tail. trace h = trace h0 @ replicate n (CreateInstance PIPE_PATH boxed) @ tail \<and>
        (if function_owns h \<or> task_owns h then tail = [] else hd tail = LocalFree boxed \<and> tail \<noteq> [])"
      by (intro exI, rule conjI, rule tr) (use assms(2) in \<open>simp add: holder_drop_def\<close>)
    show "count_list (trace h) (LocalFree boxed) = (if function_owns h \<or> task_owns h then 0 else 1)"
      using assms(2) none by (simp add: tr start holder_drop_def)
    show "LocalFree p_sd \<notin> set (trace h)"
      using assms(2,3) by (simp add: tr start holder_drop_def)
  qed
qed

theorem pipe_attributes_released_once_witness:
  "\<exists>h0 h. listener_memory 24 (Inr 16) 32 = Inr h0 \<and>
     holder_run (\<lambda>_. 0) [InstanceCreated, FunctionReturns, InstanceCreated, TaskEnds] h0 = Some h \<and>
     count_list (trace h) (LocalFree 32) = 1 \<and> LocalFree 16 \<notin> set (trace h)"
proof -
  obtain h0 where h0: "listener_memory 24 (Inr 16) 32 = Inr h0" by (simp add: listener_memory_def)
  obtain h where h: "holder_run (\<lambda>_. 0) [InstanceCreated, FunctionReturns, InstanceCreated, TaskEnds] h0 = Some h"
      "\<not> function_owns h" "\<not> task_owns h"
    using h0 by (auto simp: listener_memory_def release_owner_def Let_def)
  show ?thesis
    using pipe_attributes_released_once [OF h0 _ _ h(1)] h0 h by auto
qed

end
