(* ===== verification/Rob.thy ===== *)
theory Rob
  imports Rpc
begin

text \<open>
  The command line tool \<^verbatim>\<open>src/src/bin/rob.rs\<close>: the parser that turns a type signature and the
  arguments behind it into JSON, the printer of a JSON value, and what the main function decides
  from the command line.
\<close>

section \<open>Signatures\<close>

text \<open>
  \<open>parse_signature\<close>: the inner function \<open>parse\<close> and its two loops. The characters and the
  arguments are iterators: each function returns what it has not consumed.
\<close>

type_synonym 'a parsed = "string + 'a \<times> string \<times> string list"

function
  parse :: "string \<Rightarrow> string list \<Rightarrow> json parsed"
  and parse_object :: "string \<Rightarrow> string list \<Rightarrow> (string \<times> json) list \<Rightarrow> (string \<times> json) list parsed"
  and parse_array :: "string \<Rightarrow> string list \<Rightarrow> json list \<Rightarrow> json list parsed"
where
  "parse [] args = Inl ''unexpected end of signature''"
| "parse (c # cs) args =
     (if c = CHR ''s'' then
        (case args of
           [] \<Rightarrow> Inl ''expected string argument''
         | v # args' \<Rightarrow> Inr (JString v, cs, args'))
      else if c = CHR ''i'' then
        (case args of
           [] \<Rightarrow> Inl ''expected integer argument''
         | v # args' \<Rightarrow>
             (case parse_i64 v of
                None \<Rightarrow> Inl (''invalid integer: '' @ v)
              | Some i \<Rightarrow> Inr (JNumber (NInt i), cs, args')))
      else if c = CHR ''{'' then
        (case parse_object cs args [] of
           Inl e \<Rightarrow> Inl e
         | Inr (m, cs', args') \<Rightarrow> Inr (JObject m, cs', args'))
      else if c = CHR ''('' then
        (case parse_array cs args [] of
           Inl e \<Rightarrow> Inl e
         | Inr (arr, cs', args') \<Rightarrow> Inr (JArray arr, cs', args'))
      else if c = CHR ''n'' then Inr (JNull, cs, args)
      else Inl (''unexpected char in signature: '' @ [c]))"
| "parse_object [] args m = Inr (m, [], args)"
| "parse_object (c # cs) args m =
     (if c = CHR ''}'' then Inr (m, cs, args)
      else case args of
        [] \<Rightarrow> Inl ''expected map key''
      | key # args' \<Rightarrow>
          (case parse (c # cs) args' of
             Inl e \<Rightarrow> Inl e
           | Inr (val, cs', args'') \<Rightarrow> parse_object cs' args'' (btree_insert key val m)))"
| "parse_array [] args arr = Inr (arr, [], args)"
| "parse_array (c # cs) args arr =
     (if c = CHR '')'' then Inr (arr, cs, args)
      else case parse (c # cs) args of
             Inl e \<Rightarrow> Inl e
           | Inr (val, cs', args') \<Rightarrow> parse_array cs' args' (arr @ [val]))"
  by pat_completeness auto

text \<open>A value consumes at least one character of the signature; the loops consume no less than nothing.\<close>

lemma parse_consumes:
  "parse_parse_object_parse_array_dom (Inl (cs, args)) \<Longrightarrow>
     (\<forall>v cs' args'. parse cs args = Inr (v, cs', args') \<longrightarrow> length cs' < length cs)"
  "parse_parse_object_parse_array_dom (Inr (Inl (cs, args, m))) \<Longrightarrow>
     (\<forall>v cs' args'. parse_object cs args m = Inr (v, cs', args') \<longrightarrow> length cs' \<le> length cs)"
  "parse_parse_object_parse_array_dom (Inr (Inr (cs, args, arr))) \<Longrightarrow>
     (\<forall>v cs' args'. parse_array cs args arr = Inr (v, cs', args') \<longrightarrow> length cs' \<le> length cs)"
proof (induction cs args and cs args m and cs args arr rule: parse_parse_object_parse_array.pinduct)
  case (2 c cs args)
  then show ?case
    by (auto simp: parse.psimps le_imp_less_Suc split: list.splits option.splits sum.splits)
next
  case (4 c cs args m)
  show ?case
  proof (intro allI impI)
    fix v cs' args'
    assume run: "parse_object (c # cs) args m = Inr (v, cs', args')"
    show "length cs' \<le> length (c # cs)"
    proof (cases "c = CHR ''}''")
      case True
      with run 4(1) show ?thesis by (simp add: parse_object.psimps)
    next
      case False
      with run 4(1) obtain key rest val cs1 args1 where "args = key # rest" "parse (c # cs) rest = Inr (val, cs1, args1)"
          "parse_object cs1 args1 (btree_insert key val m) = Inr (v, cs', args')"
        by (auto simp: parse_object.psimps split: list.splits sum.splits)
      with 4(2) [of key rest] 4(3) [of key rest "(val, cs1, args1)" val "(cs1, args1)" cs1 args1] False
      show ?thesis by fastforce
    qed
  qed
next
  case (6 c cs args arr)
  show ?case
  proof (intro allI impI)
    fix v cs' args'
    assume run: "parse_array (c # cs) args arr = Inr (v, cs', args')"
    show "length cs' \<le> length (c # cs)"
    proof (cases "c = CHR '')''")
      case True
      with run 6(1) show ?thesis by (simp add: parse_array.psimps)
    next
      case False
      with run 6(1) obtain val cs1 args1 where "parse (c # cs) args = Inr (val, cs1, args1)"
          "parse_array cs1 args1 (arr @ [val]) = Inr (v, cs', args')"
        by (auto simp: parse_array.psimps split: sum.splits)
      with 6(2) 6(3) [of "(val, cs1, args1)" val "(cs1, args1)" cs1 args1] False
      show ?thesis by fastforce
    qed
  qed
qed (simp_all add: parse.psimps parse_object.psimps parse_array.psimps)

termination parse
  by (relation "measure (\<lambda>x. case x of Inl (cs, args) \<Rightarrow> 2 * length cs
      | Inr (Inl (cs, args, m)) \<Rightarrow> Suc (2 * length cs)
      | Inr (Inr (cs, args, arr)) \<Rightarrow> Suc (2 * length cs))")
    (auto dest!: parse_consumes)

definition parse_signature :: "string \<Rightarrow> string list \<Rightarrow> string + json" where
  "parse_signature sig args =
     (case parse sig args of Inl e \<Rightarrow> Inl e | Inr (v, _, _) \<Rightarrow> Inr v)"

section \<open>Printing\<close>

text \<open>
  The lines that \<open>print_value\<close> prints; \<open>fl\<close> is how \<^verbatim>\<open>serde_json\<close> displays a number that is not an
  integer.
\<close>

definition padding :: "nat \<Rightarrow> string" where
  "padding n = replicate n CHR '' ''"

definition labelled :: "nat \<Rightarrow> string option \<Rightarrow> string \<Rightarrow> string" where
  "labelled indent key_opt txt =
     padding indent @ (case key_opt of None \<Rightarrow> [] | Some key \<Rightarrow> key @ '' : : '') @ txt"

fun show_number :: "(64 word \<Rightarrow> string) \<Rightarrow> json_number \<Rightarrow> string" where
  "show_number fl (NInt i) = show_int i"
| "show_number fl (NFloat f) = fl f"

lemma size_enumerated [termination_simp]: "(i, v) \<in> set (enumerate n vs) \<Longrightarrow> size v < Suc (size_list size vs)"
proof -
  assume "(i, v) \<in> set (enumerate n vs)"
  then have "v \<in> set vs" by (auto simp: in_set_enumerate_eq)
  then show ?thesis by (induction vs) auto
qed

fun print_value :: "(64 word \<Rightarrow> string) \<Rightarrow> json \<Rightarrow> nat \<Rightarrow> string option \<Rightarrow> string list" where
  "print_value fl JNull indent key = [labelled indent key ''Null'']"
| "print_value fl (JBool b) indent key = [labelled indent key (if b then ''true'' else ''false'')]"
| "print_value fl (JNumber n) indent key = [labelled indent key (show_number fl n)]"
| "print_value fl (JString s) indent key = [labelled indent key ([CHR 0x22] @ s @ [CHR 0x22])]"
| "print_value fl (JArray arr) indent key =
     labelled indent key ''List:'' #
     concat (map (\<lambda>(i, v). print_value fl v (indent + 3) (Some (show_nat i))) (enumerate 0 arr))"
| "print_value fl (JObject obj) indent key =
     labelled indent key ''Map:'' #
     concat (map (\<lambda>(k, v). print_value fl v (indent + 3) (Some k)) obj)"

section \<open>The command line\<close>

datatype action =
    PrintVersion
  | PrintHelp
  | PrintUsage
  | InvalidSignature string   \<comment> \<open>\<open>main\<close> returns \<open>InvalidInput\<close>\<close>
  | DoCall string string json
  | DoListen string string
  | DoSend string string json
  | UnknownCommand string

definition rob_main :: "string list \<Rightarrow> action" where
  "rob_main args =
     (if \<exists>a \<in> set args. a = ''--version'' \<or> a = ''-v'' then PrintVersion
      else if \<exists>a \<in> set args. a = ''--help'' \<or> a = ''-h'' then PrintHelp
      else case args of
        command # object # method # rest \<Rightarrow>
          (case (if rest = [] \<or> hd rest = [] then Inr JNull
                 else parse_signature (hd rest) (tl rest)) of
             Inl e \<Rightarrow> InvalidSignature e
           | Inr parsed_args \<Rightarrow>
               (if command = ''call'' then DoCall object method parsed_args
                else if command = ''listen'' then DoListen object method
                else if command = ''send'' then DoSend object method parsed_args
                else UnknownCommand command))
      | _ \<Rightarrow> PrintUsage)"

section \<open>Values and their signatures\<close>

fun sig_of :: "json \<Rightarrow> string" where
  "sig_of (JString _) = ''s''"
| "sig_of (JNumber _) = ''i''"
| "sig_of (JArray vs) = ''('' @ concat (map sig_of vs) @ '')''"
| "sig_of (JObject m) = ''{'' @ concat (map (\<lambda>(k, v). sig_of v) m) @ ''}''"
| "sig_of _ = ''n''"

fun args_of :: "json \<Rightarrow> string list" where
  "args_of (JString s) = [s]"
| "args_of (JNumber (NInt i)) = [show_int i]"
| "args_of (JArray vs) = concat (map args_of vs)"
| "args_of (JObject m) = concat (map (\<lambda>(k, v). k # args_of v) m)"
| "args_of _ = []"

text \<open>
  The values the tool can express: strings, integers of 64 bits, null, arrays, and objects with their
  keys in order.
\<close>

fun expressible :: "json \<Rightarrow> bool" where
  "expressible JNull = True"
| "expressible (JBool _) = False"
| "expressible (JNumber (NInt i)) = i64_range i"
| "expressible (JNumber (NFloat _)) = False"
| "expressible (JString _) = True"
| "expressible (JArray vs) = list_all expressible vs"
| "expressible (JObject m) = (sorted_wrt (<) (map fst m) \<and> list_all (\<lambda>(k, v). expressible v) m)"

section \<open>Round trip\<close>

lemma sig_of_head:
  "\<exists>c cs. sig_of v = c # cs \<and> c \<noteq> CHR '')'' \<and> c \<noteq> CHR ''}''"
  by (cases v) auto

lemma parse_array_values:
  assumes "\<And>v cs as. v \<in> set vs \<Longrightarrow> parse (sig_of v @ cs) (args_of v @ as) = Inr (v, cs, as)"
  shows "parse_array (concat (map sig_of vs) @ cs) (concat (map args_of vs) @ as) arr = parse_array cs as (arr @ vs)"
  using assms
proof (induction vs arbitrary: arr)
  case (Cons v vs)
  obtain c ds where c: "sig_of v = c # ds" "c \<noteq> CHR '')''" using sig_of_head by blast
  have "parse (c # ds @ concat (map sig_of vs) @ cs) (args_of v @ concat (map args_of vs) @ as) =
      Inr (v, concat (map sig_of vs) @ cs, concat (map args_of vs) @ as)"
    using Cons.prems [of v "concat (map sig_of vs) @ cs" "concat (map args_of vs) @ as"] c by simp
  with Cons c show ?case by (simp del: parse.simps)
qed simp

lemma parse_object_values:
  assumes "\<And>k v cs as. (k, v) \<in> set m \<Longrightarrow> parse (sig_of v @ cs) (args_of v @ as) = Inr (v, cs, as)"
    and "sorted_wrt (<) (map fst (m0 @ m))"
  shows "parse_object (concat (map (\<lambda>(k, v). sig_of v) m) @ cs) (concat (map (\<lambda>(k, v). k # args_of v) m) @ as) m0 =
     parse_object cs as (m0 @ m)"
  using assms
proof (induction m arbitrary: m0)
  case (Cons kv m)
  obtain k v where kv: "kv = (k, v)" by force
  obtain c ds where c: "sig_of v = c # ds" "c \<noteq> CHR ''}''" using sig_of_head by blast
  let ?cs = "concat (map (\<lambda>(k, v). sig_of v) m) @ cs" and ?as = "concat (map (\<lambda>(k, v). k # args_of v) m) @ as"
  have "parse (c # ds @ ?cs) (args_of v @ ?as) = Inr (v, ?cs, ?as)"
    using Cons.prems(1) [of k v ?cs ?as] c kv by simp
  moreover have "btree_insert k v m0 = m0 @ [(k, v)]"
    using Cons.prems(2) by (intro btree_insert_last) (auto simp: kv sorted_wrt_append)
  moreover have "parse_object ?cs ?as (m0 @ [(k, v)]) = parse_object cs as ((m0 @ [(k, v)]) @ m)"
    using Cons.prems kv by (intro Cons.IH) auto
  ultimately show ?case
    using c kv by (simp del: parse.simps)
qed simp

lemma parse_expressible: "expressible v \<Longrightarrow> parse (sig_of v @ cs) (args_of v @ as) = Inr (v, cs, as)"
proof (induction v arbitrary: cs as)
  case (JNumber n)
  then show ?case by (cases n) (simp_all add: parse_i64_show_int)
next
  case (JArray vs)
  have "parse_array (concat (map sig_of vs) @ CHR '')'' # cs) (concat (map args_of vs) @ as) [] =
      parse_array (CHR '')'' # cs) as ([] @ vs)"
    using JArray by (intro parse_array_values) (auto simp: list_all_iff)
  then show ?case by simp
next
  case (JObject m)
  have "parse_object (concat (map (\<lambda>(k, v). sig_of v) m) @ CHR ''}'' # cs) (concat (map (\<lambda>(k, v). k # args_of v) m) @ as) [] =
      parse_object (CHR ''}'' # cs) as ([] @ m)"
    using JObject by (intro parse_object_values) (force simp: list_all_iff)+
  then show ?case by simp
qed simp_all

text \<open>
  C35: Every expressible value can be given on the command line: its signature and its arguments parse
  back to the value, whatever further arguments follow.
\<close>

theorem signature_roundtrip:
  assumes "expressible v"
  shows "parse_signature (sig_of v) (args_of v @ surplus) = Inr v"
  using parse_expressible [OF assms, of "[]" surplus] by (simp add: parse_signature_def)

theorem signature_roundtrip_witness:
  "parse_signature ''{s(in)}'' [''a'', ''x'', ''b'', ''-7''] =
     Inr (JObject [(''a'', JString ''x''), (''b'', JArray [JNumber (NInt (- 7)), JNull])])"
proof -
  let ?v = "JObject [(''a'', JString ''x''), (''b'', JArray [JNumber (NInt (- 7)), JNull])]"
  have "''a'' < (''b'' :: string)" by (simp add: less_char_def)
  then have "expressible ?v" by (simp add: i64_range_def)
  from signature_roundtrip [OF this, of "[]"] show ?thesis
    by (simp add: show_int_def show_nat.simps digit_char_def char_of_def bit_Suc_0_iff)
qed

lemma btree_insert_subset: "set (btree_insert k v m) \<subseteq> insert (k, v) (set m)"
  by (induction k v m rule: btree_insert.induct) auto

lemma expressible_insert:
  "expressible (JObject m) \<Longrightarrow> expressible v \<Longrightarrow> expressible (JObject (btree_insert k v m))"
  using btree_insert_subset [of k v m] by (auto simp: btree_insert_sorted list_all_iff)

lemma parse_result:
  "parse cs args = Inr (v, cs', args') \<Longrightarrow> expressible v \<and> (\<exists>x y. cs = x @ cs' \<and> args = y @ args')"
  "parse_object cs args m = Inr (m', cs', args') \<Longrightarrow> expressible (JObject m) \<Longrightarrow>
     expressible (JObject m') \<and> (\<exists>x y. cs = x @ cs' \<and> args = y @ args')"
  "parse_array cs args arr = Inr (arr', cs', args') \<Longrightarrow> list_all expressible arr \<Longrightarrow>
     list_all expressible arr' \<and> (\<exists>x y. cs = x @ cs' \<and> args = y @ args')"
proof (induction cs args and cs args m and cs args arr arbitrary: v cs' args' and m' cs' args' and arr' cs' args'
    rule: parse_parse_object_parse_array.induct)
  case (2 c cs args)
  have cons: "\<exists>x. c # cs = x @ cs" "\<exists>y. a # as = y @ as" for a :: string and as
    by (rule exI [of _ "[_]"], simp)+
  consider "c = CHR ''s''" | "c = CHR ''i''" | "c = CHR ''{''" | "c = CHR ''(''" | "c = CHR ''n''"
    using 2(3) by (fastforce split: if_splits)
  then show ?case
  proof cases
    case 3
    with 2(3) obtain m where m: "parse_object cs args [] = Inr (m, cs', args')" "v = JObject m"
      by (auto split: sum.splits)
    from 2(1) [of m cs' args'] 3 m obtain x y where "expressible v" "cs = x @ cs'" "args = y @ args'" by auto
    then show ?thesis by (auto intro: exI [of _ "c # x"])
  next
    case 4
    with 2(3) obtain arr where arr: "parse_array cs args [] = Inr (arr, cs', args')" "v = JArray arr"
      by (auto split: sum.splits)
    from 2(2) [of arr cs' args'] 4 arr obtain x y where "expressible v" "cs = x @ cs'" "args = y @ args'" by auto
    then show ?thesis by (auto intro: exI [of _ "c # x"])
  qed (use 2(3) cons parse_i64_range in \<open>auto split: list.splits option.splits\<close>)
next
  case (4 c cs args m)
  show ?case
  proof (cases "c = CHR ''}''")
    case True
    with 4(3,4) show ?thesis by (auto intro: exI [of _ "[c]"])
  next
    case False
    with 4(3) obtain key as val cs1 args1 where step: "args = key # as" "parse (c # cs) as = Inr (val, cs1, args1)"
        "parse_object cs1 args1 (btree_insert key val m) = Inr (m', cs', args')"
      by (auto simp del: parse.simps split: list.splits sum.splits)
    from 4(1) [OF False step(1,2)] obtain x y where xy: "expressible val" "c # cs = x @ cs1" "as = y @ args1" by blast
    with 4(2) [OF False step(1,2) _ _ step(3)] expressible_insert [OF 4(4)] obtain x' y' where
      "expressible (JObject m')" "cs1 = x' @ cs'" "args1 = y' @ args'" by blast
    with xy step show ?thesis by (intro conjI exI [of _ "x @ x'"] exI [of _ "key # y @ y'"]) simp_all
  qed
next
  case (6 c cs args arr)
  show ?case
  proof (cases "c = CHR '')''")
    case True
    with 6(3,4) show ?thesis by (auto intro: exI [of _ "[c]"])
  next
    case False
    with 6(3) obtain val cs1 args1 where step: "parse (c # cs) args = Inr (val, cs1, args1)"
        "parse_array cs1 args1 (arr @ [val]) = Inr (arr', cs', args')"
      by (auto simp del: parse.simps split: sum.splits)
    from 6(1) [OF False step(1)] obtain x y where xy: "expressible val" "c # cs = x @ cs1" "args = y @ args1" by blast
    with 6(2) [OF False step(1) _ _ step(2)] 6(4) obtain x' y' where
      "list_all expressible arr'" "cs1 = x' @ cs'" "args1 = y' @ args'" by auto
    with xy step show ?thesis by (intro conjI exI [of _ "x @ x'"] exI [of _ "y @ y'"]) simp_all
  qed
qed simp_all

text \<open>The messages of the parser.\<close>

definition signature_error :: "string \<Rightarrow> bool" where
  "signature_error e \<longleftrightarrow>
     e \<in> {''unexpected end of signature'', ''expected string argument'', ''expected integer argument'', ''expected map key''} \<or>
     (\<exists>v. parse_i64 v = None \<and> e = ''invalid integer: '' @ v) \<or>
     (\<exists>c. c \<notin> set ''si{(n'' \<and> e = ''unexpected char in signature: '' @ [c])"

lemma signature_errorI:
  "signature_error ''unexpected end of signature''" "signature_error ''expected string argument''"
  "signature_error ''expected integer argument''" "signature_error ''expected map key''"
  "parse_i64 v = None \<Longrightarrow> signature_error (''invalid integer: '' @ v)"
  "c \<notin> set ''si{(n'' \<Longrightarrow> signature_error (''unexpected char in signature: '' @ [c])"
  unfolding signature_error_def by blast+

lemma parse_error:
  "parse cs args = Inl e \<Longrightarrow> signature_error e"
  "parse_object cs args m = Inl e \<Longrightarrow> signature_error e"
  "parse_array cs args arr = Inl e \<Longrightarrow> signature_error e"
proof (induction cs args and cs args m and cs args arr arbitrary: e and e and e
    rule: parse_parse_object_parse_array.induct)
  case (2 c cs args)
  consider "c = CHR ''s''" | "c = CHR ''i''" | "c = CHR ''{''" | "c = CHR ''(''" | "c = CHR ''n''"
    | "c \<notin> set ''si{(n''" by auto
  then show ?case
  proof cases
    case 1
    with 2(3) have "e = ''expected string argument''" by (simp split: list.splits)
    then show ?thesis by (simp only: signature_errorI)
  next
    case 2
    with "2.prems" consider "e = ''expected integer argument''" | v where "parse_i64 v = None" "e = ''invalid integer: '' @ v"
      by (auto split: list.splits option.splits)
    then show ?thesis by cases (simp_all only: signature_errorI)
  next
    case 3
    with 2 show ?thesis by (auto split: sum.splits)
  next
    case 4
    with 2 show ?thesis by (auto split: sum.splits)
  next
    case 5
    with 2(3) show ?thesis by simp
  next
    case 6
    with 2(3) have "e = ''unexpected char in signature: '' @ [c]" by simp
    with signature_errorI(6) [OF 6] show ?thesis by (simp only:)
  qed
next
  case (4 c cs args m)
  show ?case
  proof (cases args)
    case Nil
    with 4(3) have "e = ''expected map key''" by (simp split: if_splits)
    then show ?thesis by (simp only: signature_errorI)
  next
    case (Cons key as)
    with 4 show ?thesis by (auto simp del: parse.simps split: if_splits sum.splits)
  qed
next
  case (6 c cs args arr)
  then show ?case by (auto simp del: parse.simps split: if_splits sum.splits)
qed (auto intro: signature_errorI)

text \<open>
  C36: Whatever the command line says, the parser answers with one of its error messages or with a
  value that can be expressed: no number leaves the range of \<open>i64\<close>, the keys of every object are in
  order and distinct, and nothing else than strings, integers, null, arrays and objects is built.
\<close>

theorem parser_result_sound:
  "case parse_signature sig args of Inl e \<Rightarrow> signature_error e | Inr v \<Rightarrow> expressible v"
  using parse_result(1) [of sig args] parse_error(1) [of sig args]
  by (auto simp: parse_signature_def split: sum.split prod.split)

text \<open>
  The parser does not ask for the end of a list or an object, nor for the end of the signature or
  of the arguments: a list whose bracket is never closed parses like the closed one, and what follows
  a complete value is ignored.
\<close>

theorem malformed_signatures_accepted:
  assumes "list_all expressible vs"
  shows "parse_signature (CHR ''('' # concat (map sig_of vs)) (concat (map args_of vs)) = Inr (JArray vs)
     \<and> parse_signature (sig_of (JArray vs) @ junk) (args_of (JArray vs) @ surplus) = Inr (JArray vs)"
proof -
  have "parse (sig_of v @ cs) (args_of v @ as) = Inr (v, cs, as)" if "v \<in> set vs" for v cs as
    using assms that by (auto simp: list_all_iff intro: parse_expressible)
  from parse_array_values [OF this, of vs "[]" "[]" "[]"] parse_expressible [of "JArray vs" junk surplus] assms
  show ?thesis by (simp add: parse_signature_def del: sig_of.simps args_of.simps parse.simps) simp
qed

theorem malformed_signatures_accepted_witness:
  "parse_signature ''(s'' [''a''] = Inr (JArray [JString ''a'']) \<and>
   parse_signature ''(s)zz'' [''a'', ''b'', ''c''] = Inr (JArray [JString ''a''])"
  using malformed_signatures_accepted [of "[JString ''a'']" "''zz''" "[''b'', ''c'']"] by simp

text \<open>The values inside a value, itself included.\<close>

fun json_nodes :: "json \<Rightarrow> nat" where
  "json_nodes (JArray vs) = Suc (sum_list (map json_nodes vs))"
| "json_nodes (JObject m) = Suc (sum_list (map (\<lambda>(k, v). json_nodes v) m))"
| "json_nodes _ = 1"

lemma padded_labelled: "take indent (labelled (indent + n) key txt) = padding indent"
  by (simp add: labelled_def padding_def replicate_add)

lemma padded_deeper: "take (indent + 3) l = padding (indent + 3) \<Longrightarrow> take indent l = padding indent"
  by (metis min.absorb1 le_add1 padding_def take_replicate take_take)

lemma printed_children:
  assumes "\<And>x. x \<in> set xs \<Longrightarrow> length (f x) = g x \<and> (\<forall>l \<in> set (f x). take indent l = padding indent)"
  shows "length (concat (map f xs)) = sum_list (map g xs) \<and> (\<forall>l \<in> set (concat (map f xs)). take indent l = padding indent)"
  using assms by (induction xs) auto

text \<open>
  Printing a value prints one line for the value and one for every value inside it, and no line
  stands left of the value's own indentation.
\<close>

theorem one_line_per_value:
  "length (print_value fl v indent key) = json_nodes v \<and>
   (\<forall>l \<in> set (print_value fl v indent key). take indent l = padding indent)"
proof (induction v arbitrary: indent key)
  case (JArray vs)
  have snds: "map (\<lambda>p. json_nodes (snd p)) (enumerate 0 vs) = map json_nodes vs"
    by (simp add: comp_def flip: map_map [of json_nodes snd, unfolded comp_def])
  have step: "length (print_value fl v (indent + 3) k) = json_nodes v \<and>
      (\<forall>l \<in> set (print_value fl v (indent + 3) k). take indent l = padding indent)" if "v \<in> set vs" for v k
    using JArray [OF that, of "indent + 3" k] padded_deeper by blast
  have "length (concat (map (\<lambda>(i, v). print_value fl v (indent + 3) (Some (show_nat i))) (enumerate 0 vs))) =
      sum_list (map (\<lambda>p. json_nodes (snd p)) (enumerate 0 vs)) \<and>
    (\<forall>l \<in> set (concat (map (\<lambda>(i, v). print_value fl v (indent + 3) (Some (show_nat i))) (enumerate 0 vs))).
       take indent l = padding indent)"
  proof (rule printed_children)
    fix p assume "p \<in> set (enumerate 0 vs)"
    then have "fst p < length vs" "vs ! fst p = snd p" by (simp_all add: in_set_enumerate_eq)
    with nth_mem [of "fst p" vs] have "snd p \<in> set vs" by simp
    from step [OF this] show "length (case p of (i, v) \<Rightarrow> print_value fl v (indent + 3) (Some (show_nat i))) =
        json_nodes (snd p) \<and>
      (\<forall>l \<in> set (case p of (i, v) \<Rightarrow> print_value fl v (indent + 3) (Some (show_nat i))). take indent l = padding indent)"
      by (simp add: split_beta)
  qed
  with padded_labelled [of indent 0] snds show ?case by simp
next
  case (JObject m)
  have step: "length (print_value fl v (indent + 3) k') = json_nodes v \<and>
      (\<forall>l \<in> set (print_value fl v (indent + 3) k'). take indent l = padding indent)" if "(k, v) \<in> set m" for k v k'
  proof -
    have "v \<in> Basic_BNFs.snds (k, v)" by (simp add: snds.simps)
    from JObject [OF that this, of "indent + 3" k'] padded_deeper show ?thesis by blast
  qed
  have "length (concat (map (\<lambda>(k, v). print_value fl v (indent + 3) (Some k)) m)) =
      sum_list (map (\<lambda>(k, v). json_nodes v) m) \<and>
    (\<forall>l \<in> set (concat (map (\<lambda>(k, v). print_value fl v (indent + 3) (Some k)) m)). take indent l = padding indent)"
    by (rule printed_children) (use step in auto)
  with padded_labelled [of indent 0] show ?case by simp
qed (use padded_labelled [of _ 0] in simp_all)

theorem one_line_per_value_witness:
  "map (take 2) (print_value (\<lambda>_. []) (JArray [JNull, JObject [(''k'', JString ''v'')]]) 2 None) =
     [''  '', ''  '', ''  '', ''  '']"
proof -
  let ?ls = "print_value (\<lambda>_. []) (JArray [JNull, JObject [(''k'', JString ''v'')]]) 2 None"
  have "length ?ls = 4" "map (take 2) ?ls = map (\<lambda>_. padding 2) ?ls"
    using one_line_per_value [of "\<lambda>_. []" "JArray [JNull, JObject [(''k'', JString ''v'')]]" 2 None] by simp_all
  then show ?thesis by (simp only: map_replicate_const) (simp add: padding_def numeral_eq_Suc)
qed

end
