(* ===== verification/Client_Protocol.thy ===== *)
theory Client_Protocol
  imports Ipc_Client Examples
begin

text \<open>
  What users of the client library can rely on, one reply per request and the delivery of events to
  subscriptions, and two ways in which a reply goes wrong: the packet taken as the reply of a call is
  whatever comes next on the connection, and a request that interrupts the read of a packet leaves
  the stream in the middle of it.
\<close>

section \<open>Replies\<close>

fun request_of :: "actor_event \<Rightarrow> nat list" where
  "request_of (FromHandle _ (Request _ resp_tx)) = [resp_tx]"
| "request_of _ = []"

definition requested :: "actor_event list \<Rightarrow> nat list" where
  "requested evs = concat (map request_of evs)"

lemma actor_step_replies:
  "map fst (replies (fst (actor_step cd msg ev a))) = map fst (replies a) @ request_of ev"
proof (cases ev)
  case (FromHandle k m)
  then show ?thesis by (cases m) (simp_all add: actor_message_replies del: actor_message.simps)
qed (simp_all add: actor_packet_replies split: prod.split sum.split)

text \<open>
  Every request that reaches the actor is answered exactly once, in the order of the requests,
  if for each awaited reply a packet comes or the stream ends, whatever else happens: a request that cannot be serialised, a failed write, a broken or garbled
  reply and a fire-and-forget request included. Only when the loop has ended may the last requests
  be unanswered.
\<close>

theorem each_request_gets_one_reply:
  "\<exists>later. map fst (replies (fst (actor_run cd msg evs a))) @ later = map fst (replies a) @ requested evs \<and>
     (snd (actor_run cd msg evs a) \<longrightarrow> later = [])"
proof (induction evs arbitrary: a)
  case (Cons ev evs)
  obtain a' running where step: "actor_step cd msg ev a = (a', running)" by force
  have req: "requested (ev # evs) = request_of ev @ requested evs"
    by (simp add: requested_def)
  from actor_step_replies [of cd msg ev a] step
  have now: "map fst (replies a') = map fst (replies a) @ request_of ev" by simp
  show ?case
  proof (cases running)
    case True
    with Cons.IH [of a'] step now req show ?thesis by simp
  next
    case False
    with step now req show ?thesis by simp
  qed
qed (simp add: requested_def)

theorem each_request_gets_one_reply_witness:
  "map fst (replies (fst (actor_run demo_codec ''e'' [FromHandle 0 (Request (Call call_1 ''math'' ''add'' JNull) 3), FromStream,
       FromHandle 0 (Request (Publish ''news'' ''t'' JNull) 4)]
     (new_actor \<lparr>avail = [], ends = None\<rparr> \<lparr>sent = [], room = None, flush_err = None\<rparr>)))) = [3, 4]"
proof -
  let ?evs = "[FromHandle 0 (Request (Call call_1 ''math'' ''add'' JNull) 3), FromStream,
       FromHandle 0 (Request (Publish ''news'' ''t'' JNull) 4)]"
  let ?a = "new_actor \<lparr>avail = [], ends = None\<rparr> \<lparr>sent = [], room = None, flush_err = None\<rparr>"
  have "snd (actor_run demo_codec ''e'' ?evs ?a)"
    by (simp add: new_actor_def write_packet_unlimited BUF_SIZE_eq read_reply_def read_packet_def read_u32_def
        read_exact_def resolve_def)
  with each_request_gets_one_reply [of demo_codec "''e''" ?evs ?a] show ?thesis
    by (simp add: requested_def new_actor_def del: actor_run.simps)
qed

section \<open>Subscriptions\<close>

text \<open>
  C25: An event reaches every subscription of its topic that has room, once and behind the updates it
  holds already; a subscription that is full or whose receiver is gone is dropped for good and its
  channel keeps what it held; the order of the others, other topics and pending replies are untouched.
\<close>

theorem event_reaches_subscriptions:
  assumes "resp_from_slice cd data = Some (Event n t args)" and "data \<noteq> []"
    and "subs a (n, t) = Some txs" and "distinct txs" and "actor_packet cd data a = (a', running)"
  shows "running \<and> replies a' = replies a \<and>
     subs a' = (subs a)((n, t) \<mapsto> filter (\<lambda>tx. rx_open (updates a tx) \<and>
        length (queue (updates a tx)) < places (updates a tx)) txs) \<and>
     (\<forall>tx. queue (updates a' tx) =
        (if tx \<in> set txs \<and> rx_open (updates a tx) \<and> length (queue (updates a tx)) < places (updates a tx)
         then queue (updates a tx) @ [args] else queue (updates a tx)))"
proof -
  have ok: "fst (try_send args c) = SendOk \<longleftrightarrow> rx_open c \<and> length (queue c) < places c" for c :: "json channel"
    by (simp add: try_send_def)
  have sent: "queue (snd (try_send args c)) =
      (if rx_open c \<and> length (queue c) < places c then queue c @ [args] else queue c)" for c :: "json channel"
    by (simp add: try_send_def)
  have q: "queue (snd (offer args txs (updates a)) tx) =
        (if tx \<in> set txs \<and> rx_open (updates a tx) \<and> length (queue (updates a tx)) < places (updates a tx)
         then queue (updates a tx) @ [args] else queue (updates a tx))" for tx
    using offer_others [of tx txs args "updates a"] offer_distinct [OF assms(4), of tx args "updates a"] sent
    by (cases "tx \<in> set txs") simp_all
  from assms have "a' = a\<lparr>subs := (subs a)((n, t) \<mapsto> fst (offer args txs (updates a))), updates := snd (offer args txs (updates a))\<rparr>"
      "running"
    by (auto simp: actor_packet_def split_beta)
  with q offer_kept [OF assms(4), of args "updates a"] show ?thesis by (simp add: ok)
qed

definition demo_actor :: actor where
  "demo_actor = (new_actor \<lparr>avail = [], ends = None\<rparr> \<lparr>sent = [], room = None, flush_err = None\<rparr>)
     \<lparr>subs := [(''news'', ''t'') \<mapsto> [5, 6]]\<rparr>"

theorem event_reaches_subscriptions_witness:
  "queue (updates (fst (actor_packet demo_codec [11] demo_actor)) 6) = [JNull]"
proof -
  have "resp_from_slice demo_codec [11] = Some (Event ''news'' ''t'' JNull)"
    by (simp add: demo_codec_def)
  moreover have "subs demo_actor (''news'', ''t'') = Some [5, 6]" "distinct [5, 6 :: nat]"
    by (simp_all add: demo_actor_def)
  ultimately show ?thesis
    using event_reaches_subscriptions [of demo_codec "[11]" "''news''" "''t''" JNull demo_actor "[5, 6]", OF _ _ _ _ prod.collapse [symmetric]]
    by (simp add: demo_actor_def new_actor_def new_channel_def update_places_def)
qed

section \<open>Replies that are none\<close>

definition is_answer :: "RpcResponse \<Rightarrow> bool" where
  "is_answer resp = (case resp of Result _ _ _ \<Rightarrow> True | Error _ _ _ \<Rightarrow> True | _ \<Rightarrow> False)"

text \<open>
  C33: The next packet on the connection is taken as the reply of a call, whatever it is. When it is
  not a result or an error, an event of a subscription or the broker's acknowledgement of one, the
  call fails with "Unexpected response type" although it is carried out, no subscription sees the
  event, and the result, read later, is dropped without a trace.
\<close>

theorem call_takes_next_packet_as_reply:
  assumes "req_to_vec cd (Call ci n m args) = Some data" and "write_packet (stream_out a) data = (None, w)"
    and "stream_in a = \<lparr>avail = frame d @ frame d' @ rest, ends = e\<rparr>" and "packet_fits d" and "packet_fits d'"
    and "resp_from_slice cd d = Some resp" and "\<not> is_answer resp"
    and "resp_from_slice cd d' = Some (Result ci n v)" and "d' \<noteq> []"
    and "actor_run cd msg [FromHandle 0 (Request (Call ci n m args) resp_tx), FromStream] a = (a', running)"
  shows "replies a' = replies a @ [(resp_tx, Inr resp)] \<and>
     remote_call de (Some (Some (Inr resp))) = Inl unexpected_response \<and>
     updates a' = updates a \<and> stream_in a' = \<lparr>avail = rest, ends = e\<rparr>"
proof -
  have first: "read_packet (stream_in a) = (Inr d, \<lparr>avail = frame d' @ rest, ends = e\<rparr>)"
    using assms(3) read_packet_framed [OF assms(4)] by simp
  have second: "read_packet \<lparr>avail = frame d' @ rest, ends = e\<rparr> = (Inr d', \<lparr>avail = rest, ends = e\<rparr>)"
    by (rule read_packet_framed [OF assms(5)])
  have "remote_call de (Some (Some (Inr resp))) = Inl unexpected_response"
    using assms(7) by (cases resp) (auto simp: remote_call_def await_reply_def is_answer_def)
  with assms first second show ?thesis
    by (auto simp: read_reply_def resolve_def actor_packet_def)
qed

theorem call_takes_next_packet_as_reply_witness:
  "replies (fst (actor_run demo_codec ''e'' [FromHandle 0 (Request (Call call_1 ''math'' ''add'' JNull) 7), FromStream]
       (demo_actor\<lparr>stream_in := \<lparr>avail = frame [11] @ frame [10] @ [], ends = None\<rparr>\<rparr>))) =
     [(7, Inr (Event ''news'' ''t'' JNull))]"
proof -
  let ?a = "demo_actor\<lparr>stream_in := \<lparr>avail = frame [11] @ frame [10] @ [], ends = None\<rparr>\<rparr>"
  have w: "write_packet (stream_out ?a) [1] = (None, snd (write_packet (stream_out ?a) [1]))"
    by (simp add: demo_actor_def new_actor_def write_packet_unlimited BUF_SIZE_eq)
  have s: "stream_in ?a = \<lparr>avail = frame [11] @ frame [10] @ [], ends = None\<rparr>" by simp
  have d: "resp_from_slice demo_codec [11] = Some (Event ''news'' ''t'' JNull)"
      "resp_from_slice demo_codec [10] = Some (Result call_1 ''math'' JNull)"
    by (simp_all add: demo_codec_def)
  have na: "\<not> is_answer (Event ''news'' ''t'' JNull)" by (simp add: is_answer_def)
  have fits: "packet_fits [11]" "packet_fits [10]" by (simp_all add: packet_fits_def BUF_SIZE_eq)
  have ne: "[10] \<noteq> ([] :: bytes)" by simp
  from call_takes_next_packet_as_reply [OF demo_encodings(1) w s fits d(1) na d(2) ne prod.collapse [symmetric]]
  have "replies (fst (actor_run demo_codec ''e'' [FromHandle 0 (Request (Call call_1 ''math'' ''add'' JNull) 7), FromStream] ?a)) =
     replies ?a @ [(7, Inr (Event ''news'' ''t'' JNull))]" by blast
  then show ?thesis by (simp add: demo_actor_def new_actor_def)
qed

lemma header_of_text:
  assumes "4 \<le> length d" and "hd d \<noteq> 0"
  shows "unat (u32_of_be (take 4 d)) > BUF_SIZE"
proof -
  obtain b0 b1 b2 b3 ds where d: "d = b0 # b1 # b2 # b3 # ds"
    using assms(1) by (auto simp: numeral_eq_Suc Suc_le_length_iff)
  have out: "\<not> bit x k" if "8 \<le> k" for x :: "8 word" and k
    using that bit_imp_le_length [of x k] by auto
  have small: "k < 8" if "bit b0 k" for k
    using that out [of k b0] by (meson not_le)
  have "drop_bit 24 (u32_of_be [b0, b1, b2, b3]) = (ucast b0 :: 32 word)"
    by (rule bit_word_eqI) (auto simp: u32_of_be_def bit_simps out dest: small)
  moreover have "unat (ucast b0 :: 32 word) = unat b0"
    using unsigned_less [of b0, where 'a = nat] by (simp add: unsigned_ucast_eq take_bit_nat_eq_self)
  ultimately have "unat (u32_of_be [b0, b1, b2, b3]) div 2 ^ 24 = unat b0"
    by (metis unat_drop_bit_eq drop_bit_eq_div)
  moreover have "0 < unat b0" using assms(2) d by (simp add: unat_gt_0)
  ultimately have "unat (u32_of_be [b0, b1, b2, b3]) div 2 ^ 24 \<noteq> 0" by simp
  then have "2 ^ 24 \<le> unat (u32_of_be [b0, b1, b2, b3])"
    by (meson div_less not_less)
  moreover have "take 4 d = [b0, b1, b2, b3]"
    by (simp add: d take_Cons')
  ultimately show ?thesis by (simp add: BUF_SIZE_eq)
qed

text \<open>
  C34: A request that interrupts the read of a packet after its length (the rest of the packet is
  still on its way) breaks the connection: the client takes the first bytes of the packet's text for
  a length, which is always over the limit, and the request fails with \<open>InvalidData\<close> although its
  call was sent and the reply is on the stream.
\<close>

theorem interrupted_read_breaks_call:
  assumes "req_to_vec cd (Call ci n m args) = Some data" and "write_packet (stream_out a) data = (None, w)"
    and "stream_in a = \<lparr>avail = frame d @ rest, ends = e\<rparr>" and "packet_fits d" and "4 \<le> length d" and "hd d \<noteq> 0"
  shows "replies (fst (actor_step cd msg (FromHandle 4 (Request (Call ci n m args) resp_tx)) a)) =
     replies a @ [(resp_tx, Inl (oversize_read (u32_of_be (take 4 d))))]"
proof -
  have "drop_unfinished 4 (stream_in a) = \<lparr>avail = d @ rest, ends = e\<rparr>"
    using assms(3,5) read_packet_framed [OF assms(4), of rest e]
    by (auto simp: drop_unfinished_def frame_def)
  moreover have "read_packet \<lparr>avail = d @ rest, ends = e\<rparr> =
      (Inl (oversize_read (u32_of_be (take 4 d))), \<lparr>avail = drop 4 d @ rest, ends = e\<rparr>)"
    using header_of_text [OF assms(5,6)] assms(5)
    by (simp add: read_packet_def read_u32_def read_exact_def)
  ultimately show ?thesis
    using assms(1,2) by (simp add: read_reply_def resolve_def)
qed

theorem interrupted_read_breaks_call_witness:
  "\<exists>e. replies (fst (actor_step demo_codec ''e'' (FromHandle 4 (Request (Call call_1 ''math'' ''add'' JNull) 7))
       (demo_actor\<lparr>stream_in := \<lparr>avail = frame [123, 34, 69, 118] @ frame [10], ends = None\<rparr>\<rparr>))) = [(7, Inl e)]"
proof -
  let ?a = "demo_actor\<lparr>stream_in := \<lparr>avail = frame [123, 34, 69, 118] @ frame [10], ends = None\<rparr>\<rparr>"
  have w: "write_packet (stream_out ?a) [1] = (None, snd (write_packet (stream_out ?a) [1]))"
    by (simp add: demo_actor_def new_actor_def write_packet_unlimited BUF_SIZE_eq)
  have s: "stream_in ?a = \<lparr>avail = frame [123, 34, 69, 118] @ frame [10], ends = None\<rparr>" by simp
  have "replies ?a = []" by (simp add: demo_actor_def new_actor_def)
  with interrupted_read_breaks_call [OF demo_encodings(1) w s, of "''e''" 7] show ?thesis
    by (simp add: packet_fits_def BUF_SIZE_eq del: actor_step.simps)
qed

end
