(* ===== verification/Client_Handles.thy ===== *)
theory Client_Handles
  imports Client_Protocol
begin

text \<open>
  The handles of a client and its actor together, \<^verbatim>\<open>src/src/client.rs\<close>: clones of a handle put
  requests into the bounded queue, each with a oneshot channel for its reply; the actor takes them
  one by one, and while it awaits the reply to a request it does nothing else. When the actor's loop
  ends, the queue is closed: a later request is refused, and the oneshot channels of the requests that
  still wait in it are dropped.
\<close>

section \<open>A request in two halves\<close>

text \<open>
  The actor with a message up to the point where it awaits the reply, \<open>Some resp_tx\<close> if it does, and
  from there on, when a packet has come or the stream has ended. Whether one ever comes is not up to the
  client.
\<close>

fun actor_request :: "codec \<Rightarrow> string \<Rightarrow> ActorMsg \<Rightarrow> actor \<Rightarrow> actor \<times> nat option" where
  "actor_request cd msg (Request req resp_tx) a =
     (case req_to_vec cd req of
        None \<Rightarrow> (resolve resp_tx (Inl (IoError InvalidData msg)) a, None)
      | Some data \<Rightarrow>
          (case write_packet (stream_out a) data of
             (Some e, w) \<Rightarrow> (resolve resp_tx (Inl e) (a\<lparr>stream_out := w\<rparr>), None)
           | (None, w) \<Rightarrow>
               (if expects_response req then (a\<lparr>stream_out := w\<rparr>, Some resp_tx)
                else (resolve resp_tx (Inr (Event '''' '''' JNull)) (a\<lparr>stream_out := w\<rparr>), None))))"
| "actor_request cd msg (SubscribeTo object_name topic tx) a =
     (actor_message cd msg (SubscribeTo object_name topic tx) a, None)"

definition actor_reply :: "codec \<Rightarrow> string \<Rightarrow> nat \<Rightarrow> actor \<Rightarrow> actor" where
  "actor_reply cd msg resp_tx a =
     (case read_reply cd msg (stream_in a) of (x, r) \<Rightarrow> resolve resp_tx x (a\<lparr>stream_in := r\<rparr>))"

text \<open>The halves make up \<open>actor_message\<close> of \<^verbatim>\<open>Ipc_Client\<close>.\<close>

lemma actor_message_halves:
  "actor_message cd msg m a =
     (case actor_request cd msg m a of
        (a', None) \<Rightarrow> a'
      | (a', Some resp_tx) \<Rightarrow> actor_reply cd msg resp_tx a')"
  by (cases m) (auto simp: actor_reply_def split: option.split prod.split)

section \<open>Handles and actor\<close>

record client_sys =
  mailbox :: "ActorMsg channel"
  client_actor :: actor
  awaiting :: "nat option"
  running :: bool
  handles_gone :: bool
  refused :: "nat list"
  dropped :: "nat list"

text \<open>
  The moves: a handle sends (and waits while the queue is full), the actor takes the oldest message,
  the reply that it awaits comes (or the stream ends in its place), a read of the loop completes, the last
  handle is dropped. \<open>k\<close> is the loss of an interrupted read as in \<open>FromHandle\<close>.
\<close>

datatype client_move = Enqueue ActorMsg | Take nat | ReplyComes | Incoming | DropHandles

fun reply_channel :: "ActorMsg \<Rightarrow> nat list" where
  "reply_channel (Request _ resp_tx) = [resp_tx]"
| "reply_channel (SubscribeTo _ _ _) = []"

definition in_flight :: "client_sys \<Rightarrow> nat list" where
  "in_flight c = (case awaiting c of None \<Rightarrow> [] | Some resp_tx \<Rightarrow> [resp_tx])"

definition waiting :: "client_sys \<Rightarrow> nat list" where
  "waiting c = concat (map reply_channel (queue (mailbox c)))"

text \<open>The result of a turn of the loop; \<open>False\<close>: the loop ends and its receiver is dropped.\<close>

definition actor_turn :: "actor \<times> bool \<Rightarrow> client_sys \<Rightarrow> client_sys" where
  "actor_turn res c =
     (case res of
        (a, True) \<Rightarrow> c\<lparr>client_actor := a\<rparr>
      | (a, False) \<Rightarrow> c\<lparr>client_actor := a, running := False, dropped := dropped c @ waiting c, mailbox := close_rx (mailbox c)\<rparr>)"

fun client_step :: "codec \<Rightarrow> string \<Rightarrow> client_move \<Rightarrow> client_sys \<Rightarrow> client_sys option" where
  "client_step cd msg (Enqueue m) c =
     (if handles_gone c then None
      else case try_send m (mailbox c) of
             (SendFull, _) \<Rightarrow> None
           | (SendClosed, _) \<Rightarrow> Some (c\<lparr>refused := refused c @ reply_channel m\<rparr>)
           | (SendOk, q) \<Rightarrow> Some (c\<lparr>mailbox := q\<rparr>))"
| "client_step cd msg (Take k) c =
     (if \<not> running c \<or> awaiting c \<noteq> None then None
      else case recv (mailbox c) of
             None \<Rightarrow> None
           | Some (m, q) \<Rightarrow>
               (case actor_request cd msg m ((client_actor c)\<lparr>stream_in := drop_unfinished k (stream_in (client_actor c))\<rparr>) of
                  (a, awaited) \<Rightarrow> Some (c\<lparr>mailbox := q, client_actor := a, awaiting := awaited\<rparr>)))"
| "client_step cd msg ReplyComes c =
     (case awaiting c of
        None \<Rightarrow> None
      | Some resp_tx \<Rightarrow> Some (c\<lparr>client_actor := actor_reply cd msg resp_tx (client_actor c), awaiting := None\<rparr>))"
| "client_step cd msg Incoming c =
     (if \<not> running c \<or> awaiting c \<noteq> None then None
      else Some (actor_turn
        (actor_step cd msg (if handles_gone c \<and> queue (mailbox c) = [] then NoHandles else FromStream) (client_actor c)) c))"
| "client_step cd msg DropHandles c = Some (c\<lparr>handles_gone := True\<rparr>)"

fun client_moves :: "codec \<Rightarrow> string \<Rightarrow> client_move list \<Rightarrow> client_sys \<Rightarrow> client_sys option" where
  "client_moves cd msg [] c = Some c"
| "client_moves cd msg (mv # mvs) c =
     (case client_step cd msg mv c of None \<Rightarrow> None | Some c' \<Rightarrow> client_moves cd msg mvs c')"

definition new_client :: "reader \<Rightarrow> writer \<Rightarrow> client_sys" where
  "new_client r w =
     \<lparr>mailbox = new_channel actor_queue_places, client_actor = new_actor r w, awaiting = None, running = True,
      handles_gone = False, refused = [], dropped = []\<rparr>"

text \<open>What the operation that waits for a reply sees: \<open>None\<close> while it waits.\<close>

definition fate :: "client_sys \<Rightarrow> nat \<Rightarrow> reply option option option" where
  "fate c resp_tx =
     (if resp_tx \<in> set (refused c) then Some None
      else if resp_tx \<in> set (dropped c) then Some (Some None)
      else map_option (\<lambda>x. Some (Some x)) (map_of (replies (client_actor c)) resp_tx))"

text \<open>The requests that the handles made.\<close>

fun asks :: "client_move \<Rightarrow> nat list" where
  "asks (Enqueue m) = reply_channel m"
| "asks _ = []"

definition asked :: "client_move list \<Rightarrow> nat list" where
  "asked mvs = concat (map asks mvs)"

section \<open>Every request has an outcome\<close>

definition accounted :: "nat list \<Rightarrow> client_sys \<Rightarrow> bool" where
  "accounted txs c \<longleftrightarrow>
     map fst (replies (client_actor c)) @ in_flight c @ dropped c @ waiting c = filter (\<lambda>tx. tx \<notin> set (refused c)) txs \<and>
     set (refused c) \<subseteq> set txs \<and> length (queue (mailbox c)) \<le> actor_queue_places \<and>
     places (mailbox c) = actor_queue_places \<and>
     (if running c then rx_open (mailbox c) \<and> dropped c = [] else \<not> rx_open (mailbox c) \<and> queue (mailbox c) = [] \<and> awaiting c = None)"

lemma actor_request_replies:
  "actor_request cd msg m a = (a', awaited) \<Longrightarrow>
   map fst (replies a') @ (case awaited of None \<Rightarrow> [] | Some tx \<Rightarrow> [tx]) = map fst (replies a) @ reply_channel m"
  by (cases m) (auto simp: resolve_def Let_def split: option.splits prod.splits if_splits)

lemma actor_reply_replies: "map fst (replies (actor_reply cd msg tx a)) = map fst (replies a) @ [tx]"
  by (simp add: actor_reply_def resolve_def split_beta)

lemma accounted_enqueue:
  assumes "client_step cd msg (Enqueue m) c = Some c'" and "accounted txs c" and "set (reply_channel m) \<inter> set txs = {}"
  shows "accounted (txs @ reply_channel m) c'"
proof -
  have new: "filter (\<lambda>tx. tx \<notin> set (refused c) \<and> tx \<notin> set (reply_channel m)) txs = filter (\<lambda>tx. tx \<notin> set (refused c)) txs"
    using assms(3) by (intro filter_cong) auto
  have fresh: "filter (\<lambda>tx. tx \<notin> set (refused c)) (reply_channel m) = reply_channel m"
    using assms(2,3) by (intro filter_True) (auto simp: accounted_def)
  have gone: "filter (\<lambda>tx. tx \<notin> set (refused c) \<and> tx \<notin> set (reply_channel m)) (reply_channel m) = []"
    by (simp add: filter_empty_conv)
  show ?thesis
  proof (cases "rx_open (mailbox c)")
    case True
    with assms(1) have "c' = c\<lparr>mailbox := (mailbox c)\<lparr>queue := queue (mailbox c) @ [m]\<rparr>\<rparr>"
        "length (queue (mailbox c)) < places (mailbox c)"
      by (auto simp: try_send_def split: if_splits)
    with True assms(2) fresh show ?thesis
      by (auto simp: accounted_def waiting_def in_flight_def simp flip: append_assoc split: if_splits)
  next
    case False
    with assms(1) have "c' = c\<lparr>refused := refused c @ reply_channel m\<rparr>"
      by (auto simp: try_send_def split: if_splits)
    with False assms(2) new gone show ?thesis
      by (auto simp: accounted_def waiting_def in_flight_def)
  qed
qed

lemma accounted_take:
  assumes "client_step cd msg (Take k) c = Some c'" and "accounted txs c"
  shows "accounted txs c'"
proof -
  from assms(1) obtain m q a awaited where run: "running c" "awaiting c = None" and m: "recv (mailbox c) = Some (m, q)"
    and a: "actor_request cd msg m ((client_actor c)\<lparr>stream_in := drop_unfinished k (stream_in (client_actor c))\<rparr>) = (a, awaited)"
    and c': "c' = c\<lparr>mailbox := q, client_actor := a, awaiting := awaited\<rparr>"
    by (auto split: if_splits option.splits prod.splits)
  have "queue (mailbox c) = m # queue q" "places q = places (mailbox c)" "rx_open q = rx_open (mailbox c)"
    using mpsc.pop_some [OF m] recv_places [OF m] by simp_all
  with actor_request_replies [OF a] assms(2) run show ?thesis
    by (auto simp: c' accounted_def waiting_def in_flight_def simp flip: append_assoc)
qed

lemma accounted_reply:
  assumes "client_step cd msg ReplyComes c = Some c'" and "accounted txs c"
  shows "accounted txs c'"
  using assms by (auto simp: accounted_def waiting_def in_flight_def actor_reply_replies split: option.splits)

lemma accounted_incoming:
  assumes "client_step cd msg Incoming c = Some c'" and "accounted txs c"
  shows "accounted txs c'"
proof -
  let ?ev = "if handles_gone c \<and> queue (mailbox c) = [] then NoHandles else FromStream"
  obtain a b where a: "actor_step cd msg ?ev (client_actor c) = (a, b)" by force
  have "map fst (replies a) = map fst (replies (client_actor c))"
    using actor_step_replies [of cd msg ?ev "client_actor c"] unfolding a by (simp split: if_splits)
  with a assms show ?thesis
    by (cases b) (auto simp: actor_turn_def accounted_def waiting_def in_flight_def close_rx_def split: if_splits)
qed

lemma accounted_move:
  "client_step cd msg mv c = Some c' \<Longrightarrow> accounted txs c \<Longrightarrow> set (asks mv) \<inter> set txs = {} \<Longrightarrow> accounted (txs @ asks mv) c'"
proof (cases mv)
  case (Enqueue m)
  then show "client_step cd msg mv c = Some c' \<Longrightarrow> accounted txs c \<Longrightarrow> set (asks mv) \<inter> set txs = {} \<Longrightarrow> ?thesis"
    using accounted_enqueue by (metis asks.simps(1))
next
  case (Take k)
  then show "client_step cd msg mv c = Some c' \<Longrightarrow> accounted txs c \<Longrightarrow> ?thesis"
    using accounted_take by (metis append_Nil2 asks.simps(2))
next
  case ReplyComes
  then show "client_step cd msg mv c = Some c' \<Longrightarrow> accounted txs c \<Longrightarrow> ?thesis"
    using accounted_reply by (metis append_Nil2 asks.simps(3))
next
  case Incoming
  then show "client_step cd msg mv c = Some c' \<Longrightarrow> accounted txs c \<Longrightarrow> ?thesis"
    using accounted_incoming by (metis append_Nil2 asks.simps(4))
qed (auto simp: accounted_def waiting_def in_flight_def)

lemma accounted_moves:
  "client_moves cd msg mvs c = Some c' \<Longrightarrow> accounted txs c \<Longrightarrow> distinct (txs @ asked mvs) \<Longrightarrow> accounted (txs @ asked mvs) c'"
proof (induction mvs arbitrary: c txs)
  case (Cons mv mvs)
  then obtain c1 where c1: "client_step cd msg mv c = Some c1" "client_moves cd msg mvs c1 = Some c'"
    by (auto split: option.splits)
  have asked: "asked (mv # mvs) = asks mv @ asked mvs" by (simp add: asked_def)
  with Cons.prems accounted_move [OF c1(1)] have "accounted (txs @ asks mv) c1" by auto
  from Cons.IH [OF c1(2) this] Cons.prems(3) asked show ?case by simp
qed (simp add: asked_def)

lemma accounted_new: "accounted [] (new_client r w)"
  by (simp add: accounted_def new_client_def new_actor_def waiting_def in_flight_def new_channel_def)

lemma fate_decided:
  assumes "accounted txs c" and "tx \<in> set txs"
  shows "tx \<in> set (in_flight c @ waiting c) \<or> fate c tx \<noteq> None"
proof -
  have "tx \<in> set (refused c) \<or> tx \<in> set (map fst (replies (client_actor c)) @ in_flight c @ dropped c @ waiting c)"
    using assms by (auto simp: accounted_def)
  then show ?thesis by (auto simp: fate_def map_of_eq_None_iff) force
qed

text \<open>If its replies come, the actor takes everything that waits.\<close>

lemma actor_drains:
  "running c \<Longrightarrow> \<exists>mvs c'. client_moves cd msg mvs c = Some c' \<and> asked mvs = [] \<and> waiting c' = [] \<and> awaiting c' = None"
proof (induction "2 * length (queue (mailbox c)) + length (in_flight c)" arbitrary: c rule: less_induct)
  case less
  have more: ?case
    if step: "client_step cd msg mv c = Some c1" "asks mv = []" "running c1"
      "2 * length (queue (mailbox c1)) + length (in_flight c1) < 2 * length (queue (mailbox c)) + length (in_flight c)" for mv c1
  proof -
    obtain mvs c' where "client_moves cd msg mvs c1 = Some c'" "asked mvs = []" "waiting c' = []" "awaiting c' = None"
      using less.hyps [OF step(4,3)] by blast
    with step show ?thesis by (intro exI [of _ "mv # mvs"] exI [of _ c']) (simp add: asked_def del: client_step.simps)
  qed
  show ?case
  proof (cases "awaiting c")
    case (Some tx)
    with less.prems show ?thesis
      by (intro more [of ReplyComes "c\<lparr>client_actor := actor_reply cd msg tx (client_actor c), awaiting := None\<rparr>"])
        (simp_all add: in_flight_def)
  next
    case None
    show ?thesis
    proof (cases "queue (mailbox c)")
      case Nil
      with None show ?thesis by (intro exI [of _ "[]"]) (simp add: asked_def waiting_def)
    next
      case (Cons m ms)
      obtain a awaited where "actor_request cd msg m ((client_actor c)\<lparr>stream_in := drop_unfinished 0 (stream_in (client_actor c))\<rparr>) = (a, awaited)"
        by force
      with None Cons less.prems show ?thesis
        by (intro more [of "Take 0" "c\<lparr>mailbox := (mailbox c)\<lparr>queue := ms\<rparr>, client_actor := a, awaiting := awaited\<rparr>"])
          (auto simp: recv_def in_flight_def split: option.split)
    qed
  qed
qed

text \<open>While it awaits a reply the actor does nothing, and what waits goes on waiting.\<close>

lemma awaiting_serves_nobody:
  "client_moves cd msg mvs c = Some c' \<Longrightarrow> awaiting c = Some tx \<Longrightarrow> ReplyComes \<notin> set mvs \<Longrightarrow>
   awaiting c' = Some tx \<and> client_actor c' = client_actor c \<and> dropped c' = dropped c \<and> (\<exists>ms. queue (mailbox c') = queue (mailbox c) @ ms)"
proof (induction mvs arbitrary: c)
  case (Cons mv mvs)
  then obtain c1 where c1: "client_step cd msg mv c = Some c1" "client_moves cd msg mvs c1 = Some c'"
    by (auto split: option.splits)
  have "awaiting c1 = Some tx \<and> client_actor c1 = client_actor c \<and> dropped c1 = dropped c \<and> (\<exists>ms. queue (mailbox c1) = queue (mailbox c) @ ms)"
    using c1(1) Cons.prems(2,3) by (cases mv) (auto simp: try_send_def split: if_splits)
  with Cons.IH [OF c1(2)] Cons.prems(3) show ?case by auto
qed simp

lemma accounted_disjoint:
  assumes "accounted txs c" and "distinct txs"
  shows "distinct (map fst (replies (client_actor c)) @ in_flight c @ dropped c @ waiting c)"
    and "set (map fst (replies (client_actor c)) @ in_flight c @ dropped c @ waiting c) \<inter> set (refused c) = {}"
  using assms by (auto simp: accounted_def)

lemma undecided_fate:
  assumes "accounted txs c" and "distinct txs" and "tx \<in> set (in_flight c @ waiting c)"
  shows "fate c tx = None"
  using accounted_disjoint [OF assms(1,2)] assms(3) by (auto simp: fate_def map_of_eq_None_iff)

text \<open>
  C24: no request of any handle of a client gets lost or is answered twice, but one reply that does not
  come holds up all of them. Requests of all clones, each with its own reply channel, are served in the
  order in which they entered the queue of 64 places; a request has an outcome, or it is the one whose reply
  the actor awaits, or it waits in the queue. While the actor awaits a reply it does nothing else: until that
  reply comes or the stream ends, neither this request nor any that waits behind it has an outcome,
  whatever the handles do. If the replies come the actor can take all that wait. And once its loop has ended
  every request has its outcome: those it had taken their reply, those still queued the error
  \<open>ConnectionAborted\<close>, later ones \<open>BrokenPipe\<close>.
\<close>

theorem every_request_has_an_outcome:
  assumes "client_moves cd msg mvs (new_client r w) = Some c" and "distinct (asked mvs)"
  shows "map fst (replies (client_actor c)) @ in_flight c @ dropped c @ waiting c = filter (\<lambda>tx. tx \<notin> set (refused c)) (asked mvs) \<and>
     length (queue (mailbox c)) \<le> 64 \<and>
     (\<forall>tx \<in> set (asked mvs). fate c tx = None \<longleftrightarrow> tx \<in> set (in_flight c @ waiting c)) \<and>
     (\<forall>mvs' c'. awaiting c \<noteq> None \<and> client_moves cd msg mvs' c = Some c' \<and> ReplyComes \<notin> set mvs' \<and> distinct (asked mvs @ asked mvs') \<longrightarrow>
        (\<forall>tx \<in> set (in_flight c @ waiting c). fate c' tx = None)) \<and>
     (running c \<longrightarrow> (\<exists>mvs' c'. client_moves cd msg mvs' c = Some c' \<and> asked mvs' = [] \<and> (\<forall>tx \<in> set (asked mvs). fate c' tx \<noteq> None))) \<and>
     (\<not> running c \<longrightarrow> (\<forall>tx \<in> set (asked mvs). fate c tx \<noteq> None)) \<and>
     (\<forall>tx \<in> set (refused c). remote_call de (the (fate c tx)) = Inl (IoError BrokenPipe ''Actor dropped'')) \<and>
     (\<forall>tx \<in> set (dropped c). remote_call de (the (fate c tx)) = Inl (IoError ConnectionAborted ''Actor task ended: channel closed''))"
proof (intro conjI ballI allI impI)
  have ok: "accounted (asked mvs) c"
    using accounted_moves [OF assms(1) accounted_new] assms(2) by simp
  then show "map fst (replies (client_actor c)) @ in_flight c @ dropped c @ waiting c = filter (\<lambda>tx. tx \<notin> set (refused c)) (asked mvs)"
    and "length (queue (mailbox c)) \<le> 64"
    by (simp_all add: accounted_def actor_queue_places_def)
  show "fate c tx = None \<longleftrightarrow> tx \<in> set (in_flight c @ waiting c)" if "tx \<in> set (asked mvs)" for tx
    using fate_decided [OF ok that] undecided_fate [OF ok assms(2)] by blast
  show "fate c' tx = None"
    if m: "awaiting c \<noteq> None \<and> client_moves cd msg mvs' c = Some c' \<and> ReplyComes \<notin> set mvs' \<and> distinct (asked mvs @ asked mvs')"
      and tx: "tx \<in> set (in_flight c @ waiting c)" for mvs' c' tx
  proof -
    from m obtain y where y: "awaiting c = Some y" by blast
    have "accounted (asked mvs @ asked mvs') c'" using accounted_moves [OF _ ok] m by blast
    moreover have "tx \<in> set (in_flight c' @ waiting c')"
      using awaiting_serves_nobody [OF _ y] m tx y by (fastforce simp: in_flight_def waiting_def)
    ultimately show ?thesis using undecided_fate m by blast
  qed
  show "fate c tx \<noteq> None" if "\<not> running c" "tx \<in> set (asked mvs)" for tx
    using fate_decided [OF ok that(2)] ok that(1) by (auto simp: accounted_def waiting_def in_flight_def)
  show "\<exists>mvs' c'. client_moves cd msg mvs' c = Some c' \<and> asked mvs' = [] \<and> (\<forall>tx \<in> set (asked mvs). fate c' tx \<noteq> None)"
    if run: "running c"
  proof -
    obtain mvs' c' where c': "client_moves cd msg mvs' c = Some c'" "asked mvs' = []" "waiting c' = []" "awaiting c' = None"
      using actor_drains [OF run] by blast
    moreover have "accounted (asked mvs) c'"
      using accounted_moves [OF c'(1) ok] assms(2) c'(2) by simp
    ultimately show ?thesis using fate_decided by (fastforce simp: in_flight_def)
  qed
  show "remote_call de (the (fate c tx)) = Inl (IoError BrokenPipe ''Actor dropped'')" if "tx \<in> set (refused c)" for tx
    using that by (simp add: fate_def remote_call_def await_reply_def)
  show "remote_call de (the (fate c tx)) = Inl (IoError ConnectionAborted ''Actor task ended: channel closed'')"
    if "tx \<in> set (dropped c)" for tx
    using that accounted_disjoint(2) [OF ok assms(2)] by (auto simp: fate_def remote_call_def await_reply_def)
qed

theorem every_request_has_an_outcome_witness:
  "\<exists>c. client_moves demo_codec ''e''
       [Enqueue (Request (Call call_1 ''math'' ''add'' JNull) 1), Enqueue (Request (Publish ''news'' ''t'' JNull) 2), Take 0, ReplyComes, Incoming,
        Enqueue (Request (Publish ''news'' ''t'' JNull) 3)]
       (new_client \<lparr>avail = frame [10] @ frame [], ends = None\<rparr> open_writer) = Some c \<and>
     map fst (replies (client_actor c)) = [1] \<and> dropped c = [2] \<and> refused c = [3] \<and>
     remote_call Inr (the (fate c 2)) = Inl (IoError ConnectionAborted ''Actor task ended: channel closed'')"
proof -
  let ?mvs = "[Enqueue (Request (Call call_1 ''math'' ''add'' JNull) 1), Enqueue (Request (Publish ''news'' ''t'' JNull) 2), Take 0, ReplyComes, Incoming,
        Enqueue (Request (Publish ''news'' ''t'' JNull) 3)]"
  let ?c = "new_client \<lparr>avail = frame [10] @ frame [], ends = None\<rparr> open_writer"
  have read: "read_packet \<lparr>avail = frame [10] @ frame [], ends = None\<rparr> = (Inr [10], \<lparr>avail = frame [], ends = None\<rparr>)"
    "read_packet \<lparr>avail = frame [], ends = None\<rparr> = (Inr [], \<lparr>avail = [], ends = None\<rparr>)"
    using read_packet_framed [of "[10]" "frame []" None] read_packet_framed [of "[]" "[]" None]
    by (simp_all add: packet_fits_def BUF_SIZE_eq)
  have resp: "resp_from_slice demo_codec [10] = Some (Result call_1 ''math'' JNull)"
    by (simp add: demo_codec_def)
  have "\<exists>c. client_moves demo_codec ''e'' ?mvs ?c = Some c \<and>
     map fst (replies (client_actor c)) = [1] \<and> dropped c = [2] \<and> refused c = [3]"
    by (simp add: new_client_def new_channel_def actor_queue_places_def try_send_def recv_def actor_turn_def new_actor_def
        write_packet_unlimited BUF_SIZE_eq drop_unfinished_def actor_reply_def read_reply_def read resp resolve_def waiting_def close_rx_def)
      (simp add: actor_packet_def)
  then obtain c where c: "client_moves demo_codec ''e'' ?mvs ?c = Some c"
     "map fst (replies (client_actor c)) = [1]" "dropped c = [2]" "refused c = [3]"
    by (elim exE conjE) (rule that)
  have "distinct (asked ?mvs)" by (simp add: asked_def)
  from every_request_has_an_outcome [OF c(1) this, of Inr]
  have "\<forall>tx \<in> set (dropped c). remote_call Inr (the (fate c tx)) = Inl (IoError ConnectionAborted ''Actor task ended: channel closed'')"
    by blast
  then have "remote_call Inr (the (fate c 2)) = Inl (IoError ConnectionAborted ''Actor task ended: channel closed'')"
    by (simp add: c(3))
  with c show ?thesis by (intro exI conjI)
qed

end
