(* ===== verification/Logger.thy ===== *)
theory Logger
  imports Activate
begin

text \<open>
  Logging, \<^verbatim>\<open>src/src/logger.rs\<close> and the copies of it in the example workers: which level is chosen,
  that only the first set-up counts, and the form of a line. The logging crate itself, the clock, the
  file system and the environment are parameters.
\<close>

section \<open>Levels\<close>

datatype LevelFilter = LevelOff | LevelError | LevelWarn | LevelInfo | LevelDebug | LevelTrace

record log_env =
  exe_dir :: "string option"        \<comment> \<open>the directory of the running executable, if it is known\<close>
  path_exists :: "string \<Rightarrow> bool"
  broker_debug :: "string option"   \<comment> \<open>the environment variable \<open>BROKER_DEBUG\<close>\<close>

text \<open>The whole of \<open>logging_level\<close> in the example workers, its second half in the library.\<close>

definition env_level :: "string option \<Rightarrow> LevelFilter" where
  "env_level v =
     (if v = Some ''trace'' then LevelTrace
      else if v = Some ''debug'' then LevelDebug
      else if v = Some ''info'' then LevelInfo
      else if v = Some ''warn'' then LevelWarn
      else if v = Some ''error'' then LevelError
      else LevelInfo)"

definition logging_level :: "log_env \<Rightarrow> LevelFilter" where
  "logging_level env =
     (case exe_dir env of
        Some dir \<Rightarrow>
          (if path_exists env (path_join dir ''trace'') then LevelTrace
           else if path_exists env (path_join dir ''debug'') then LevelDebug
           else env_level (broker_debug env))
      | None \<Rightarrow> env_level (broker_debug env))"

section \<open>Set-up\<close>

text \<open>
  The process-wide state: whether the \<open>Once\<close> of \<open>setup_logger\<close> has run, and the level of the logger
  that is installed. Installing fails when there is one; the failure is only reported.
\<close>

record logger_state =
  init_called :: bool
  installed :: "LevelFilter option"

definition apply_dispatch :: "LevelFilter \<Rightarrow> logger_state \<Rightarrow> logger_state" where
  "apply_dispatch level st = (case installed st of None \<Rightarrow> st\<lparr>installed := Some level\<rparr> | Some _ \<Rightarrow> st)"

definition setup_logger :: "log_env \<Rightarrow> logger_state \<Rightarrow> logger_state" where
  "setup_logger env st =
     (let level_filter = logging_level env
      in if init_called st then st else apply_dispatch level_filter (st\<lparr>init_called := True\<rparr>))"

text \<open>The level and the set-up of the example workers, without the files and without the \<open>Once\<close>.\<close>

definition example_logging_level :: "log_env \<Rightarrow> LevelFilter" where
  "example_logging_level env = env_level (broker_debug env)"

definition setup_example_logger :: "log_env \<Rightarrow> logger_state \<Rightarrow> logger_state" where
  "setup_example_logger env st = apply_dispatch (example_logging_level env) st"

section \<open>Lines\<close>

definition level_name :: "LevelFilter \<Rightarrow> string" where
  "level_name l =
     (case l of LevelOff \<Rightarrow> ''OFF'' | LevelError \<Rightarrow> ''ERROR'' | LevelWarn \<Rightarrow> ''WARN'' | LevelInfo \<Rightarrow> ''INFO''
      | LevelDebug \<Rightarrow> ''DEBUG'' | LevelTrace \<Rightarrow> ''TRACE'')"

text \<open>\<open>file\<close> and \<open>line\<close> are where the record comes from, if that is known.\<close>

definition bracketed :: "string \<Rightarrow> string" where
  "bracketed x = ''['' @ x @ '']''"

definition log_line :: "string \<Rightarrow> LevelFilter \<Rightarrow> string \<Rightarrow> string option \<Rightarrow> nat option \<Rightarrow> string" where
  "log_line date level msg file line =
     bracketed date @ bracketed (level_name level) @ '': '' @ msg @ '' <'' @
     (case file of Some f \<Rightarrow> f | None \<Rightarrow> ''unknown_file'') @ '':'' @
     show_nat (case line of Some l \<Rightarrow> l | None \<Rightarrow> 0) @ ''>''"

text \<open>The example workers leave the date out when the configured level is \<open>Info\<close>.\<close>

definition example_log_line ::
    "LevelFilter \<Rightarrow> string \<Rightarrow> LevelFilter \<Rightarrow> string \<Rightarrow> string option \<Rightarrow> nat option \<Rightarrow> string" where
  "example_log_line level_filter date level msg file line =
     (if level_filter = LevelInfo
      then bracketed (level_name level) @ '': '' @ msg @ '' <'' @
        (case file of Some f \<Rightarrow> f | None \<Rightarrow> ''unknown_file'') @ '':'' @
        show_nat (case line of Some l \<Rightarrow> l | None \<Rightarrow> 0) @ ''>''
      else log_line date level msg file line)"

section \<open>The first set-up counts\<close>

lemma setup_again: "init_called st \<Longrightarrow> fold setup_logger envs st = st"
  by (induction envs) (simp_all add: setup_logger_def)

text \<open>
  However often the logger is set up, by whatever threads, the level is that of the first call:
  \<open>Trace\<close> or \<open>Debug\<close> if a file of that name lies beside the executable, else what \<open>BROKER_DEBUG\<close>
  names, else \<open>Info\<close>; and it is never switched off.
\<close>

theorem first_setup_counts:
  assumes "\<not> init_called st" and "installed st = None"
  shows "installed (fold setup_logger (env # envs) st) = Some (logging_level env) \<and> logging_level env \<noteq> LevelOff \<and>
     (logging_level env = LevelTrace \<longleftrightarrow>
        (\<exists>dir. exe_dir env = Some dir \<and> path_exists env (path_join dir ''trace'')) \<or>
        (\<nexists>dir. exe_dir env = Some dir \<and> path_exists env (path_join dir ''debug'')) \<and> broker_debug env = Some ''trace'')"
proof (intro conjI)
  let ?st = "setup_logger env st"
  have st: "init_called ?st" "installed ?st = Some (logging_level env)"
    using assms by (simp_all add: setup_logger_def apply_dispatch_def)
  then show "installed (fold setup_logger (env # envs) st) = Some (logging_level env)"
    by (simp add: setup_again)
  show "logging_level env \<noteq> LevelOff"
    by (simp add: logging_level_def env_level_def split: option.split)
  show "logging_level env = LevelTrace \<longleftrightarrow>
        (\<exists>dir. exe_dir env = Some dir \<and> path_exists env (path_join dir ''trace'')) \<or>
        (\<nexists>dir. exe_dir env = Some dir \<and> path_exists env (path_join dir ''debug'')) \<and> broker_debug env = Some ''trace''"
    by (auto simp: logging_level_def env_level_def split: option.split)
qed

theorem first_setup_counts_witness:
  "installed (fold setup_logger
     [\<lparr>exe_dir = Some ''/opt'', path_exists = (\<lambda>p. p = ''/opt/debug''), broker_debug = Some ''trace''\<rparr>,
      \<lparr>exe_dir = None, path_exists = (\<lambda>_. False), broker_debug = Some ''error''\<rparr>]
     \<lparr>init_called = False, installed = None\<rparr>) = Some LevelDebug"
proof -
  let ?env = "\<lparr>exe_dir = Some ''/opt'', path_exists = (\<lambda>p. p = ''/opt/debug''), broker_debug = Some ''trace''\<rparr>"
  have "logging_level ?env = LevelDebug"
    by (simp add: logging_level_def path_join_def)
  with first_setup_counts [of "\<lparr>init_called = False, installed = None\<rparr>" ?env
      "[\<lparr>exe_dir = None, path_exists = (\<lambda>_. False), broker_debug = Some ''error''\<rparr>]"]
  show ?thesis by simp
qed

end
