(* ===== verification/Programs.thy ===== *)
theory Programs
  imports Rob Client_Handles Worker_Protocol Logger
begin

text \<open>
  The programs built on the library: what \<^verbatim>\<open>rob\<close> does with the decision of its command line, and the
  examples, \<^verbatim>\<open>example_worker\<close> (with and without shutdown), \<^verbatim>\<open>example_client\<close>, \<^verbatim>\<open>example_publisher\<close> and
  \<^verbatim>\<open>example_subscriber\<close>.

  Parameters: how the standard library numbers and names its error kinds, how \<^verbatim>\<open>serde_json\<close> shows a
  number that is not an integer and words its errors, and the derived decoding of the example's
  arguments.
\<close>

section \<open>The tool \<open>rob\<close>\<close>

text \<open>\<open>IoErrorSerde\<close> as JSON; \<open>kinds\<close> is the number and the name of an error kind.\<close>

definition io_error_json :: "(error_kind \<Rightarrow> int \<times> string) \<Rightarrow> io_error \<Rightarrow> json" where
  "io_error_json kinds err =
     JObject [(''code'', JNumber (NInt (fst (kinds (io_error.kind err))))),
              (''kind'', JString (snd (kinds (io_error.kind err)))),
              (''message'', JString (io_error.message err))]"

text \<open>\<open>println!("\nResult:")\<close> and the value.\<close>

definition print_result :: "(64 word \<Rightarrow> string) \<Rightarrow> json \<Rightarrow> string list" where
  "print_result fl v = ['''', ''Result:''] @ print_value fl v 0 None"

text \<open>
  The lines on standard output and what \<open>main\<close> returns: \<open>connected\<close> is the error of connecting, if
  any, \<open>req_fate\<close> that of the request, \<open>queued\<close> whether the actor took the publication, \<open>arrived\<close> what
  arrives before the tool is stopped. Usage and unknown commands go to the log or standard error.
\<close>

fun rob_execute ::
    "(64 word \<Rightarrow> string) \<Rightarrow> (error_kind \<Rightarrow> int \<times> string) \<Rightarrow> string \<Rightarrow> io_error option \<Rightarrow> reply option option \<Rightarrow> bool
      \<Rightarrow> json list \<Rightarrow> action \<Rightarrow> string list \<times> (io_error + unit)" where
  "rob_execute fl kinds version connected req_fate queued arrived PrintVersion = ([''rob version '' @ version], Inr ())"
| "rob_execute fl kinds version connected req_fate queued arrived PrintHelp =
     ([''Usage: rob call <object> <method> [signature] [args...]''], Inr ())"
| "rob_execute fl kinds version connected req_fate queued arrived PrintUsage = ([], Inr ())"
| "rob_execute fl kinds version connected req_fate queued arrived (InvalidSignature e) = ([], Inl (IoError InvalidInput e))"
| "rob_execute fl kinds version connected req_fate queued arrived (DoCall object method args) =
     (let response = (case connected of
            Some e \<Rightarrow> io_error_json kinds e
          | None \<Rightarrow> (case remote_call Inr req_fate of Inr v \<Rightarrow> v | Inl e \<Rightarrow> io_error_json kinds e))
      in (print_result fl response, Inr ()))"
| "rob_execute fl kinds version connected req_fate queued arrived (DoListen object method) =
     (let greeting = [''Listening for: object='' @ object @ '' method='' @ method @ ''. Press ctrl+c to exit.'', '''', '''']
      in case connected of
           Some e \<Rightarrow> (greeting, Inl e)
         | None \<Rightarrow> (greeting @ run_callback (\<lambda>v out. out @ print_result fl v) arrived [], Inr ()))"
| "rob_execute fl kinds version connected req_fate queued arrived (DoSend object method args) =
     (let response = (case connected of
            Some e \<Rightarrow> io_error_json kinds e
          | None \<Rightarrow> (case publish queued of Inr _ \<Rightarrow> JNull | Inl e \<Rightarrow> io_error_json kinds e))
      in (print_result fl response, Inr ()))"
| "rob_execute fl kinds version connected req_fate queued arrived (UnknownCommand c) = ([], Inr ())"

lemma run_callback_prints: "run_callback (\<lambda>v out. out @ f v) vs out = out @ concat (map f vs)"
  by (induction vs arbitrary: out) simp_all

text \<open>
  \<open>rob\<close> fails, with an error exit, only for a malformed signature and for \<open>listen\<close> without a
  broker. \<open>call\<close> and \<open>send\<close> always succeed and print exactly one result: the value, or the error
  (no connection, a lost actor, an error of the object, an unexpected reply) as a value with its code,
  kind and message, which a caller that looks at the exit code does not notice; \<open>listen\<close> prints
  every update in order.
\<close>

theorem rob_exit_and_output:
  "(\<forall>e. snd (rob_execute fl kinds version connected req_fate queued arrived act) = Inl e \<longleftrightarrow>
       (\<exists>m. act = InvalidSignature m \<and> e = IoError InvalidInput m) \<or> (\<exists>n m. act = DoListen n m \<and> connected = Some e)) \<and>
   fst (rob_execute fl kinds version connected req_fate queued arrived (DoCall n m a)) =
     print_result fl (case connected of
         Some e \<Rightarrow> io_error_json kinds e
       | None \<Rightarrow> (case await_reply req_fate of
             Inr (Result _ _ v) \<Rightarrow> v
           | Inr (Error _ _ msg) \<Rightarrow> io_error_json kinds (IoError Other (''Remote error: '' @ msg))
           | Inr _ \<Rightarrow> io_error_json kinds unexpected_response
           | Inl e \<Rightarrow> io_error_json kinds e)) \<and>
   (connected = None \<longrightarrow> drop 3 (fst (rob_execute fl kinds version connected req_fate queued arrived (DoListen n m))) =
     concat (map (print_result fl) arrived))"
  by (cases act) (auto simp: Let_def remote_call_def run_callback_prints split: option.split sum.split RpcResponse.split)

theorem rob_exit_and_output_witness:
  "drop 3 (fst (rob_execute (\<lambda>_. []) (\<lambda>_. (0, [])) ''1'' None None True [JNull, JBool True] (DoListen ''o'' ''t''))) =
     ['''', ''Result:'', ''Null'', '''', ''Result:'', ''true'']"
  using rob_exit_and_output [of "\<lambda>_. []" "\<lambda>_. (0, [])" "''1''" None None True "[JNull, JBool True]" PrintHelp "''o''" "''t''" JNull]
  by (simp add: print_result_def labelled_def padding_def)

section \<open>The example programs\<close>

text \<open>
  \<open>a + b\<close> and \<open>a * b\<close> on \<open>i32\<close>, given the exact value and the wrapped one: with overflow checks
  (the default when debugging) a value that does not fit is a panic, without them (the release
  profile of \<^verbatim>\<open>src/Cargo.toml\<close>) the result wraps.
\<close>

definition i32_result :: "bool \<Rightarrow> int \<Rightarrow> 32 word \<Rightarrow> int option" where
  "i32_result checks exact wrapped = (if checks \<and> sint wrapped \<noteq> exact then None else Some (sint wrapped))"

text \<open>The object of both workers; \<open>de\<close> decodes the arguments \<open>{a, b}\<close>, \<open>None\<close> is a panic.\<close>

definition calculator ::
    "bool \<Rightarrow> (json \<Rightarrow> string + (32 word \<times> 32 word)) \<Rightarrow> string \<Rightarrow> json \<Rightarrow> json option" where
  "calculator checks de meth args =
     (case de args of
        Inr (a, b) \<Rightarrow>
          (if meth = ''add''
           then map_option (\<lambda>r. JObject [(''sum'', JNumber (NInt r))]) (i32_result checks (sint a + sint b) (a + b))
           else if meth = ''mul''
           then map_option (\<lambda>r. JObject [(''product'', JNumber (NInt r))]) (i32_result checks (sint a * sint b) (a * b))
           else Some (JString ''Unknown method''))
      | Inl e \<Rightarrow> Some (JString (''Invalid args: '' @ e)))"

text \<open>The builders of the two workers, in the release profile, in which the calculator is total.\<close>

definition release_calculator :: "(json \<Rightarrow> string + (32 word \<times> 32 word)) \<Rightarrow> 'o shared_object" where
  "release_calculator de st meth args = (the (calculator False de meth args), st)"

definition example_worker :: "(json \<Rightarrow> string + (32 word \<times> 32 word)) \<Rightarrow> 'o worker_builder" where
  "example_worker de = add_object ''math'' (release_calculator de) new_builder"

definition example_worker_with_shutdown :: "(json \<Rightarrow> string + (32 word \<times> 32 word)) \<Rightarrow> 'o worker_builder" where
  "example_worker_with_shutdown de =
     with_graceful_shutdown (add_object ''math'' (release_calculator de) new_builder)"

text \<open>
  The call of \<^verbatim>\<open>example_client\<close> and what it prints; \<open>display\<close> is the display of a JSON value. The
  publication of \<^verbatim>\<open>example_publisher\<close>, in UTF-8.
\<close>

definition example_params :: json where
  "example_params = JObject [(''a'', JNumber (NInt 10)), (''b'', JNumber (NInt 32))]"

definition example_client_request :: "CallId \<Rightarrow> RpcRequest" where
  "example_client_request call_id = remote_call_request call_id ''math'' ''add'' example_params"

definition example_client :: "(json \<Rightarrow> string) \<Rightarrow> io_error option \<Rightarrow> reply option option \<Rightarrow> string list \<times> (io_error + unit)" where
  "example_client display connected req_fate =
     (case connected of
        Some e \<Rightarrow> ([], Inl e)
      | None \<Rightarrow>
          (case remote_call Inr req_fate of
             Inl e \<Rightarrow> ([], Inl e)
           | Inr response \<Rightarrow> ([''Client got response: '' @ display response], Inr ())))"

definition example_publisher_request :: RpcRequest where
  "example_publisher_request =
     publish_request ''sensor'' ''temperature'' (JString (''25.6'' @ [CHR 0xC2, CHR 0xB0] @ ''C''))"

definition example_publisher :: "io_error option \<Rightarrow> bool \<Rightarrow> string list \<times> (io_error + unit)" where
  "example_publisher connected accepted =
     (case connected of
        Some e \<Rightarrow> ([], Inl e)
      | None \<Rightarrow>
          (case publish accepted of
             Inl e \<Rightarrow> ([], Inl e)
           | Inr _ \<Rightarrow> ([''[Publisher] done broadcasting''], Inr ())))"

definition example_subscriber :: "(json \<Rightarrow> string) \<Rightarrow> io_error option \<Rightarrow> json list \<Rightarrow> string list \<times> (io_error + unit)" where
  "example_subscriber debug connected received =
     (case connected of
        Some e \<Rightarrow> ([], Inl e)
      | None \<Rightarrow> (run_callback (\<lambda>v out. out @ [''[News] Received: '' @ debug v]) received [], Inr ()))"

text \<open>The wrapped value is the exact one, up to multiples of \<open>2 ^ 32\<close>, within the range of \<open>i32\<close>.\<close>

lemma i32_wraps: "sint (word_of_int x :: 32 word) mod 2 ^ 32 = x mod 2 ^ 32"
  using take_bit_signed_take_bit [of 32 31 x] by (simp add: sint_sbintrunc' take_bit_eq_mod)

lemma i32_exact: "sint (word_of_int x :: 32 word) = x \<longleftrightarrow> - (2 ^ 31) \<le> x \<and> x < 2 ^ 31"
  using signed_take_bit_int_eq_self_iff [of 31 x] by (simp add: sint_sbintrunc')

lemma i32_bounds: "- (2 ^ 31) \<le> sint (w :: 32 word) \<and> sint w < 2 ^ 31"
  using sint_range_size [of w] by (simp add: word_size)

text \<open>
  C39: The calculator of the example workers is exact where the result fits into 32 bits. Where it
  does not, a build with overflow checks panics, and the release build answers with a value that is
  wrong by a multiple of \<open>2 ^ 32\<close> and looks like any other result.
\<close>

theorem calculator_exact_within_i32:
  assumes "de args = Inr (a, b)"
    and "(meth, key, x) \<in> {(''add'', ''sum'', sint a + sint b), (''mul'', ''product'', sint a * sint b)}"
  shows "calculator True de meth args =
       (if - (2 ^ 31) \<le> x \<and> x < 2 ^ 31 then Some (JObject [(key, JNumber (NInt x))]) else None) \<and>
     (\<exists>r. calculator False de meth args = Some (JObject [(key, JNumber (NInt r))]) \<and>
       r mod 2 ^ 32 = x mod 2 ^ 32 \<and> - (2 ^ 31) \<le> r \<and> r < 2 ^ 31)"
proof -
  define w :: "32 word" where "w = word_of_int x"
  from assms(2) have "(meth, key, x, w) \<in> {(''add'', ''sum'', sint a + sint b, a + b), (''mul'', ''product'', sint a * sint b, a * b)}"
    by (auto simp: w_def)
  then have calc: "calculator checks de meth args = map_option (\<lambda>r. JObject [(key, JNumber (NInt r))]) (i32_result checks x w)" for checks
    using assms(1) by (auto simp: calculator_def)
  show ?thesis
    using i32_wraps [of x] i32_exact [of x] i32_bounds [of w]
    by (simp add: calc i32_result_def flip: w_def)
qed

theorem calculator_exact_within_i32_witness:
  "calculator True (\<lambda>_. Inr (10, 32)) ''add'' JNull = Some (JObject [(''sum'', JNumber (NInt 42))]) \<and>
   calculator True (\<lambda>_. Inr (65536, 65536)) ''mul'' JNull = None"
  using calculator_exact_within_i32 [of "\<lambda>_. Inr (10, 32)" JNull 10 32 "''add''" "''sum''" 42]
    calculator_exact_within_i32 [of "\<lambda>_. Inr (65536, 65536)" JNull 65536 65536 "''mul''" "''product''" "2 ^ 32"]
  by simp

end
