(* ===== verification/Shutdown.thy ===== *)
theory Shutdown
  imports Worker_Protocol
begin

text \<open>
  How a worker is shut down, \<^verbatim>\<open>src/src/worker.rs\<close>: the \<open>tokio::select!\<close> of the receive loop and that of
  the supervisor's pause, with the watch channel of \<open>with_graceful_shutdown\<close>. \<^verbatim>\<open>Worker\<close> says after how
  many packets a signal wins; here that number follows from what is ready at each turn.

  A watch channel, as \<^verbatim>\<open>tokio\<close> documents it, has a version that each \<open>send\<close> raises; a receiver
  remembers the version it has seen, a clone remembers the same, and \<open>changed\<close> is ready when the
  version is another or the sender is gone.
\<close>

section \<open>The watch channel\<close>

record watch_channel =
  version :: nat
  sender_alive :: bool

definition new_watch :: watch_channel where
  "new_watch = \<lparr>version = 0, sender_alive = True\<rparr>"

definition watch_send :: "watch_channel \<Rightarrow> watch_channel" where
  "watch_send ch = ch\<lparr>version := Suc (version ch)\<rparr>"

definition drop_sender :: "watch_channel \<Rightarrow> watch_channel" where
  "drop_sender ch = ch\<lparr>sender_alive := False\<rparr>"

definition changed :: "nat \<Rightarrow> watch_channel \<Rightarrow> bool" where
  "changed seen ch \<longleftrightarrow> version ch \<noteq> seen \<or> \<not> sender_alive ch"

text \<open>
  The branch for the graceful shutdown; the receiver, if there is one, is a fresh clone of the
  builder's at each turn, and so has seen only the version with which the channel began.
\<close>

definition shutdown_ready :: "'o worker_builder \<Rightarrow> watch_channel \<Rightarrow> bool" where
  "shutdown_ready builder ch \<longleftrightarrow> (if shutdown_rx builder then changed (version new_watch) ch else False)"

section \<open>The receive loop, turn by turn\<close>

text \<open>A turn of the loop: what is ready when the \<open>select!\<close> decides, and the branch that it takes.\<close>

datatype select_branch = CtrlCWins | ShutdownWins | PacketWins

record select_turn =
  ctrl_c_ready :: bool
  watched :: watch_channel
  packet_ready :: bool
  winner :: select_branch

fun branch_ready :: "'o worker_builder \<Rightarrow> select_turn \<Rightarrow> select_branch \<Rightarrow> bool" where
  "branch_ready builder t CtrlCWins = ctrl_c_ready t"
| "branch_ready builder t ShutdownWins = shutdown_ready builder (watched t)"
| "branch_ready builder t PacketWins = packet_ready t"

text \<open>The result is \<open>None\<close> while the loop goes on behind the turns given.\<close>

fun worker_turns ::
    "codec \<Rightarrow> (string \<rightharpoonup> 'o shared_object) \<Rightarrow> select_turn list \<Rightarrow> reader \<Rightarrow> writer \<Rightarrow> 'o
      \<Rightarrow> (io_error option \<times> writer \<times> 'o) option" where
  "worker_turns cd objs [] r w st = None"
| "worker_turns cd objs (t # ts) r w st =
     (case winner t of
        CtrlCWins \<Rightarrow> Some (None, w, st)
      | ShutdownWins \<Rightarrow> Some (None, w, st)
      | PacketWins \<Rightarrow>
          (case read_packet r of
             (Inl e, _) \<Rightarrow> Some (Some e, w, st)
           | (Inr buf, r') \<Rightarrow>
               (case worker_packet cd objs buf st of
                  (None, st') \<Rightarrow> worker_turns cd objs ts r' w st'
                | (Some resp_bytes, st') \<Rightarrow>
                    (case write_packet w resp_bytes of
                       (Some e, w') \<Rightarrow> Some (Some e, w', st')
                     | (None, w') \<Rightarrow> worker_turns cd objs ts r' w' st'))))"

text \<open>After how many packets a signal wins.\<close>

definition packets_before_signal :: "select_turn list \<Rightarrow> nat" where
  "packets_before_signal ts = length (takeWhile (\<lambda>t. winner t = PacketWins) ts)"

definition signal_wins :: "select_turn list \<Rightarrow> nat option" where
  "signal_wins ts = (if \<exists>t \<in> set ts. winner t \<noteq> PacketWins then Some (packets_before_signal ts) else None)"

lemma signal_wins_Cons:
  "signal_wins (t # ts) = (if winner t = PacketWins then map_option Suc (signal_wins ts) else Some 0)"
  by (auto simp: signal_wins_def packets_before_signal_def)

text \<open>The loop of \<^verbatim>\<open>Worker\<close> is what the turns do.\<close>

lemma worker_turns_loop:
  "worker_turns cd objs ts r w st = Some res \<Longrightarrow> worker_loop cd objs (signal_wins ts) r w st = res"
proof (induction cd objs ts r w st rule: worker_turns.induct)
  case (2 cd objs t ts r w st)
  show ?case
  proof (cases "winner t = PacketWins")
    case True
    with 2 show ?thesis
      by (auto simp: worker_loop.simps [of cd objs _ r] signal_wins_Cons option.map_comp comp_def option.map_ident
          split: prod.splits sum.splits option.splits)
  next
    case False
    with 2(3) show ?thesis
      by (cases "winner t") (simp_all add: worker_loop.simps [of cd objs _ r] signal_wins_Cons)
  qed
qed simp

section \<open>The supervisor, turn by turn\<close>

text \<open>
  The pause after a failure: what is ready when it begins, and whether one of the signals ends it.
  A sleep of two seconds is not ready when the pause begins.
\<close>

record pause =
  ctrl_c_at_start :: bool
  watched_at_start :: watch_channel
  pause_stops :: bool

record attempt_turns =
  connecting :: "io_error + (reader \<times> writer)"
  loop_turns :: "select_turn list"
  pausing :: pause

definition as_attempt :: "attempt_turns \<Rightarrow> attempt" where
  "as_attempt a = \<lparr>connection = connecting a, stopped_after = signal_wins (loop_turns a), stopped_in_pause = pause_stops (pausing a)\<rparr>"

text \<open>
  What \<^verbatim>\<open>tokio\<close> promises of a \<open>select!\<close>: the branch taken is one that is ready, and a branch that is
  ready when it begins is not passed over for one that is not. A channel only moves forward.
\<close>

definition turns_ok :: "'o worker_builder \<Rightarrow> select_turn list \<Rightarrow> bool" where
  "turns_ok builder ts \<longleftrightarrow> list_all (\<lambda>t. branch_ready builder t (winner t)) ts"

definition pause_ok :: "'o worker_builder \<Rightarrow> pause \<Rightarrow> bool" where
  "pause_ok builder p \<longleftrightarrow> (ctrl_c_at_start p \<or> shutdown_ready builder (watched_at_start p) \<longrightarrow> pause_stops p)"

definition later :: "watch_channel \<Rightarrow> watch_channel \<Rightarrow> bool" where
  "later ch ch' \<longleftrightarrow> version ch \<le> version ch' \<and> (sender_alive ch' \<longrightarrow> sender_alive ch)"

definition supervision_ok :: "'o worker_builder \<Rightarrow> attempt_turns list \<Rightarrow> bool" where
  "supervision_ok builder as \<longleftrightarrow>
     list_all (\<lambda>a. turns_ok builder (loop_turns a) \<and> pause_ok builder (pausing a)) as"

lemma requested_ready:
  "shutdown_rx builder \<Longrightarrow> ch' = watch_send ch \<or> ch' = drop_sender ch \<Longrightarrow> later ch' ch'' \<Longrightarrow> shutdown_ready builder ch''"
  by (auto simp: shutdown_ready_def changed_def new_watch_def watch_send_def drop_sender_def later_def)

text \<open>
  \<open>WorkerBuilder::spawn\<close>: the supervisor on the builder's objects.
\<close>

definition spawn_worker ::
    "codec \<Rightarrow> string \<Rightarrow> string list \<Rightarrow> 'o worker_builder \<Rightarrow> attempt_turns list \<Rightarrow> 'o \<Rightarrow> bool \<times> writer option list \<times> 'o" where
  "spawn_worker cd msg ks builder as st =
     worker_supervisor cd msg ks (builder_objects builder) (map as_attempt as) st"

section \<open>A shutdown is not lost\<close>

text \<open>What became of attempt \<open>k\<close>, and what ends the supervisor there.\<close>

lemma supervisor_attempt:
  "worker_supervisor cd msg ks objs as st = (ended, outs, st') \<Longrightarrow> k < length outs \<Longrightarrow>
   \<exists>st1 err st2. run_worker cd msg ks objs (stopped_after (as ! k)) (connection (as ! k)) st1 = ((err, outs ! k), st2) \<and>
     (err = None \<or> stopped_in_pause (as ! k) \<longrightarrow> ended \<and> length outs = Suc k)"
proof (induction cd msg ks objs as st arbitrary: ended outs st' k rule: worker_supervisor.induct)
  case (2 cd msg ks objs a as st)
  obtain err out st1 where run: "run_worker cd msg ks objs (stopped_after a) (connection a) st = ((err, out), st1)"
    by (metis prod.exhaust)
  show ?case
  proof (cases "err = None \<or> stopped_in_pause a")
    case True
    with 2(2) run have "outs = [out]" "ended" by (auto split: option.splits)
    with 2(3) run show ?thesis by - (rule exI [of _ st], rule exI [of _ err], rule exI [of _ st1], simp)
  next
    case False
    then obtain e where e: "err = Some e" by auto
    obtain ended1 outs1 st2 where rest: "worker_supervisor cd msg ks objs as st1 = (ended1, outs1, st2)"
      by (metis prod.exhaust)
    from False e run rest 2(2) have outs: "outs = out # outs1" "ended = ended1" by auto
    show ?thesis
    proof (cases k)
      case 0
      with run outs False e show ?thesis by - (rule exI [of _ st], rule exI [of _ err], rule exI [of _ st1], simp)
    next
      case (Suc j)
      from run e have "((Some e, out), st1) = run_worker cd msg ks objs (stopped_after a) (connection a) st" by simp
      from 2(1) [OF this refl refl _ rest, of j] False 2(3) outs Suc show ?thesis by simp
    qed
  qed
qed simp

lemma worker_supervisor_length:
  "worker_supervisor cd msg ks objs as st = (ended, outs, st') \<Longrightarrow> length outs \<le> length as"
  by (induction cd msg ks objs as st arbitrary: ended outs st' rule: worker_supervisor.induct)
    (auto split: prod.splits option.splits if_splits)

lemma signal_before:
  assumes "winner t \<noteq> PacketWins"
  shows "signal_wins (before @ t # after) = Some (packets_before_signal (before @ t # after)) \<and>
    packets_before_signal (before @ t # after) \<le> length before"
proof -
  have "length (takeWhile (\<lambda>t. winner t = PacketWins) (before @ t # after)) \<le> length before"
    using assms by (simp add: takeWhile_append length_takeWhile_le)
  with assms show ?thesis by (auto simp: signal_wins_def packets_before_signal_def)
qed

text \<open>The loop when a signal wins after \<open>n\<close> packets: these are answered, and no other is.\<close>

lemma worker_loop_stopped:
  "n \<le> length ds \<Longrightarrow> list_all packet_fits ds \<Longrightarrow> room w = None \<Longrightarrow> flush_err w = None \<Longrightarrow>
   worker_answers objs (map (decode_packet cd) (take n ds)) st = (answers, st') \<Longrightarrow> list_all (payload_ok cd) answers \<Longrightarrow>
   worker_loop cd objs (Some n) \<lparr>avail = concat (map frame ds), ends = e\<rparr> w st =
     (None, w\<lparr>sent := sent w @ concat (map (\<lambda>resp. frame (the (resp_to_vec cd resp))) answers)\<rparr>, st')"
proof (induction n arbitrary: ds w st answers)
  case 0
  then show ?case by (simp add: worker_loop.simps [of _ _ _ "\<lparr>avail = _, ends = _\<rparr>"])
next
  case (Suc n)
  from Suc.prems(1) obtain d ds' where ds: "ds = d # ds'" by (cases ds) auto
  let ?r = "\<lparr>avail = concat (map frame ds), ends = e\<rparr>" and ?r' = "\<lparr>avail = concat (map frame ds'), ends = e\<rparr>"
  have read: "read_packet ?r = (Inr d, ?r')"
    using read_packet_frame [of d "concat (map frame ds')" "\<lparr>avail = [], ends = e\<rparr>"] Suc.prems(2)
    by (simp add: ds packet_fits_def)
  obtain ans st1 where ans: "worker_answer objs (decode_packet cd d) st = (ans, st1)" by force
  obtain rest where rest: "worker_answers objs (map (decode_packet cd) (take n ds')) st1 = (rest, st')"
    and answers: "answers = (case ans of None \<Rightarrow> rest | Some resp \<Rightarrow> resp # rest)"
    using Suc.prems(5) ans by (auto simp: ds Let_def split: prod.splits)
  show ?case
  proof (cases ans)
    case None
    with Suc.prems ans rest answers show ?thesis
      using Suc.IH [OF _ _ _ _ rest, of w]
      by (simp add: worker_loop.simps [of _ _ _ "\<lparr>avail = frame d @ concat (map frame ds'), ends = e\<rparr>"] read [unfolded ds, simplified] worker_packet_answer ds)
  next
    case (Some resp)
    with Suc.prems(6) answers have ok: "payload_ok cd resp" "list_all (payload_ok cd) rest" by simp_all
    from ok(1) obtain b where b: "resp_to_vec cd resp = Some b" "length b \<le> BUF_SIZE"
      by (auto simp: payload_ok_def packet_fits_def split: option.splits)
    let ?w = "w\<lparr>sent := sent w @ frame b\<rparr>"
    have "write_packet w b = (None, ?w)" using Suc.prems(3,4) b by (simp add: write_packet_unlimited)
    with Suc.prems(1-4) ans rest answers ok b Some Suc.IH [of ds' ?w st1 rest] show ?thesis
      by (simp add: worker_loop.simps [of _ _ _ "\<lparr>avail = frame d @ concat (map frame ds'), ends = e\<rparr>"] read [unfolded ds, simplified] worker_packet_answer ds)
  qed
qed

lemma run_worker_stopped:
  assumes "list_all (registration_ok cd) ks" and "n \<le> length ds" and "list_all packet_fits ds"
    and "worker_answers objs (map (decode_packet cd) (take n ds)) st = (answers, st')" and "list_all (payload_ok cd) answers"
  shows "run_worker cd msg ks objs (Some n) (Inr (\<lparr>avail = concat (map frame ds), ends = e\<rparr>, open_writer)) st =
    ((None, Some (open_writer\<lparr>sent := concat (map frame (registrations cd ks @ map (\<lambda>resp. the (resp_to_vec cd resp)) answers))\<rparr>)), st')"
  using worker_loop_stopped [OF assms(2,3) _ _ assms(4,5)] register_all_healthy [OF assms(1), of open_writer]
  by (simp add: run_worker_def registrations_def comp_def)

text \<open>
  C27: A shutdown that is requested is not lost, whenever it comes: before the worker connects, while
  a call is being answered, between two attempts; and if the sender is dropped without a word, that is
  a request too. On a connection that accepts what is written the receive loop ends, without an error, at
  the first turn at the latest that finds the request and no packet; by then the worker has written its
  registrations and the result of every call whose packet it took, in their order, and nothing else. The
  supervisor makes no attempt after that one, nor after one in whose pause the request is found.
\<close>

theorem shutdown_request_is_not_lost:
  assumes "shutdown_rx builder" and "supervision_ok builder as"
    and "spawn_worker cd msg ks builder as st = (ended, outs, st')"
    and "ch' = watch_send ch \<or> ch' = drop_sender ch" and "list_all (registration_ok cd) ks" and "k < length outs"
  shows "(later ch' (watched_at_start (pausing (as ! k))) \<longrightarrow> ended \<and> length outs = Suc k) \<and>
    (\<forall>before t after ds e. let taken = take (packets_before_signal (loop_turns (as ! k))) ds in
       loop_turns (as ! k) = before @ t # after \<and> later ch' (watched t) \<and> \<not> packet_ready t \<and>
       connecting (as ! k) = Inr (\<lparr>avail = concat (map frame ds), ends = e\<rparr>, open_writer) \<and>
       packets_before_signal (loop_turns (as ! k)) \<le> length ds \<and> list_all packet_fits ds \<and>
       (\<forall>st1. list_all (payload_ok cd) (fst (worker_answers (builder_objects builder) (map (decode_packet cd) taken) st1))) \<longrightarrow>
       length taken \<le> length before \<and> ended \<and> length outs = Suc k \<and>
       (\<exists>st1 w. outs ! k = Some w \<and> sent w = concat (map frame (registrations cd ks @ map (\<lambda>resp. the (resp_to_vec cd resp))
          (fst (worker_answers (builder_objects builder) (map (decode_packet cd) taken) st1))))))"
proof -
  have len: "length outs \<le> length as"
    using assms(3) worker_supervisor_length unfolding spawn_worker_def by (metis length_map)
  with assms(6) have k: "k < length as" by simp
  obtain st1 err st2 where
    run: "run_worker cd msg ks (builder_objects builder) (signal_wins (loop_turns (as ! k))) (connecting (as ! k)) st1 = ((err, outs ! k), st2)"
    and stops: "err = None \<or> pause_stops (pausing (as ! k)) \<longrightarrow> ended \<and> length outs = Suc k"
    using supervisor_attempt [OF assms(3) [unfolded spawn_worker_def] assms(6)] k by (auto simp: as_attempt_def)
  have ok: "turns_ok builder (loop_turns (as ! k))" "pause_ok builder (pausing (as ! k))"
    using assms(2) k by (auto simp: supervision_ok_def list_all_length)
  have "ended \<and> length outs = Suc k" if "later ch' (watched_at_start (pausing (as ! k)))"
    using requested_ready [OF assms(1,4) that] ok(2) stops by (simp add: pause_ok_def)
  moreover have "length taken \<le> length before \<and> ended \<and> length outs = Suc k \<and>
       (\<exists>st1 w. outs ! k = Some w \<and> sent w = concat (map frame (registrations cd ks @ map (\<lambda>resp. the (resp_to_vec cd resp))
          (fst (worker_answers (builder_objects builder) (map (decode_packet cd) taken) st1)))))"
    if taken: "taken = take (packets_before_signal (loop_turns (as ! k))) ds"
      and t: "loop_turns (as ! k) = before @ t # after" "later ch' (watched t)" "\<not> packet_ready t"
      and stream: "connecting (as ! k) = Inr (\<lparr>avail = concat (map frame ds), ends = e\<rparr>, open_writer)"
        "packets_before_signal (loop_turns (as ! k)) \<le> length ds" "list_all packet_fits ds"
      and fit: "\<forall>st1. list_all (payload_ok cd) (fst (worker_answers (builder_objects builder) (map (decode_packet cd) taken) st1))"
    for before t after ds e taken
  proof -
    have "branch_ready builder t (winner t)" using ok(1) by (simp add: turns_ok_def t(1))
    with t(3) have "winner t \<noteq> PacketWins" by auto
    note signal = signal_before [OF this, of before after, folded t(1)]
    obtain answers st3 where answers: "worker_answers (builder_objects builder) (map (decode_packet cd) taken) st1 = (answers, st3)" by force
    with fit have "list_all (payload_ok cd) answers" by (metis fst_conv)
    from run_worker_stopped [OF assms(5) stream(2,3) answers [unfolded taken] this, of msg e] run signal stream(1)
    have "err = None" "outs ! k = Some (open_writer\<lparr>sent := concat (map frame (registrations cd ks @ map (\<lambda>resp. the (resp_to_vec cd resp)) answers))\<rparr>)"
      by simp_all
    with stops signal answers stream(2) show ?thesis by (auto simp: taken intro: exI [of _ st1])
  qed
  ultimately show ?thesis unfolding Let_def by blast
qed

definition shutdown_demo :: "attempt_turns list" where
  "shutdown_demo =
     [\<lparr>connecting = Inl (IoError Other ''no broker''), loop_turns = [],
       pausing = \<lparr>ctrl_c_at_start = False, watched_at_start = new_watch, pause_stops = False\<rparr>\<rparr>,
      \<lparr>connecting = Inr (\<lparr>avail = frame [1], ends = None\<rparr>, open_writer),
       loop_turns =
         [\<lparr>ctrl_c_ready = False, watched = watch_send new_watch, packet_ready = True, winner = PacketWins\<rparr>,
          \<lparr>ctrl_c_ready = False, watched = watch_send new_watch, packet_ready = False, winner = ShutdownWins\<rparr>],
       pausing = \<lparr>ctrl_c_at_start = False, watched_at_start = watch_send new_watch, pause_stops = True\<rparr>\<rparr>,
      \<lparr>connecting = Inl (IoError Other ''no broker''), loop_turns = [],
       pausing = \<lparr>ctrl_c_at_start = False, watched_at_start = watch_send new_watch, pause_stops = True\<rparr>\<rparr>]"

definition shutdown_demo_builder :: "nat worker_builder" where
  "shutdown_demo_builder = with_graceful_shutdown (add_object ''math'' (\<lambda>st m a. (JNull, st + 1)) new_builder)"

theorem shutdown_request_is_not_lost_witness:
  "\<exists>outs w st'. spawn_worker demo_codec ''e'' [''math''] shutdown_demo_builder shutdown_demo 0 = (True, outs, st') \<and>
     length outs = 2 \<and> outs ! 1 = Some w \<and> sent w = frame [2] @ frame [10]"
proof -
  let ?run = "spawn_worker demo_codec ''e'' [''math''] shutdown_demo_builder shutdown_demo 0"
  obtain ended outs st' where run: "?run = (ended, outs, st')" by (metis prod.exhaust)
  have b: "shutdown_rx shutdown_demo_builder" "builder_objects shutdown_demo_builder = demo_objects"
    by (simp_all add: shutdown_demo_builder_def with_graceful_shutdown_def add_object_def new_builder_def demo_objects_def)
  have ok: "supervision_ok shutdown_demo_builder shutdown_demo"
    using b(1) by (simp add: supervision_ok_def shutdown_demo_def turns_ok_def pause_ok_def shutdown_ready_def changed_def
        watch_send_def new_watch_def)
  have two: "1 < length outs"
    using run by (auto simp: spawn_worker_def shutdown_demo_def as_attempt_def run_worker_def split: prod.splits option.splits if_splits)
  let ?turn = "\<lambda>ready win. \<lparr>ctrl_c_ready = False, watched = watch_send new_watch, packet_ready = ready, winner = win\<rparr>"
  have turns: "loop_turns (shutdown_demo ! 1) = [?turn True PacketWins] @ ?turn False ShutdownWins # []"
    and taken: "packets_before_signal (loop_turns (shutdown_demo ! 1)) = 1"
    and stream: "connecting (shutdown_demo ! 1) = Inr (\<lparr>avail = concat (map frame [[1]]), ends = None\<rparr>, open_writer)"
    by (simp_all add: shutdown_demo_def packets_before_signal_def)
  have "ended \<and> length outs = Suc 1 \<and> (\<exists>w. outs ! 1 = Some w \<and> sent w = frame [2] @ frame [10])"
    using conjunct2 [OF shutdown_request_is_not_lost [OF b(1) ok run _ demo_registration two, of "watch_send new_watch" new_watch],
        unfolded Let_def taken, rule_format, of "[?turn True PacketWins]" "?turn False ShutdownWins" "[]" "[[1]]" None]
      turns stream
    by (auto simp: demo_objects_def b(2) later_def packet_fits_def BUF_SIZE_eq payload_ok_def registrations_def)
  with run show ?thesis by auto
qed

end
