(* ===== verification/Entry_Points.thy ===== *)
theory Entry_Points
  imports Programs Startup Shutdown
begin

text \<open>
  The programs as they are started: \<^verbatim>\<open>src/src/main.rs\<close>, the version that \<^verbatim>\<open>src/build.rs\<close> passes to the
  compiler, \<open>main\<close> of \<^verbatim>\<open>rob\<close> as a whole, and the worker that a timer shuts down.
\<close>

section \<open>The broker\<close>

text \<open>\<open>CARGO_PKG_NAME\<close> and \<open>CARGO_PKG_VERSION\<close> come from \<^verbatim>\<open>src/Cargo.toml\<close>.\<close>

definition CARGO_PKG_NAME :: string where
  "CARGO_PKG_NAME = ''ipc-broker''"

definition CARGO_PKG_VERSION :: string where
  "CARGO_PKG_VERSION = ''1.1.5''"

text \<open>\<open>main\<close>: the logger, one line at level \<open>Info\<close>, and the broker.\<close>

definition broker_main ::
    "log_env \<Rightarrow> logger_state \<Rightarrow> string option \<Rightarrow> string option \<Rightarrow> (string \<Rightarrow> io_error option) \<Rightarrow> socket_path \<Rightarrow> io_error option
      \<Rightarrow> accepted_conn turn list \<Rightarrow> accepted_conn turn list \<Rightarrow> bool
      \<Rightarrow> logger_state \<times> (LevelFilter \<times> string) \<times> (io_error + listening)" where
  "broker_main log_env st env local_ip bind at_path bind_unix tcp_turns unix_turns rob_ended =
     (setup_logger log_env st,
      (LevelInfo, CARGO_PKG_NAME @ '' has started v'' @ CARGO_PKG_VERSION @ ''...''),
      run_broker env local_ip bind at_path bind_unix tcp_turns unix_turns rob_ended)"

section \<open>The tool\<close>

text \<open>The lines that the build script prints; Cargo passes the variable of the first to \<open>env!\<close>.\<close>

definition build_script :: "string list" where
  "build_script = [''cargo:rustc-env=ROB_VERSION=0.1.0'', ''cargo:rerun-if-changed=build.rs'']"

definition rustc_env :: "string list \<Rightarrow> string \<Rightarrow> string option" where
  "rustc_env output var =
     (let prefix = ''cargo:rustc-env='' @ var @ ''=''
      in map_option (drop (length prefix)) (List.find (\<lambda>l. take (length prefix) l = prefix) output))"

definition APP_VERSION :: string where
  "APP_VERSION = the (rustc_env build_script ''ROB_VERSION'')"

definition rob_program ::
    "(64 word \<Rightarrow> string) \<Rightarrow> (error_kind \<Rightarrow> int \<times> string) \<Rightarrow> io_error option \<Rightarrow> reply option option \<Rightarrow> bool
      \<Rightarrow> json list \<Rightarrow> string list \<Rightarrow> string list \<times> (io_error + unit)" where
  "rob_program fl kinds connected req_fate queued arrived args =
     rob_execute fl kinds APP_VERSION connected req_fate queued arrived (rob_main args)"

lemma rob_version: "rob_program fl kinds connected req_fate queued arrived [''-v''] = ([''rob version 0.1.0''], Inr ())"
proof -
  have "APP_VERSION = ''0.1.0''"
    by (simp add: APP_VERSION_def rustc_env_def build_script_def Let_def)
  then show ?thesis by (simp add: rob_program_def rob_main_def)
qed

section \<open>The example workers\<close>

text \<open>\<open>main\<close> of \<^verbatim>\<open>example_worker\<close>: its logger, and the worker until the supervisor ends.\<close>

definition example_worker_main ::
    "log_env \<Rightarrow> logger_state \<Rightarrow> codec \<Rightarrow> string \<Rightarrow> string list \<Rightarrow> (json \<Rightarrow> string + (32 word \<times> 32 word))
      \<Rightarrow> attempt_turns list \<Rightarrow> 'o \<Rightarrow> logger_state \<times> (bool \<times> writer option list \<times> 'o)" where
  "example_worker_main log_env st cd msg ks de as obj_st =
     (setup_example_logger log_env st, spawn_worker cd msg ks (example_worker de) as obj_st)"

text \<open>
  \<open>main\<close> of \<^verbatim>\<open>example_worker_with_shutdown\<close>: after five seconds another task sends the signal, and the
  sender is dropped with the end of that task. What the worker's channel holds at a time, in
  milliseconds from the start of the timer.
\<close>

definition shutdown_timer :: "nat \<Rightarrow> watch_channel" where
  "shutdown_timer now = (if now < 5000 then new_watch else drop_sender (watch_send new_watch))"

lemma shutdown_timer_ready:
  "shutdown_ready (example_worker_with_shutdown de) (shutdown_timer now) \<longleftrightarrow> 5000 \<le> now"
  by (auto simp: shutdown_timer_def shutdown_ready_def example_worker_with_shutdown_def with_graceful_shutdown_def
      changed_def new_watch_def drop_sender_def watch_send_def)

section \<open>The examples together\<close>

lemma rob_calls_like_the_client:
  "rob_main [''call'', ''math'', ''add'', ''{ii}'', ''a'', ''10'', ''b'', ''32''] = DoCall ''math'' ''add'' example_params"
proof -
  have "parse_i64 ''10'' = Some 10" "parse_i64 ''32'' = Some 32"
    by (simp_all add: parse_i64_def parse_nat_def char_digit_def i64_range_def)
  then show ?thesis
    by (simp add: rob_main_def parse_signature_def parse.simps parse_object.simps example_params_def)
qed

text \<open>
  The example programs fit together: the call of the client, and the same call typed at the tool
  \<^verbatim>\<open>rob\<close>, reaches the calculator of the example worker as \<open>add\<close> with 10 and 32; the worker's packet
  is the result 42 under the call's id; the client prints it and both programs exit with success.
\<close>

theorem example_programs_fit:
  assumes "de example_params = Inr (10, 32)" and "decode_packet cd buf = InRequest (example_client_request call_id)"
  shows "worker_packet cd (builder_objects (example_worker de)) buf st =
      (resp_to_vec cd (Result call_id ''math'' (JObject [(''sum'', JNumber (NInt 42))])), st) \<and>
    example_client display None (Some (Some (Inr (Result call_id ''math'' (JObject [(''sum'', JNumber (NInt 42))]))))) =
      ([''Client got response: '' @ display (JObject [(''sum'', JNumber (NInt 42))])], Inr ()) \<and>
    rob_program fl kinds None (Some (Some (Inr (Result call_id ''math'' (JObject [(''sum'', JNumber (NInt 42))])))))
        queued arrived [''call'', ''math'', ''add'', ''{ii}'', ''a'', ''10'', ''b'', ''32''] =
      (['''', ''Result:'', ''Map:'', ''   sum : : 42''], Inr ())"
proof (intro conjI)
  let ?sum = "JObject [(''sum'', JNumber (NInt 42))]"
  have "release_calculator de st ''add'' example_params = (?sum, st)"
    using assms(1) by (simp add: release_calculator_def calculator_def i32_result_def)
  with assms(2) show "worker_packet cd (builder_objects (example_worker de)) buf st = (resp_to_vec cd (Result call_id ''math'' ?sum), st)"
    by (simp add: worker_packet_def example_client_request_def remote_call_request_def example_worker_def add_object_def new_builder_def)
  show "example_client display None (Some (Some (Inr (Result call_id ''math'' ?sum)))) =
      ([''Client got response: '' @ display ?sum], Inr ())"
    by (simp add: example_client_def remote_call_def await_reply_def)
  have "show_int 42 = ''42''"
    by (simp add: show_int_def show_nat.simps digit_char_def char_of_def bit_Suc_0_iff)
  then show "rob_program fl kinds None (Some (Some (Inr (Result call_id ''math'' ?sum)))) queued arrived
      [''call'', ''math'', ''add'', ''{ii}'', ''a'', ''10'', ''b'', ''32''] = (['''', ''Result:'', ''Map:'', ''   sum : : 42''], Inr ())"
    by (simp add: rob_program_def rob_calls_like_the_client remote_call_def await_reply_def print_result_def labelled_def padding_def
        numeral_3_eq_3)
qed

theorem example_programs_fit_witness:
  "fst (worker_packet (demo_codec\<lparr>req_from_slice := (\<lambda>_. Some (example_client_request call_1))\<rparr>)
      (builder_objects (example_worker (\<lambda>_. Inr (10, 32)))) [1] ()) =
     resp_to_vec demo_codec (Result call_1 ''math'' (JObject [(''sum'', JNumber (NInt 42))]))"
  using example_programs_fit [of "\<lambda>_. Inr (10, 32)" "demo_codec\<lparr>req_from_slice := (\<lambda>_. Some (example_client_request call_1))\<rparr>"
      "[1]" call_1 "()"]
  by (simp add: decode_packet_def)


end
