(* ===== verification/Spec2Isabelle.thy ===== *)
theory Spec2Isabelle
  imports Bus_Protocol Races Directory Lock_Order_Test Dead_Client Wedged_Broker Stranded_Call At_Most_Once Polling Publication Oversize Pipe_Security Entry_Points
begin

text \<open>
  A model of ipc-broker (\<^verbatim>\<open>src/src\<close>), a message broker that routes JSON remote calls and
  published events between local processes, its worker and client libraries and its command line
  tool.

  \<^bold>\<open>How the parts interact.\<close> Every connection to the broker is a byte stream of packets (a 32-bit
  big-endian length and a JSON text). For each connection the broker runs a reader task, which decodes
  a packet and runs the handler of the request or response to its end before it reads the next, and a
  writer task, which takes messages from the connection's bounded channel and writes them. The handlers
  share five maps, each behind its own mutex: the clients' senders, the owners of objects,
  subscriptions, open calls, and the services that the broker can start. A worker registers objects and
  answers calls; a client sends requests and receives replies and events.

  \<^bold>\<open>Theories and code.\<close>
  \<^item> \<^verbatim>\<open>Prelude\<close>: operations of Rust's containers and decimal numerals; the collections
    \<open>task_run\<close>, \<open>frame_simps\<close> and \<open>broker_inv\<close>.
  \<^item> \<^verbatim>\<open>Rpc\<close> (\<^verbatim>\<open>rpc.rs\<close>): identifiers, requests, responses, limits; the codec as a parameter.
  \<^item> \<^verbatim>\<open>Framing\<close> (\<^verbatim>\<open>broker.rs\<close>: \<open>read_packet\<close>, \<open>write_packet\<close>): packets on streams that may break at
    any byte. The locale \<open>packet_transport\<close> states what readers rely on.
  \<^item> \<^verbatim>\<open>Channel\<close>: the contract of \<open>tokio::sync::mpsc::channel\<close>, locale \<open>bounded_fifo\<close>.
  \<^item> \<^verbatim>\<open>Activate\<close> (\<^verbatim>\<open>activate.rs\<close>): service entries, the loader of activation files, the start command.
  \<^item> \<^verbatim>\<open>Tasks\<close>: the shared state \<open>ServerState\<close> (\<^verbatim>\<open>broker.rs\<close>) and asynchronous code as a \<open>task\<close>, cut
    where the code awaits: at a mutex or at a send on a channel.
  \<^item> \<^verbatim>\<open>Server\<close> (\<^verbatim>\<open>broker.rs\<close>: \<open>impl ServerState\<close>): one definition for each handler, with the point at
    which each guard is taken and dropped.
  \<^item> \<^verbatim>\<open>Client_Actor\<close> (\<^verbatim>\<open>broker.rs\<close>: \<open>ClientActor\<close>, \<open>spawn_client\<close>): reader loop, writer loop, cleanup,
    and their composition \<open>run\<close>. The locale \<open>client_table\<close> is the contract of a map that forgets a
    client, interpreted for all five.
  \<^item> \<^verbatim>\<open>Broker\<close>: the broker as events handled one after the other, its invariant \<open>broker_ok\<close>, the locale
    \<open>invariant_system\<close>, reachable states and histories.
  \<^item> \<^verbatim>\<open>Locking\<close>: the lock order that the code documents, as a predicate on tasks.
  \<^item> \<^verbatim>\<open>Pool\<close>: the same tasks run concurrently under any schedule, with mutexes, bounded channels and
    writers that may stop at any time; \<open>lock_order\<close> is a second interpretation of \<open>invariant_system\<close>.
  \<^item> \<^verbatim>\<open>Connections\<close> (\<^verbatim>\<open>broker.rs\<close>: \<open>ClientActor::run\<close>): reader task, writer loop and cleanup of each connection
    told apart, in the order in which \<open>run\<close> awaits them. A run of these actors is a run of a pool, so that what
    holds under every schedule of a pool holds for them; what needs the order is proved here.
  \<^item> \<^verbatim>\<open>Schedules\<close>, \<^verbatim>\<open>Accounting\<close>: infinite and stuck schedules of pools and actors; budgets, the cost that the
    remaining tasks may still cause, as a third interpretation of \<open>invariant_system\<close>.
  \<^item> \<^verbatim>\<open>Directory\<close>: connections that arrive, are handled and leave concurrently, handler by handler (record
    \<open>session\<close>), with the log of the moments at which each of their requests takes effect; the specification of
    the registry that the log is run on.
  \<^item> \<^verbatim>\<open>Lock_Order_Test\<close> (\<^verbatim>\<open>broker.rs\<close>: the unit test of the module): its tasks, channels and counters.
  \<^item> \<^verbatim>\<open>Races\<close>, \<^verbatim>\<open>Wedged_Broker\<close>, \<^verbatim>\<open>Dead_Client\<close>, \<^verbatim>\<open>Stranded_Call\<close>, \<^verbatim>\<open>Oversize\<close>: schedules and messages that the code does
    not survive; they add no part of the program.
  \<^item> \<^verbatim>\<open>Bus\<close>: the pool with packets that arrive while it runs, the worker's loop and the clients' actors
    as one concurrent system, every packet checked against the limit, with the invariant that follows each
    call through it.
  \<^item> \<^verbatim>\<open>Startup\<close> (\<^verbatim>\<open>broker.rs\<close>: \<open>run_broker\<close>, the listeners, \<open>ListObjects\<close>): addresses, the choice of
    listeners, the stale socket file, the listener loops and their join at shutdown.
  \<^item> \<^verbatim>\<open>Windows_Broker\<close>: the code that \<open>cfg(windows)\<close> selects in \<^verbatim>\<open>broker.rs\<close>, \<^verbatim>\<open>worker.rs\<close> and \<^verbatim>\<open>client.rs\<close>;
    \<^verbatim>\<open>Pipe_Security\<close>: the memory that its listener shares with the system, as the calls that concern it.
  \<^item> \<^verbatim>\<open>Worker\<close> (\<^verbatim>\<open>worker.rs\<close>), \<^verbatim>\<open>Ipc_Client\<close> (\<^verbatim>\<open>client.rs\<close>) and \<^verbatim>\<open>Rob\<close> (\<^verbatim>\<open>bin/rob.rs\<close>): the worker
    runtime and its supervisor, the client's actor and the operations of a handle, the parser of
    signatures, the printer and the command line.
  \<^item> \<^verbatim>\<open>Shutdown\<close> (\<^verbatim>\<open>worker.rs\<close>): the watch channel and the worker's two \<open>select!\<close>, turn by turn; the loop of
    \<^verbatim>\<open>Worker\<close> is what the turns do.
  \<^item> \<^verbatim>\<open>Client_Handles\<close> (\<^verbatim>\<open>client.rs\<close>): the clones of a handle, the queue and the actor together; a request is
    written in one move and its reply comes in another, or never.
  \<^item> \<^verbatim>\<open>Logger\<close> (\<^verbatim>\<open>logger.rs\<close>) and \<^verbatim>\<open>Programs\<close> (\<^verbatim>\<open>bin\<close>): set-up of the log; what \<^verbatim>\<open>rob\<close> prints and returns,
    and the example programs. \<^verbatim>\<open>Entry_Points\<close> (\<^verbatim>\<open>main.rs\<close>, \<^verbatim>\<open>build.rs\<close>): the programs as they are started.
  \<^item> \<^verbatim>\<open>Examples\<close>: the concrete codec and states at which the properties are exercised.

  A Rust struct is a record, an enum a datatype, a \<open>HashMap\<close> a map, a machine integer that matters
  (the length prefix) a word. A sender is the name of its channel. Errors are the values of a sum or an
  option; log messages are dropped.

  \<^bold>\<open>What the lemmas show.\<close> \<^verbatim>\<open>Framing\<close>: packets survive any stream and any break whole. \<^verbatim>\<open>Routing\<close>:
  what becomes of a call and its answer. \<^verbatim>\<open>Activation\<close>: how services are started and their queues
  flushed. \<^verbatim>\<open>Pubsub\<close>: who receives an event, and that the broker refines a registry without
  connections or locks. \<^verbatim>\<open>Lifecycle\<close>: what a connection leaves behind, what its reader and writer
  do with the stream. \<^verbatim>\<open>Locking\<close> and \<^verbatim>\<open>Interleaving\<close>: the lock order, that
  connections which keep it get through, a schedule in which the code loses a call, and that handling events one after the other is one of the
  schedules. \<^verbatim>\<open>Schedules\<close>: no schedule is infinite, and one in which no write fails ends with every
  connection finished. \<^verbatim>\<open>Guarantees\<close> and
  \<^verbatim>\<open>At_Most_Once\<close>: under every schedule, how many answers a client gets, how often a unit is
  started and how often a call is carried to a worker. \<^verbatim>\<open>Ordering\<close>: under every schedule,
  publications stay in order; a schedule in which calls do not. \<^verbatim>\<open>Directory\<close>: under every schedule
  with connections that come and go, the registry is linearizable: its log grows with the run, each operation
  enters it within its handler and before its reply. \<^verbatim>\<open>Lock_Order_Test\<close>: the unit
  test passes under every schedule. \<^verbatim>\<open>Races\<close>: two more schedules that lose calls. \<^verbatim>\<open>Wedged_Broker\<close>,
  \<^verbatim>\<open>Dead_Client\<close>, \<^verbatim>\<open>Stranded_Call\<close>, \<^verbatim>\<open>Oversize\<close>: who waits for ever when a client stops reading, when a
  worker is lost, when a message outgrows a packet. \<^verbatim>\<open>Started_Service\<close>: broker, activation and worker
  together, from the first call to a stopped service to the last answer. \<^verbatim>\<open>Polling\<close>: client and
  broker together, while a client waits for an object. \<^verbatim>\<open>Publication\<close>: from the publisher to the
  subscriber's callback. \<^verbatim>\<open>Bus_Protocol\<close>: broker, worker and clients under every schedule answer
  all calls, if they and their results fit a packet, as one object does that serves them one after the other. \<^verbatim>\<open>Worker_Protocol\<close>,
  \<^verbatim>\<open>Client_Protocol\<close>, \<^verbatim>\<open>Client_Handles\<close>, \<^verbatim>\<open>Shutdown\<close>, \<^verbatim>\<open>Rob\<close>, \<^verbatim>\<open>Startup\<close>, \<^verbatim>\<open>Windows_Broker\<close>,
  \<^verbatim>\<open>Pipe_Security\<close>, \<^verbatim>\<open>Logger\<close>, \<^verbatim>\<open>Programs\<close> and \<^verbatim>\<open>Entry_Points\<close>: the properties of those components.
  This theory: a call through all of them.

  \<^bold>\<open>Termination.\<close> No definition needs fuel: loops over a stream consume it, handlers are finite tasks, and
  the parser of signatures consumes its input. A schedule is a list of moves; that none is infinite is a
  theorem. The only loop that may not end, opening a named pipe, is a \<open>partial_function\<close> into an option.

  \<^bold>\<open>Parameters.\<close> The encoder and decoder of \<^verbatim>\<open>serde_json\<close> (record \<open>codec\<close>; the documented round trip of
  a message is the hypothesis \<open>codec_req\<close> or \<open>codec_resp\<close> where it is needed), the iteration order of
  hash sets and maps, the file system, environment variables, the objects of a worker, the results of
  connecting, accepting and binding, and the moments at which signals arrive.

  \<^bold>\<open>Not modelled.\<close> The integration tests of \<^verbatim>\<open>tests.rs\<close>, the runtime's fairness and time, the text of log
  messages. Of the Win32 calls only the order and the arguments are modelled: that library is not in the
  repository. Planned next: services that start and connections that come and go while \<^verbatim>\<open>Bus\<close> runs.
\<close>

section \<open>A call from end to end\<close>

lemma open_writer_writes:
  "packet_fits b \<Longrightarrow> writer_loop open_writer [Outgoing b] = (open_writer\<lparr>sent := frame b\<rparr>, True)"
  by (simp add: write_packet_unlimited packet_fits_def)

lemma read_one: "packet_fits b \<Longrightarrow> read_all \<lparr>avail = frame b, ends = e\<rparr> = ([b], end_error e)"
  using read_all_concat [of "[b]" "[]" e] by (simp add: read_all_empty)

text \<open>
  C6: A call runs through all components and back. The broker forwards the caller's packet to the
  owner of the object; the broker's writer and the worker's reader carry it over; the worker runs the
  method once and writes one packet; whatever else the broker handles meanwhile, short of a reuse of
  the call's id or the caller's disconnect, the broker hands that packet to the caller's channel and
  closes the call; the caller's actor resolves its request with the worker's result and the method's
  value is what \<open>remote_call\<close> returns.
\<close>

theorem call_end_to_end:
  assumes "reachable cd it s" and "clients s c = Some ctx" and "objects s n = Some w" and "objs n = Some obj"
    and "codec_req cd (Call ci n m a)" and "req_to_vec cd (Call ci n m a) = Some b" and "packet_fits b"
    and "codec_resp cd (Result ci n (fst (obj st m a)))"
    and "resp_to_vec cd (Result ci n (fst (obj st m a))) = Some rb" and "packet_fits rb"
    and "run_task (dispatch cd it c b) s = (s1, es1)"
    and "enabled_history cd it evs s1"
    and "\<forall>ev \<in> set evs. \<not> calls_with cd ci ev \<and> \<not> answers cd ci ev \<and> ev \<noteq> Disconnect c"
    and "run_task (history cd it evs) s1 = (s2, es2)"
  shows "(\<exists>wtx. clients s w = Some wtx \<and> es1 = [Sent wtx (Outgoing b)])
    \<and> (\<exists>w1. worker_loop cd objs None \<lparr>avail = sent (fst (writer_loop open_writer [Outgoing b])), ends = e\<rparr> open_writer st
          = (Some (end_error e), w1, snd (obj st m a))
        \<and> read_all \<lparr>avail = sent w1, ends = e\<rparr> = ([rb], end_error e))
    \<and> run_task (dispatch cd it w rb) s2 = (s2\<lparr>calls := (calls s2)(ci := None)\<rparr>, [Sent ctx (Outgoing rb)])
    \<and> replies (actor_message cd msg (Request (Call ci n m a) resp_tx)
          (new_actor \<lparr>avail = sent (fst (writer_loop open_writer [Outgoing rb])), ends = e\<rparr> open_writer))
        = [(resp_tx, Inr (Result ci n (fst (obj st m a))))]
    \<and> remote_call Inr (Some (Some (Inr (Result ci n (fst (obj st m a)))))) = Inr (fst (obj st m a))"
proof (intro conjI)
  let ?resp = "Result ci n (fst (obj st m a))"
  have ok: "broker_ok s" using assms(1) by (rule reachable_ok)
  from broker_okD(1) [OF ok assms(3)] obtain wtx where wtx: "clients s w = Some wtx" by blast
  have req: "decode_packet cd b = InRequest (Call ci n m a)"
    using assms(5,6) by (rule decode_packet_request)
  have resp: "decode_packet cd rb = InResponse ?resp"
    using assms(8,9) by (rule decode_packet_response)
  have es1: "es1 = [Sent wtx (Outgoing b)]" and s1: "s1 = s\<lparr>calls := (calls s)(ci \<mapsto> (c, ctx))\<rparr>"
    using assms(2,3,6,11) wtx req by (auto simp: dispatch_def run_handle_call Let_def)
  then show "\<exists>wtx. clients s w = Some wtx \<and> es1 = [Sent wtx (Outgoing b)]" using wtx by blast
  have "calls s1 ci = Some (c, ctx)" by (simp add: s1)
  then have "calls s2 ci = Some (c, ctx)"
    using calls_kept [of s1 ci c ctx evs cd it] assms(13,14) by simp
  then show "run_task (dispatch cd it w rb) s2 = (s2\<lparr>calls := (calls s2)(ci := None)\<rparr>, [Sent ctx (Outgoing rb)])"
    using resp assms(9) by (simp add: dispatch_def run_response)
  have answers: "worker_answers objs (map (decode_packet cd) [b]) st = ([?resp], snd (obj st m a))"
    using req assms(4) by simp
  show "\<exists>w1. worker_loop cd objs None \<lparr>avail = sent (fst (writer_loop open_writer [Outgoing b])), ends = e\<rparr> open_writer st
          = (Some (end_error e), w1, snd (obj st m a))
        \<and> read_all \<lparr>avail = sent w1, ends = e\<rparr> = ([rb], end_error e)"
    using worker_loop_healthy [of cd objs "\<lparr>avail = frame b, ends = e\<rparr>" st open_writer] answers assms(7,9,10)
    by (simp add: open_writer_writes read_one payload_ok_def del: writer_loop.simps)
  have "resp_from_slice cd rb = Some ?resp"
    using assms(8,9) by (auto simp: codec_resp_def)
  moreover have "write_packet open_writer b = (None, open_writer\<lparr>sent := frame b\<rparr>)"
    using assms(7) by (simp add: write_packet_unlimited packet_fits_def)
  moreover have "read_packet \<lparr>avail = frame rb, ends = e\<rparr> = (Inr rb, \<lparr>avail = [], ends = e\<rparr>)"
    using read_packet_framed [OF assms(10), of "[]" e] by simp
  ultimately show "replies (actor_message cd msg (Request (Call ci n m a) resp_tx)
          (new_actor \<lparr>avail = sent (fst (writer_loop open_writer [Outgoing rb])), ends = e\<rparr> open_writer))
        = [(resp_tx, Inr ?resp)]"
    using assms(6,10) by (simp add: open_writer_writes new_actor_def read_reply_def resolve_def del: writer_loop.simps)
  show "remote_call Inr (Some (Some (Inr ?resp))) = Inr (fst (obj st m a))"
    by (simp add: remote_call_def await_reply_def)
qed

theorem call_end_to_end_witness:
  "run_task (dispatch demo_codec demo_order worker [10]) (demo_state\<lparr>calls := [call_1 \<mapsto> (caller, 2)]\<rparr>) =
     (demo_state, [Sent 2 (Outgoing [10])])"
proof -
  let ?s1 = "demo_state\<lparr>calls := [call_1 \<mapsto> (caller, 2)]\<rparr>"
  have state: "clients demo_state caller = Some 2" "objects demo_state ''math'' = Some worker"
    by (simp_all add: demo_state_def)
  have obj: "demo_objects ''math'' = Some (\<lambda>st m a. (JNull, st + 1))"
    by (simp add: demo_objects_def)
  have call: "codec_req demo_codec (Call call_1 ''math'' ''add'' JNull)" "packet_fits [1]"
    by (simp_all add: codec_req_def demo_codec_def packet_fits_def BUF_SIZE_eq)
  have res: "codec_resp demo_codec (Result call_1 ''math'' (fst ((\<lambda>st m a. (JNull, st + 1)) (0::nat) ''add'' JNull)))"
      "resp_to_vec demo_codec (Result call_1 ''math'' (fst ((\<lambda>st m a. (JNull, st + 1)) (0::nat) ''add'' JNull))) = Some [10]"
      "packet_fits [10]"
    by (simp_all add: codec_resp_def demo_codec_def packet_fits_def BUF_SIZE_eq)
  have run: "run_task (dispatch demo_codec demo_order caller [1]) demo_state = (?s1, [Sent 1 (Outgoing [1])])"
    by (simp add: dispatch_def run_handle_call demo_state_def)
  have evs: "enabled_history demo_codec demo_order [] ?s1" "run_task (history demo_codec demo_order []) ?s1 = (?s1, [])"
      "\<forall>ev \<in> set []. \<not> calls_with demo_codec call_1 ev \<and> \<not> answers demo_codec call_1 ev \<and> ev \<noteq> Disconnect caller"
    by simp_all
  from call_end_to_end [where objs = demo_objects and obj = "\<lambda>st m a. (JNull, st + 1)" and st = 0 and ci = call_1 and n = "''math''"
      and m = "''add''" and a = JNull, OF demo_reachable state obj call(1) demo_encodings(1) call(2) res run evs(1,3,2)]
  show ?thesis by (simp add: demo_state_def)
qed

end
